(* ===== verification/Go_Prelude.thy ===== *)
theory Go_Prelude
  imports Main "HOL-Library.Word"
begin

text \<open>
  Shared vocabulary of the development: Go's byte slices, fixed-width integers, the big-endian
  accessors of \<^verbatim>\<open>encoding/binary\<close>, Go strings as byte strings, and the errors that the
  standard library's readers and writers return.  The lemmas here are the ones that the component
  theories use again and again; they are declared \<open>[simp]\<close> or collected in \<open>bytes_simps\<close>.
\<close>

unbundle bit_operations_syntax

named_theorems bytes_simps \<open>facts about byte strings and their integer encodings\<close>

type_synonym byte = "8 word"
type_synonym bytes = "byte list"
type_synonym uint16 = "16 word"
type_synonym uint64 = "64 word"

text \<open>A Go call that returns a value or an error.\<close>

type_synonym ('e, 'a) result = "'e + 'a"

section \<open>Standard-library errors\<close>

text \<open>
  The errors that readers, writers and connections hand to the program.  \<open>Timeout\<close> is an expired
  deadline, \<open>ErrClosed\<close> is \<^verbatim>\<open>net.ErrClosed\<close>, \<open>ErrOther\<close> any other failure of the
  operating system (its number only keeps different failures apart).
\<close>

datatype io_error =
    EOF
  | ErrUnexpectedEOF
  | ErrShortWrite
  | Timeout
  | ErrClosed
  | ErrOther nat

section \<open>Big-endian integers\<close>

text \<open>
  \<open>binary.BigEndian.PutUint16\<close> and \<open>PutUint64\<close> write into a slice of exactly the integer's
  width; here the written slice is the result.  The readers take such a slice.
\<close>

definition PutUint16 :: "uint16 \<Rightarrow> bytes" where
  "PutUint16 v = [ucast (drop_bit 8 v), ucast v]"

definition Uint16 :: "bytes \<Rightarrow> uint16" where
  "Uint16 b = ucast (b ! 1) OR push_bit 8 (ucast (b ! 0))"

definition PutUint64 :: "uint64 \<Rightarrow> bytes" where
  "PutUint64 v =
     [ucast (drop_bit 56 v), ucast (drop_bit 48 v), ucast (drop_bit 40 v), ucast (drop_bit 32 v),
      ucast (drop_bit 24 v), ucast (drop_bit 16 v), ucast (drop_bit 8 v), ucast v]"

definition Uint64 :: "bytes \<Rightarrow> uint64" where
  "Uint64 b =
     ucast (b ! 7) OR push_bit 8 (ucast (b ! 6)) OR push_bit 16 (ucast (b ! 5))
     OR push_bit 24 (ucast (b ! 4)) OR push_bit 32 (ucast (b ! 3)) OR push_bit 40 (ucast (b ! 2))
     OR push_bit 48 (ucast (b ! 1)) OR push_bit 56 (ucast (b ! 0))"

lemma length_PutUint16 [simp]: "length (PutUint16 v) = 2"
  by (simp add: PutUint16_def)

lemma length_PutUint64 [simp]: "length (PutUint64 v) = 8"
  by (simp add: PutUint64_def)

lemma Uint16_PutUint16 [simp]: "Uint16 (PutUint16 v) = v"
  unfolding Uint16_def PutUint16_def
  by (rule bit_word_eqI) (auto simp: bit_simps)

lemma PutUint16_Uint16:
  assumes "length b = 2"
  shows "PutUint16 (Uint16 b) = b"
proof -
  obtain x y where b: "b = [x, y]"
    using assms by (auto simp: numeral_eq_Suc length_Suc_conv)
  have "ucast (drop_bit 8 (ucast y OR push_bit 8 (ucast x) :: uint16)) = x"
    by (rule bit_word_eqI) (auto simp: bit_simps dest: bit_imp_le_length)
  moreover have "ucast (ucast y OR push_bit 8 (ucast x) :: uint16) = y"
    by (rule bit_word_eqI) (auto simp: bit_simps dest: bit_imp_le_length)
  ultimately show ?thesis
    by (simp add: b Uint16_def PutUint16_def)
qed

lemma Uint64_PutUint64 [simp]: "Uint64 (PutUint64 v) = v"
proof (rule bit_word_eqI)
  fix n assume n: "n < LENGTH(64)"
  then have "n < 8 \<or> 8 \<le> n \<and> n < 16 \<or> 16 \<le> n \<and> n < 24 \<or> 24 \<le> n \<and> n < 32 \<or>
    32 \<le> n \<and> n < 40 \<or> 40 \<le> n \<and> n < 48 \<or> 48 \<le> n \<and> n < 56 \<or> 56 \<le> n \<and> n < 64"
    by auto
  then show "bit (Uint64 (PutUint64 v)) n \<longleftrightarrow> bit v n"
    by (elim disjE) (auto simp: Uint64_def PutUint64_def bit_simps)
qed

lemma inj_PutUint64: "inj PutUint64"
  by (metis Uint64_PutUint64 injI)

lemma PutUint64_inject [simp]: "PutUint64 v = PutUint64 w \<longleftrightarrow> v = w"
  by (metis Uint64_PutUint64)

lemma unat_of_nat_uint16 [simp]: "n < 65536 \<Longrightarrow> unat (of_nat n :: uint16) = n"
  by (simp add: unat_of_nat take_bit_nat_eq_self)

lemma unat_uint16_bound [simp]: "unat (v :: uint16) < 65536"
  using unsigned_less [of v] by simp

lemma unat_uint16_le [simp]: "unat (v :: uint16) \<le> 65535"
  using unat_uint16_bound [of v] by linarith

lemma of_nat_uint64_eq:
  "i < 2 ^ 64 \<Longrightarrow> j < 2 ^ 64 \<Longrightarrow> (of_nat i :: uint64) = of_nat j \<longleftrightarrow> i = j"
  by (simp add: word_of_nat_eq_iff take_bit_nat_eq_self)

lemma inj_on_uint64: "A \<subseteq> {..<2 ^ 64} \<Longrightarrow> inj_on (\<lambda>i. k + (of_nat i :: uint64)) A"
  by (intro inj_onI) (auto simp: subset_eq of_nat_uint64_eq)

section \<open>Go strings\<close>

text \<open>
  A Go string is a sequence of bytes; here it is a \<^typ>\<open>string\<close>, whose characters are bytes.
  \<open>[]byte(s)\<close> and \<open>string(b)\<close> are the two conversions.
\<close>

definition bytes_of_string :: "string \<Rightarrow> bytes" where
  "bytes_of_string s = map (\<lambda>c. of_nat (of_char c)) s"

definition string_of_bytes :: "bytes \<Rightarrow> string" where
  "string_of_bytes b = map (\<lambda>x. char_of (unat x)) b"

lemma unat_byte_bound [simp]: "unat (x :: byte) < 256"
  using unsigned_less [of x] by simp

lemma string_of_bytes_of_string [simp]: "string_of_bytes (bytes_of_string s) = s"
  unfolding string_of_bytes_def bytes_of_string_def
  by (simp add: o_def unat_of_nat take_bit_nat_eq_self map_idI)

lemma bytes_of_string_of_bytes [simp]: "bytes_of_string (string_of_bytes b) = b"
  unfolding string_of_bytes_def bytes_of_string_def
  by (simp add: o_def map_idI)

lemma length_bytes_of_string [simp]: "length (bytes_of_string s) = length s"
  by (simp add: bytes_of_string_def)

lemma length_string_of_bytes [simp]: "length (string_of_bytes b) = length b"
  by (simp add: string_of_bytes_def)

lemma bytes_of_string_empty [simp]: "bytes_of_string s = [] \<longleftrightarrow> s = []"
  by (simp add: bytes_of_string_def)

section \<open>Lists\<close>

lemma take_drop_append [bytes_simps]:
  "length xs = n \<Longrightarrow> take n (xs @ ys) = xs" "length xs = n \<Longrightarrow> drop n (xs @ ys) = ys"
  by auto

lemma length_Suc0_conv: "length xs = Suc 0 \<longleftrightarrow> (\<exists>x. xs = [x])"
  by (auto simp: length_Suc_conv)

end
