(* ===== verification/Go_IO.thy ===== *)
theory Go_IO
  imports Go_Prelude
begin

text \<open>
  The readers, writers and connections of the Go standard library that the program composes:
  \<^verbatim>\<open>net.Conn\<close>, \<^verbatim>\<open>bytes.Reader\<close>, \<^verbatim>\<open>bufio.Reader\<close>, \<^verbatim>\<open>io.TeeReader\<close>,
  \<^verbatim>\<open>io.MultiReader\<close>, and the program's own \<^verbatim>\<open>captureConn\<close>
  (\<^verbatim>\<open>src/pkg/gateway/server.go\<close>).  A value of type \<open>reader\<close> is the dynamic state behind an
  \<^verbatim>\<open>io.Reader\<close>; \<open>io_Read n r\<close> is one call of its \<^verbatim>\<open>Read\<close> with a buffer of \<open>n\<close> bytes.

  What a reader promises is the locale \<open>io_reader\<close>: it delivers a fixed byte string, in order,
  split in any way, and then its final error.  \<open>io.ReadFull\<close> is proved against that promise, so
  no later theory looks at the way the bytes arrive.
\<close>

section \<open>Readers\<close>

text \<open>
  What arrives on a network connection: a piece of data, or a silence longer than any deadline
  that is armed at that moment.
\<close>

datatype arrival = Data bytes | Quiet

text \<open>
  \<open>NetConn as armed e\<close>: the receiving half of a connection on which \<open>as\<close> is still to arrive,
  with a read deadline armed or not, and which then fails with \<open>e\<close> (\<open>EOF\<close> when the peer closes).
  \<open>BufioReader r buf err\<close> holds the unread part of its buffer and a pending error.
  \<open>TeeReader r seen\<close> and \<open>CaptureConn r seen\<close> record what was read through them.
\<close>

datatype reader =
    NetConn "arrival list" bool io_error
  | BytesReader bytes
  | BufioReader reader bytes "io_error option"
  | TeeReader reader bytes
  | MultiReader "reader list"
  | CaptureConn reader bytes

text \<open>The default buffer size of \<^verbatim>\<open>bufio.NewReader\<close>.\<close>

definition bufio_size :: nat where
  "bufio_size = 4096"

fun net_read :: "nat \<Rightarrow> arrival list \<Rightarrow> bool \<Rightarrow> io_error \<Rightarrow> (bytes \<times> io_error option) \<times> arrival list" where
  "net_read n [] armed e = (([], Some e), [])"
| "net_read n (Quiet # as) armed e =
     (if armed then (([], Some Timeout), Quiet # as) else net_read n as armed e)"
| "net_read n (Data d # as) armed e =
     (if length d \<le> n then ((d, None), as) else ((take n d, None), Data (drop n d) # as))"

text \<open>
  \<^verbatim>\<open>io.MultiReader\<close> moves on to its next reader at \<open>EOF\<close>, and reports \<open>EOF\<close> itself only
  when no reader is left.
\<close>

fun io_Read :: "nat \<Rightarrow> reader \<Rightarrow> (bytes \<times> io_error option) \<times> reader"
  and multi_read :: "nat \<Rightarrow> reader list \<Rightarrow> (bytes \<times> io_error option) \<times> reader list" where
  "io_Read n (NetConn as armed e) =
     (let (res, as') = net_read n as armed e in (res, NetConn as' armed e))"
| "io_Read n (BytesReader b) =
     (if b = [] then (([], Some EOF), BytesReader [])
      else ((take n b, None), BytesReader (drop n b)))"
| "io_Read n (BufioReader r buf err) =
     (if n = 0 then
        (if buf \<noteq> [] then (([], None), BufioReader r buf err)
         else (([], err), BufioReader r buf None))
      else if buf = [] then
        (if err \<noteq> None then (([], err), BufioReader r [] None)
         else if n \<ge> bufio_size then
           (let (res, r') = io_Read n r in (res, BufioReader r' [] None))
         else
           (let ((d, e), r') = io_Read bufio_size r in
            if d = [] then (([], e), BufioReader r' [] None)
            else ((take n d, None), BufioReader r' (drop n d) e)))
      else ((take n buf, None), BufioReader r (drop n buf) err))"
| "io_Read n (TeeReader r seen) =
     (let ((d, e), r') = io_Read n r in ((d, e), TeeReader r' (seen @ d)))"
| "io_Read n (MultiReader rs) =
     (let (res, rs') = multi_read n rs in (res, MultiReader rs'))"
| "io_Read n (CaptureConn r seen) =
     (let ((d, e), r') = io_Read n r in ((d, e), CaptureConn r' (seen @ d)))"
| "multi_read n [] = (([], Some EOF), [])"
| "multi_read n (r # rs) =
     (let ((d, e), r') = io_Read n r in
      if e = Some EOF then
        (if d \<noteq> [] then ((d, if rs = [] then Some EOF else None), rs)
         else multi_read n rs)
      else ((d, e), r' # rs))"

section \<open>What a reader still has to deliver\<close>

text \<open>
  \<open>reader_stream r\<close> is the byte string that reading \<open>r\<close> to the end delivers, \<open>reader_fin r\<close> the
  error it ends with.  With an armed deadline the stream ends at the first silence.
\<close>

fun net_stream :: "arrival list \<Rightarrow> bool \<Rightarrow> bytes" where
  "net_stream [] armed = []"
| "net_stream (Quiet # as) armed = (if armed then [] else net_stream as armed)"
| "net_stream (Data d # as) armed = d @ net_stream as armed"

definition net_fin :: "arrival list \<Rightarrow> bool \<Rightarrow> io_error \<Rightarrow> io_error" where
  "net_fin as armed e = (if armed \<and> Quiet \<in> set as then Timeout else e)"

fun reader_fin :: "reader \<Rightarrow> io_error"
  and multi_fin :: "reader list \<Rightarrow> io_error" where
  "reader_fin (NetConn as armed e) = net_fin as armed e"
| "reader_fin (BytesReader b) = EOF"
| "reader_fin (BufioReader r buf err) = (case err of None \<Rightarrow> reader_fin r | Some e \<Rightarrow> e)"
| "reader_fin (TeeReader r seen) = reader_fin r"
| "reader_fin (MultiReader rs) = multi_fin rs"
| "reader_fin (CaptureConn r seen) = reader_fin r"
| "multi_fin [] = EOF"
| "multi_fin (r # rs) = (if reader_fin r = EOF then multi_fin rs else reader_fin r)"

fun reader_stream :: "reader \<Rightarrow> bytes"
  and multi_stream :: "reader list \<Rightarrow> bytes" where
  "reader_stream (NetConn as armed e) = net_stream as armed"
| "reader_stream (BytesReader b) = b"
| "reader_stream (BufioReader r buf err) = buf @ reader_stream r"
| "reader_stream (TeeReader r seen) = reader_stream r"
| "reader_stream (MultiReader rs) = multi_stream rs"
| "reader_stream (CaptureConn r seen) = reader_stream r"
| "multi_stream [] = []"
| "multi_stream (r # rs) =
     (if reader_fin r = EOF then reader_stream r @ multi_stream rs else reader_stream r)"

text \<open>
  A \<open>bufio.Reader\<close> only ever holds back an error that its source reported at the end of its data.
\<close>

fun reader_ok :: "reader \<Rightarrow> bool" where
  "reader_ok (NetConn as armed e) = True"
| "reader_ok (BytesReader b) = True"
| "reader_ok (BufioReader r buf err) =
     (reader_ok r \<and> (case err of None \<Rightarrow> True | Some e \<Rightarrow> reader_stream r = [] \<and> reader_fin r = e))"
| "reader_ok (TeeReader r seen) = reader_ok r"
| "reader_ok (MultiReader rs) = (\<forall>r \<in> set rs. reader_ok r)"
| "reader_ok (CaptureConn r seen) = reader_ok r"

text \<open>A measure that every successful \<^verbatim>\<open>Read\<close> lowers.\<close>

fun net_rank :: "arrival list \<Rightarrow> nat" where
  "net_rank [] = 0"
| "net_rank (Quiet # as) = net_rank as"
| "net_rank (Data d # as) = Suc (length d) + net_rank as"

fun reader_rank :: "reader \<Rightarrow> nat" where
  "reader_rank (NetConn as armed e) = net_rank as"
| "reader_rank (BytesReader b) = length b"
| "reader_rank (BufioReader r buf err) = length buf + reader_rank r"
| "reader_rank (TeeReader r seen) = reader_rank r"
| "reader_rank (MultiReader rs) = sum_list (map (\<lambda>r. Suc (reader_rank r)) rs)"
| "reader_rank (CaptureConn r seen) = reader_rank r"

abbreviation multi_rank :: "reader list \<Rightarrow> nat" where
  "multi_rank rs \<equiv> sum_list (map (\<lambda>r. Suc (reader_rank r)) rs)"

section \<open>The contract of io.Reader\<close>

text \<open>
  The promise of \<^verbatim>\<open>io.Reader\<close> as this program relies on it: a call delivers the next bytes of
  a fixed byte string, at most as many as fit the buffer; an error is the reader's final error and
  comes when nothing is left; a call without an error makes progress.  \<open>reads rd s bs s'\<close> is any
  sequence of calls, of any buffer sizes, that together delivered \<open>bs\<close>.
\<close>

inductive reads :: "(nat \<Rightarrow> 's \<Rightarrow> (bytes \<times> io_error option) \<times> 's) \<Rightarrow> 's \<Rightarrow> bytes \<Rightarrow> 's \<Rightarrow> bool"
  for rd where
  reads_none: "reads rd s [] s"
| reads_more: "reads rd s bs s' \<Longrightarrow> rd n s' = ((d, e), s'') \<Longrightarrow> reads rd s (bs @ d) s''"

lemma reads_single: "rd n s = ((d, e), s') \<Longrightarrow> reads rd s d s'"
  using reads_more [OF reads_none] by fastforce

lemma reads_trans: "reads rd s' cs s'' \<Longrightarrow> reads rd s bs s' \<Longrightarrow> reads rd s (bs @ cs) s''"
  by (induction rule: reads.induct) (auto intro: reads_more simp flip: append_assoc)

locale io_reader =
  fixes rd :: "nat \<Rightarrow> 's \<Rightarrow> (bytes \<times> io_error option) \<times> 's"
    and ok :: "'s \<Rightarrow> bool"
    and stream :: "'s \<Rightarrow> bytes"
    and final_error :: "'s \<Rightarrow> io_error"
    and rank :: "'s \<Rightarrow> nat"
  assumes rd_ok: "ok s \<Longrightarrow> rd n s = ((d, e), s') \<Longrightarrow> ok s'"
    and rd_stream: "ok s \<Longrightarrow> rd n s = ((d, e), s') \<Longrightarrow> stream s = d @ stream s'"
    and rd_fin: "ok s \<Longrightarrow> rd n s = ((d, e), s') \<Longrightarrow> final_error s' = final_error s"
    and rd_length: "ok s \<Longrightarrow> rd n s = ((d, e), s') \<Longrightarrow> length d \<le> n"
    and rd_error: "ok s \<Longrightarrow> rd n s = ((d, Some x), s') \<Longrightarrow> stream s' = [] \<and> x = final_error s"
    and rd_rank: "rd n s = ((d, None), s') \<Longrightarrow> 0 < n \<Longrightarrow> rank s' < rank s"
begin

text \<open>Any sequence of calls delivers a prefix of the stream, and the rest stays to be read.\<close>

lemma reads_stream:
  "reads rd s bs s' \<Longrightarrow> ok s \<Longrightarrow>
     ok s' \<and> stream s = bs @ stream s' \<and> final_error s' = final_error s"
proof (induction rule: reads.induct)
  case (reads_none s)
  then show ?case by simp
next
  case (reads_more s bs s' n d e s'')
  then have "ok s'" by simp
  with reads_more show ?case
    using rd_ok [OF \<open>ok s'\<close>] rd_stream [OF \<open>ok s'\<close>] rd_fin [OF \<open>ok s'\<close>] by fastforce
qed

end

section \<open>The program's readers keep the contract\<close>

fun delivers :: "nat \<Rightarrow> bytes \<times> io_error \<Rightarrow> bytes \<times> io_error option \<Rightarrow> bytes \<times> io_error \<Rightarrow> bool" where
  "delivers n (str, fin) (d, e) (str', fin') \<longleftrightarrow>
     str = d @ str' \<and> fin' = fin \<and> length d \<le> n \<and>
     (case e of None \<Rightarrow> True | Some x \<Rightarrow> str' = [] \<and> x = fin)"

lemma net_read_delivers:
  "net_read n as armed e = (res, as') \<Longrightarrow>
     delivers n (net_stream as armed, net_fin as armed e) res (net_stream as' armed, net_fin as' armed e)"
  by (induction n as armed e arbitrary: as' rule: net_read.induct)
    (auto simp: net_fin_def split: if_splits option.splits)

lemma net_read_rank:
  "net_read n as armed e = ((d, x), as') \<Longrightarrow>
     net_rank as' + length d \<le> net_rank as \<and>
     (x = None \<longrightarrow> 0 < n \<longrightarrow> net_rank as' + max 1 (length d) \<le> net_rank as)"
  by (induction n as armed e arbitrary: as' rule: net_read.induct) (auto split: if_splits)

lemma io_Read_delivers:
  "reader_ok r \<Longrightarrow> io_Read n r = (res, r') \<Longrightarrow>
     reader_ok r' \<and> delivers n (reader_stream r, reader_fin r) res (reader_stream r', reader_fin r')"
  "(\<forall>r \<in> set rs. reader_ok r) \<Longrightarrow> multi_read n rs = (res, rs') \<Longrightarrow>
     (\<forall>r \<in> set rs'. reader_ok r) \<and>
     delivers n (multi_stream rs, multi_fin rs) res (multi_stream rs', multi_fin rs')"
proof (induction n r and n rs arbitrary: res r' and res rs' rule: io_Read_multi_read.induct)
  case (3 n r buf err)
  show ?case
  proof (cases "n = 0 \<or> buf \<noteq> [] \<or> err \<noteq> None")
    case True
    with 3(3,4) show ?thesis by (auto split: if_splits option.splits)
  next
    case False
    obtain d e s where rd: "io_Read (if n \<ge> bufio_size then n else bufio_size) r = ((d, e), s)"
      by (metis surj_pair)
    have ok: "reader_ok r" using 3(3) by simp
    have "reader_ok s \<and> delivers (if n \<ge> bufio_size then n else bufio_size)
        (reader_stream r, reader_fin r) (d, e) (reader_stream s, reader_fin s)"
      using False 3(1,2) [OF _ _ _ _ ok] rd by (cases "n \<ge> bufio_size") auto
    with False 3(4) rd show ?thesis
      by (auto split: if_splits option.splits)
  qed
next
  case (8 n r rs)
  obtain d e s where rd: "io_Read n r = ((d, e), s)"
    by (metis surj_pair)
  have ok: "reader_ok r" using 8(3) by simp
  have r: "reader_ok s \<and> delivers n (reader_stream r, reader_fin r) (d, e) (reader_stream s, reader_fin s)"
    using 8(1) [OF ok rd] .
  show ?case
  proof (cases "e = Some EOF \<and> d = []")
    case True
    then have "multi_read n rs = (res, rs')" using 8(4) rd by simp
    with 8(2,3) rd True r show ?thesis by (cases res) auto
  next
    case False
    with 8(3,4) rd r show ?thesis by (auto split: if_splits option.splits)
  qed
qed (auto split: prod.splits option.splits if_splits dest: net_read_delivers)

lemma io_Read_rank:
  "io_Read n r = ((d, x), r') \<Longrightarrow>
     reader_rank r' + length d \<le> reader_rank r \<and>
     (x = None \<longrightarrow> 0 < n \<longrightarrow> reader_rank r' + max 1 (length d) \<le> reader_rank r)"
  "multi_read n rs = ((d, x), rs') \<Longrightarrow>
     multi_rank rs' + length d \<le> multi_rank rs \<and>
     (x = None \<longrightarrow> 0 < n \<longrightarrow> multi_rank rs' + max 1 (length d) \<le> multi_rank rs)"
proof (induction n r and n rs arbitrary: d x r' and d x rs' rule: io_Read_multi_read.induct)
  case (3 n r buf err)
  show ?case
  proof (cases "n = 0 \<or> buf \<noteq> [] \<or> err \<noteq> None")
    case True
    with 3(3) show ?thesis by (cases buf) (auto simp: max_def split: if_splits)
  next
    case False
    obtain d' e s where rd: "io_Read (if n \<ge> bufio_size then n else bufio_size) r = ((d', e), s)"
      by (metis surj_pair)
    have "reader_rank s + length d' \<le> reader_rank r \<and>
        (e = None \<longrightarrow> reader_rank s + max 1 (length d') \<le> reader_rank r)"
      using False 3(1,2) rd by (cases "n \<ge> bufio_size") (auto simp: bufio_size_def)
    with False 3(3) rd show ?thesis
      by (auto simp: max_def Suc_le_eq split: if_splits)
  qed
next
  case (8 n r rs)
  obtain d' e s where rd: "io_Read n r = ((d', e), s)"
    by (metis surj_pair)
  note r = 8(1) [OF rd]
  show ?case
  proof (cases "e = Some EOF \<and> d' = []")
    case True
    then have "multi_read n rs = ((d, x), rs')" using 8(3) rd by simp
    with 8(2) rd True show ?thesis by fastforce
  next
    case False
    with 8(3) rd r show ?thesis by (auto simp: max_def split: if_splits)
  qed
qed (auto simp: max_def Suc_le_eq split: prod.splits if_splits dest: net_read_rank)

interpretation rdr: io_reader io_Read reader_ok reader_stream reader_fin reader_rank
proof
  fix s n d e s'
  assume "reader_ok s" and rd: "io_Read n s = ((d, e), s')"
  then have l: "reader_ok s' \<and> delivers n (reader_stream s, reader_fin s) (d, e) (reader_stream s', reader_fin s')"
    by (rule io_Read_delivers(1))
  then show "reader_ok s'" "reader_stream s = d @ reader_stream s'" "reader_fin s' = reader_fin s" "length d \<le> n"
    by auto
next
  fix s n d x s'
  assume "reader_ok s" and "io_Read n s = ((d, Some x), s')"
  then show "reader_stream s' = [] \<and> x = reader_fin s"
    using io_Read_delivers(1) by fastforce
next
  fix n s d s'
  assume "io_Read n s = ((d, None), s')" and "0 < n"
  then show "reader_rank s' < reader_rank s"
    using io_Read_rank(1) by fastforce
qed

section \<open>io.ReadFull\<close>

text \<open>
  The loop of \<^verbatim>\<open>io.ReadAtLeast\<close> with the whole buffer as the minimum, then the translation of
  a short count.  \<open>acc\<close> is the filled part of the buffer.
\<close>

function read_full_loop :: "nat \<Rightarrow> bytes \<Rightarrow> reader \<Rightarrow> (bytes \<times> io_error option) \<times> reader" where
  "read_full_loop n acc r =
     (if n \<le> length acc then ((acc, None), r)
      else (case io_Read (n - length acc) r of
              ((d, None), r') \<Rightarrow> read_full_loop n (acc @ d) r'
            | ((d, Some e), r') \<Rightarrow> ((acc @ d, Some e), r')))"
  by pat_completeness auto
termination
  by (relation "measure (\<lambda>(n, acc, r). reader_rank r)") (auto dest: rdr.rd_rank [OF sym])

declare read_full_loop.simps [simp del]

definition short_error :: "bytes \<Rightarrow> io_error \<Rightarrow> io_error" where
  "short_error buf e = (if buf \<noteq> [] \<and> e = EOF then ErrUnexpectedEOF else e)"

definition ReadFull :: "nat \<Rightarrow> reader \<Rightarrow> (io_error, bytes) result \<times> reader" where
  "ReadFull n r =
     (let ((buf, err), r') = read_full_loop n [] r in
      if n \<le> length buf then (Inr buf, r')
      else (case err of
              None \<Rightarrow> (Inr buf, r')
            | Some e \<Rightarrow> (Inl (short_error buf e), r')))"

lemma read_full_loop_reads:
  assumes "reader_ok r" "length acc \<le> n" "read_full_loop n acc r = ((buf, e), r')"
  shows "(\<exists>bs. buf = acc @ bs \<and> reads io_Read r bs r') \<and> length buf \<le> n \<and>
     (length buf < n \<longrightarrow> e = Some (reader_fin r) \<and> reader_stream r' = [])"
  using assms
proof (induction n acc r rule: read_full_loop.induct)
  case (1 n acc r)
  note eq = 1(4) [unfolded read_full_loop.simps [of n acc r]]
  show ?case
  proof (cases "n \<le> length acc")
    case True
    with eq 1(3) show ?thesis by (auto intro: reads_none)
  next
    case False
    obtain d x r1 where rd: "io_Read (n - length acc) r = ((d, x), r1)"
      by (metis surj_pair)
    have len: "length (acc @ d) \<le> n"
      using rdr.rd_length [OF 1(2) rd] False by simp
    have one: "reads io_Read r d r1"
      using reads_single [of io_Read, OF rd] .
    show ?thesis
    proof (cases x)
      case None
      have step: "read_full_loop n (acc @ d) r1 = ((buf, e), r')"
        using eq False rd None by simp
      note IH = 1(1) [OF False rd [symmetric] _ None rdr.rd_ok [OF 1(2) rd] len step]
      from IH obtain bs where buf: "buf = (acc @ d) @ bs" and bs: "reads io_Read r1 bs r'"
        by auto
      have "reads io_Read r (d @ bs) r'"
        using reads_trans [OF bs one] .
      with IH buf rdr.rd_fin [OF 1(2) rd] show ?thesis by auto
    next
      case (Some y)
      have "buf = acc @ d" "e = Some y" "r' = r1"
        using eq False rd Some by auto
      with one len rdr.rd_error [OF 1(2) rd [unfolded Some]] show ?thesis by auto
    qed
  qed
qed

text \<open>
  \<open>io.ReadFull\<close> returns the next \<open>n\<close> bytes whenever the stream has them, whatever the sizes in
  which they arrive; otherwise it consumes what is left and fails.
\<close>

lemma ReadFull_enough:
  assumes "reader_ok r" "n \<le> length (reader_stream r)"
  obtains r' where "ReadFull n r = (Inr (take n (reader_stream r)), r')"
    "reads io_Read r (take n (reader_stream r)) r'" "reader_ok r'"
    "reader_stream r' = drop n (reader_stream r)" "reader_fin r' = reader_fin r"
proof -
  obtain buf e r' where lp: "read_full_loop n [] r = ((buf, e), r')"
    by (metis surj_pair)
  from read_full_loop_reads [OF assms(1) _ lp] obtain
    rds: "reads io_Read r buf r'" and len: "length buf \<le> n" and
    short: "length buf < n \<longrightarrow> e = Some (reader_fin r) \<and> reader_stream r' = []"
    by auto
  note str = rdr.reads_stream [OF rds assms(1)]
  have n: "length buf = n"
    using str short len assms(2) by (cases "length buf < n") auto
  have take: "take n (reader_stream r) = buf" and drop: "drop n (reader_stream r) = reader_stream r'"
    using str n by auto
  show ?thesis
  proof (rule that [of r'])
    show "ReadFull n r = (Inr (take n (reader_stream r)), r')"
      unfolding take using lp n by (simp add: ReadFull_def)
  qed (use str rds in \<open>simp_all add: take drop n\<close>)
qed

lemma ReadFull_short:
  assumes "reader_ok r" "length (reader_stream r) < n"
  obtains r' where
    "ReadFull n r = (Inl (short_error (reader_stream r) (reader_fin r)), r')"
    "reads io_Read r (reader_stream r) r'" "reader_ok r'" "reader_stream r' = []"
    "reader_fin r' = reader_fin r"
proof -
  obtain buf e r' where lp: "read_full_loop n [] r = ((buf, e), r')"
    by (metis surj_pair)
  from read_full_loop_reads [OF assms(1) _ lp] obtain
    rds: "reads io_Read r buf r'" and
    short: "length buf < n \<longrightarrow> e = Some (reader_fin r) \<and> reader_stream r' = []"
    by auto
  note str = rdr.reads_stream [OF rds assms(1)]
  have "length buf < n" using str assms(2) by simp
  then show ?thesis
    using str lp short rds by (intro that [of r']) (auto simp: ReadFull_def)
qed

text \<open>What was read is off the reader: a successful call lowers the rank by as much.\<close>

lemma read_full_loop_rank:
  "read_full_loop n acc r = ((buf, x), r') \<Longrightarrow> reader_rank r' + length buf \<le> reader_rank r + length acc"
proof (induction n acc r rule: read_full_loop.induct)
  case (1 n acc r)
  note eq = 1(2) [unfolded read_full_loop.simps [of n acc r]]
  show ?case
  proof (cases "n \<le> length acc")
    case True
    with eq show ?thesis by auto
  next
    case False
    obtain d y r1 where rd: "io_Read (n - length acc) r = ((d, y), r1)" by (metis surj_pair)
    note rank = io_Read_rank(1) [OF rd]
    show ?thesis
    proof (cases y)
      case None
      from 1(1) [OF False rd [symmetric] _ None] eq False rd None rank show ?thesis by auto
    next
      case (Some z)
      with eq False rd rank show ?thesis by auto
    qed
  qed
qed

lemma read_full_loop_None: "read_full_loop n acc r = ((buf, None), r') \<Longrightarrow> n \<le> length buf"
proof (induction n acc r rule: read_full_loop.induct)
  case (1 n acc r)
  note eq = 1(2) [unfolded read_full_loop.simps [of n acc r]]
  from 1(1) eq show ?case by (auto split: if_splits prod.splits option.splits)
qed

lemma ReadFull_rank: "ReadFull n r = (Inr bs, r') \<Longrightarrow> reader_rank r' + n \<le> reader_rank r"
  by (auto simp: ReadFull_def Let_def split: prod.splits if_splits option.splits
      dest: read_full_loop_rank read_full_loop_None)

section \<open>Reading through the recording readers\<close>

lemmas reads_io_Read = reads_more [where rd = io_Read, rotated]

text \<open>A tee and a capturing connection record exactly the bytes that were read through them.\<close>

lemma reads_TeeReader:
  "reads io_Read (TeeReader r seen) bs t \<Longrightarrow>
     \<exists>r'. t = TeeReader r' (seen @ bs) \<and> reads io_Read r bs r'"
proof (induction "TeeReader r seen" bs t rule: reads.induct)
  case reads_none
  show ?case by (simp add: reads.reads_none)
next
  case (reads_more bs s n d e t)
  then obtain r1 where s: "s = TeeReader r1 (seen @ bs)" and r1: "reads io_Read r bs r1"
    by auto
  from reads_more(3) s obtain r2 where "io_Read n r1 = ((d, e), r2)" "t = TeeReader r2 (seen @ bs @ d)"
    by (auto split: prod.splits)
  with r1 show ?case by (auto intro: reads_io_Read)
qed

lemma reads_CaptureConn:
  "reads io_Read (CaptureConn r seen) bs t \<Longrightarrow>
     \<exists>r'. t = CaptureConn r' (seen @ bs) \<and> reads io_Read r bs r'"
proof (induction "CaptureConn r seen" bs t rule: reads.induct)
  case reads_none
  show ?case by (simp add: reads.reads_none)
next
  case (reads_more bs s n d e t)
  then obtain r1 where s: "s = CaptureConn r1 (seen @ bs)" and r1: "reads io_Read r bs r1"
    by auto
  from reads_more(3) s obtain r2 where "io_Read n r1 = ((d, e), r2)" "t = CaptureConn r2 (seen @ bs @ d)"
    by (auto split: prod.splits)
  with r1 show ?case by (auto intro: reads_io_Read)
qed

text \<open>A buffered reader keeps what it fetched and did not hand out.\<close>

lemma io_Read_BufioReader:
  assumes "io_Read n (BufioReader r buf err) = ((d, e), t)"
  obtains r' buf' err' got where "t = BufioReader r' buf' err'" "reads io_Read r got r'"
    "buf @ got = d @ buf'"
proof (cases "n = 0 \<or> buf \<noteq> [] \<or> err \<noteq> None")
  case True
  then have "d = take n buf" "t = BufioReader r (drop n buf) (if buf = [] then None else err)"
    using assms by (auto split: if_splits)
  then show ?thesis
    by (intro that [of r "drop n buf" "if buf = [] then None else err" "[]"]) (auto intro: reads_none)
next
  case False
  obtain d' e' s where rd: "io_Read (if n \<ge> bufio_size then n else bufio_size) r = ((d', e'), s)"
    by (metis surj_pair)
  with assms False show ?thesis
    using reads_single [where rd = io_Read, OF rd]
    by (intro that [of s "drop (length d) d'" "if n \<ge> bufio_size \<or> d' = [] then None else e'" d'])
      (auto simp: min_def split: if_splits)
qed

lemma reads_BufioReader:
  assumes "reads io_Read (BufioReader r buf err) bs t"
  shows "\<exists>r' buf' err' got. t = BufioReader r' buf' err' \<and> reads io_Read r got r' \<and>
     buf @ got = bs @ buf'"
  using assms
proof (induction "BufioReader r buf err" bs t rule: reads.induct)
  case reads_none
  show ?case by (intro exI) (auto intro: reads.reads_none)
next
  case (reads_more bs s n d e t)
  then obtain r1 buf1 err1 got where s: "s = BufioReader r1 buf1 err1" and
    got: "reads io_Read r got r1" "buf @ got = bs @ buf1"
    by auto
  from reads_more(3) s obtain r2 buf2 err2 got2 where
    "t = BufioReader r2 buf2 err2" "reads io_Read r1 got2 r2" "buf1 @ got2 = d @ buf2"
    by (metis io_Read_BufioReader)
  with got show ?case
    by (metis append_assoc reads_trans)
qed

section \<open>Deadlines\<close>

text \<open>
  Arming or clearing a read deadline acts on the network connection at the bottom of a stack of
  readers.  \<open>reader_wire r\<close> is what \<open>r\<close> delivers once its deadline is cleared.
\<close>

fun arm_deadline :: "bool \<Rightarrow> reader \<Rightarrow> reader" where
  "arm_deadline b (NetConn as armed e) = NetConn as b e"
| "arm_deadline b (BytesReader bs) = BytesReader bs"
| "arm_deadline b (BufioReader r buf err) = BufioReader (arm_deadline b r) buf err"
| "arm_deadline b (TeeReader r seen) = TeeReader (arm_deadline b r) seen"
| "arm_deadline b (MultiReader rs) = MultiReader (map (arm_deadline b) rs)"
| "arm_deadline b (CaptureConn r seen) = CaptureConn (arm_deadline b r) seen"

section \<open>Writers\<close>

text \<open>
  A writer records the slices handed to it, one per call, as far as they were accepted.  \<open>wplan\<close>
  is what its next calls will do: accept at most the given number of bytes and return the given
  error; when it is empty every call succeeds.
\<close>

record writer =
  sent :: "bytes list"
  wplan :: "(nat \<times> io_error option) list"

definition io_Write :: "bytes \<Rightarrow> writer \<Rightarrow> (nat \<times> io_error option) \<times> writer" where
  "io_Write p w =
     (case wplan w of
        [] \<Rightarrow> ((length p, None), w\<lparr>sent := sent w @ [p]\<rparr>)
      | (k, e) # rest \<Rightarrow>
          ((min k (length p), e), w\<lparr>sent := sent w @ [take k p], wplan := rest\<rparr>))"

abbreviation written :: "writer \<Rightarrow> bytes" where
  "written w \<equiv> concat (sent w)"

lemma io_Write_written:
  "io_Write p w = ((n, e), w') \<Longrightarrow> written w' = written w @ take n p \<and> n \<le> length p"
  by (auto simp: io_Write_def min_def split: list.splits)

lemma io_Write_ok [simp]:
  "wplan w = [] \<Longrightarrow> io_Write p w = ((length p, None), w\<lparr>sent := sent w @ [p]\<rparr>)"
  by (simp add: io_Write_def)

text \<open>
  The loop that writes a byte string with as many calls as it takes, as the program has it in two
  places: an error of the writer ends it, and so does a call that accepts nothing.
\<close>

locale write_loop =
  fixes wr :: "bytes \<Rightarrow> writer \<Rightarrow> 'e option \<times> writer"
    and wrap :: "io_error \<Rightarrow> 'e"
    and stuck :: 'e
  assumes wr_unfold: "wr data w =
     (if data = [] then (None, w)
      else
        (case io_Write data w of
           ((n, Some e), w') \<Rightarrow> (Some (wrap e), w')
         | ((n, None), w') \<Rightarrow> if n = 0 then (Some stuck, w') else wr (drop n data) w'))"
begin

lemma wr_ok: "wplan w = [] \<Longrightarrow> wr data w = (None, w\<lparr>sent := sent w @ (if data = [] then [] else [data])\<rparr>)"
  by (subst wr_unfold) (auto simp: wr_unfold [of "[]"])

text \<open>Whatever the writer does, a prefix goes out, and all of it if no error is returned.\<close>

lemma wr_written:
  "wr data w = (err, w') \<Longrightarrow>
     \<exists>k \<le> length data. written w' = written w @ take k data \<and> (err = None \<longrightarrow> k = length data)"
proof (induction data arbitrary: w rule: length_induct)
  case (1 data)
  show ?case
  proof (cases "data = []")
    case True
    with 1(2) show ?thesis by (simp add: wr_unfold [of "[]"])
  next
    case False
    obtain n e w1 where one: "io_Write data w = ((n, e), w1)" by (metis surj_pair)
    note wrote = io_Write_written [OF one]
    show ?thesis
    proof (cases "e = None \<and> n > 0")
      case True
      have rest: "wr (drop n data) w1 = (err, w')"
        using 1(2) [unfolded wr_unfold [of data w]] False one True by simp
      from 1(1) [rule_format, OF _ rest] False True obtain k where
        k: "k \<le> length (drop n data)" "written w' = written w1 @ take k (drop n data)"
        "err = None \<longrightarrow> k = length (drop n data)" by auto
      have "written w' = written w @ take (n + k) data" using wrote k(2) by (simp add: take_add)
      with k wrote show ?thesis by (intro exI [of _ "n + k"]) auto
    next
      case stop: False
      then have "written w' = written w @ take n data" "err \<noteq> None"
        using 1(2) [unfolded wr_unfold [of data w]] False one wrote by (auto split: option.splits)
      with wrote show ?thesis by auto
    qed
  qed
qed

end

section \<open>Connections\<close>

text \<open>
  A \<^verbatim>\<open>net.Conn\<close>: its two halves, whether it was closed, and the error that setting a deadline
  on it returns (\<open>None\<close>: it succeeds).
\<close>

record conn =
  conn_in :: reader
  conn_out :: writer
  conn_closed :: bool
  conn_deadline_err :: "io_error option"

definition conn_Close :: "conn \<Rightarrow> conn" where
  "conn_Close c = c\<lparr>conn_closed := True\<rparr>"

definition conn_SetReadDeadline :: "bool \<Rightarrow> conn \<Rightarrow> io_error option \<times> conn" where
  "conn_SetReadDeadline armed c =
     (case conn_deadline_err c of
        Some e \<Rightarrow> (Some e, c)
      | None \<Rightarrow> (None, c\<lparr>conn_in := arm_deadline armed (conn_in c)\<rparr>))"

text \<open>
  What one call of a listener's \<^verbatim>\<open>Accept\<close> gives: a connection, an error to be retried, or
  \<^verbatim>\<open>net.ErrClosed\<close>.
\<close>

datatype accept_result = Accepted conn | AcceptFailed | ListenerClosed

section \<open>Randomness\<close>

text \<open>
  \<^verbatim>\<open>crypto/rand\<close>: an endless byte sequence read from the front, or a source that fails.
\<close>

record rng =
  rng_byte :: "nat \<Rightarrow> byte"
  rng_pos :: nat
  rng_fail :: "io_error option"

definition rand_Read :: "nat \<Rightarrow> rng \<Rightarrow> (io_error, bytes) result \<times> rng" where
  "rand_Read n g =
     (case rng_fail g of
        Some e \<Rightarrow> (Inl e, g)
      | None \<Rightarrow> (Inr (map (rng_byte g) [rng_pos g ..< rng_pos g + n]), g\<lparr>rng_pos := rng_pos g + n\<rparr>))"

lemma rand_Read_length: "rand_Read n g = (Inr bs, g') \<Longrightarrow> length bs = n"
  by (auto simp: rand_Read_def split: option.splits)

lemma rand_Read_fail: "rand_Read n g = (res, g') \<Longrightarrow> rng_fail g' = rng_fail g"
  by (auto simp: rand_Read_def split: option.splits)

lemma rand_Read_works:
  "rng_fail g = None \<Longrightarrow> \<exists>bs g'. rand_Read n g = (Inr bs, g') \<and> length bs = n \<and> rng_fail g' = None"
  by (simp add: rand_Read_def)

end
