(* ===== verification/Frame.thy ===== *)
theory Frame
  imports Go_IO
begin

text \<open>
  Package \<^verbatim>\<open>frame\<close> (\<^verbatim>\<open>src/pkg/frame\<close>): the framed wire protocol (\<^verbatim>\<open>frame.go\<close>), the
  plaintext envelope (\<^verbatim>\<open>payload.go\<close>) and the nonce generator (\<^verbatim>\<open>nonce.go\<close>).

  The abstract specification of the wire format is the pure pair \<open>frame_packet\<close> and
  \<open>parse_frame\<close>; \<open>WriteFrame\<close> and \<open>ReadFrame\<close> are proved to implement it on any writer and any
  reader.  The pair is an instance of the locale \<open>prefix_codec\<close>, from which unique decoding of
  whole frame sequences follows.
\<close>

section \<open>Prefix codes\<close>

text \<open>
  The contract of a self-delimiting encoding: a decoder that undoes the encoder in front of any
  rest, and accepts nothing else.
\<close>

locale prefix_codec =
  fixes enc :: "'a \<Rightarrow> bytes"
    and dec :: "bytes \<Rightarrow> ('a \<times> bytes) option"
    and valid :: "'a \<Rightarrow> bool"
  assumes dec_enc: "valid x \<Longrightarrow> dec (enc x @ rest) = Some (x, rest)"
    and enc_dec: "dec bs = Some (x, rest) \<Longrightarrow> valid x \<and> bs = enc x @ rest"
begin

lemma enc_append_inject:
  "valid x \<Longrightarrow> valid y \<Longrightarrow> enc x @ rest = enc y @ rest' \<longleftrightarrow> x = y \<and> rest = rest'"
  by (metis dec_enc option.inject prod.inject)

lemma enc_nonempty_or_unit: "valid x \<Longrightarrow> valid y \<Longrightarrow> enc x = [] \<Longrightarrow> x = y"
  using enc_append_inject [of x y "enc y" "[]"] by simp

text \<open>No message sequence is a proper prefix of another one's encoding.\<close>

lemma concat_enc_inject:
  assumes "\<forall>x \<in> set xs. valid x" "\<forall>y \<in> set ys. valid y" "length xs \<le> length ys"
    "concat (map enc xs) @ rest = concat (map enc ys)"
  shows "\<exists>zs. ys = xs @ zs \<and> rest = concat (map enc zs)"
  using assms
proof (induction xs arbitrary: ys)
  case Nil
  then show ?case by simp
next
  case (Cons x xs)
  then obtain y ys' where ys: "ys = y # ys'" by (cases ys) auto
  have "enc x @ (concat (map enc xs) @ rest) = enc y @ concat (map enc ys')"
    using Cons.prems(4) ys by simp
  then have "x = y" and eq: "concat (map enc xs) @ rest = concat (map enc ys')"
    using Cons.prems(1,2) ys enc_append_inject by auto
  from Cons.IH [OF _ _ _ eq] Cons.prems ys \<open>x = y\<close> show ?case by auto
qed

end

section \<open>frame.go\<close>

definition TypeAuthChallenge :: byte where "TypeAuthChallenge = 0x01"
definition TypeAuthResponse :: byte where "TypeAuthResponse = 0x02"
definition TypeDataPayload :: byte where "TypeDataPayload = 0x03"
definition TypeConnOpen :: byte where "TypeConnOpen = 0x05"
definition TypeConnClose :: byte where "TypeConnClose = 0x04"
definition TypeAuthSuccess :: byte where "TypeAuthSuccess = 0x06"

lemmas frame_type_defs =
  TypeAuthChallenge_def TypeAuthResponse_def TypeDataPayload_def TypeConnOpen_def
  TypeConnClose_def TypeAuthSuccess_def

definition NonceSize :: nat where "NonceSize = 12"

definition HeaderSize :: nat where "HeaderSize = 1 + 2 + NonceSize"

definition MaxCiphertextLen :: nat where "MaxCiphertextLen = 2 ^ 16 - 1"

lemmas frame_size_defs = NonceSize_def HeaderSize_def MaxCiphertextLen_def

text \<open>
  \<open>Nonce\<close> is a Go array of \<open>NonceSize\<close> bytes, so its length is part of its type; here it is the
  predicate \<open>wf_frame\<close>.
\<close>

record frame =
  Type :: byte
  Nonce :: bytes
  Ciphertext :: bytes

definition wf_frame :: "frame \<Rightarrow> bool" where
  "wf_frame f \<longleftrightarrow> length (Nonce f) = NonceSize"

datatype frame_error =
    NilFrame
  | InvalidFrameType byte
  | CiphertextTooLarge nat
  | WriteFrameErr io_error
  | ShortWriteErr
  | ReadHeaderErr io_error
  | ReadCiphertextErr io_error

definition IsValidType :: "byte \<Rightarrow> bool" where
  "IsValidType t \<longleftrightarrow>
     t \<in> set [TypeAuthChallenge, TypeAuthResponse, TypeDataPayload, TypeConnOpen, TypeConnClose,
              TypeAuthSuccess]"

text \<open>The packet that \<^verbatim>\<open>WriteFrame\<close> builds: header, then ciphertext.\<close>

definition frame_packet :: "frame \<Rightarrow> bytes" where
  "frame_packet f =
     (let header = [Type f] @ PutUint16 (of_nat (length (Ciphertext f))) @ Nonce f
      in header @ Ciphertext f)"

definition WriteFrame :: "frame option \<Rightarrow> writer \<Rightarrow> frame_error option \<times> writer" where
  "WriteFrame fp w =
     (case fp of
        None \<Rightarrow> (Some NilFrame, w)
      | Some f \<Rightarrow>
          if \<not> IsValidType (Type f) then (Some (InvalidFrameType (Type f)), w)
          else if length (Ciphertext f) > MaxCiphertextLen
          then (Some (CiphertextTooLarge (length (Ciphertext f))), w)
          else
            (let packet = frame_packet f;
                 ((n, err), w') = io_Write packet w
             in case err of
                  Some e \<Rightarrow> (Some (WriteFrameErr e), w')
                | None \<Rightarrow>
                    if n \<noteq> length packet then (Some ShortWriteErr, w') else (None, w')))"

definition ReadFrame :: "reader \<Rightarrow> (frame_error, frame) result \<times> reader" where
  "ReadFrame r =
     (case ReadFull HeaderSize r of
        (Inl e, r1) \<Rightarrow> (Inl (ReadHeaderErr e), r1)
      | (Inr header, r1) \<Rightarrow>
          let frameType = header ! 0 in
          if \<not> IsValidType frameType then (Inl (InvalidFrameType frameType), r1)
          else
            (let len = unat (Uint16 (take 2 (drop 1 header)));
                 nonce = take NonceSize (drop 3 header)
             in if len > 0 then
                  (case ReadFull len r1 of
                     (Inl e, r2) \<Rightarrow> (Inl (ReadCiphertextErr e), r2)
                   | (Inr ct, r2) \<Rightarrow>
                       (Inr \<lparr>Type = frameType, Nonce = nonce, Ciphertext = ct\<rparr>, r2))
                else (Inr \<lparr>Type = frameType, Nonce = nonce, Ciphertext = []\<rparr>, r1)))"

subsection \<open>The wire format as a prefix code\<close>

text \<open>The specification: what one frame is on the wire, and how a byte string starts with one.\<close>

definition sendable :: "frame \<Rightarrow> bool" where
  "sendable f \<longleftrightarrow>
     wf_frame f \<and> IsValidType (Type f) \<and> length (Ciphertext f) \<le> MaxCiphertextLen"

definition parse_frame :: "bytes \<Rightarrow> (frame \<times> bytes) option" where
  "parse_frame bs =
     (if length bs < HeaderSize \<or> \<not> IsValidType (bs ! 0) then None
      else
        (let len = unat (Uint16 (take 2 (drop 1 bs)));
             body = drop HeaderSize bs
         in if length body < len then None
            else Some (\<lparr>Type = bs ! 0, Nonce = take NonceSize (drop 3 bs), Ciphertext = take len body\<rparr>,
                       drop len body)))"

lemma length_frame_packet: "wf_frame f \<Longrightarrow> length (frame_packet f) = HeaderSize + length (Ciphertext f)"
  by (simp add: frame_packet_def wf_frame_def frame_size_defs)

lemma parse_frame_packet:
  assumes "sendable f"
  shows "parse_frame (frame_packet f @ rest) = Some (f, rest)"
proof -
  obtain a b where ab: "PutUint16 (of_nat (length (Ciphertext f))) = [a, b]"
    by (simp add: PutUint16_def)
  have "Uint16 [a, b] = of_nat (length (Ciphertext f))"
    unfolding ab [symmetric] by simp
  then have "unat (Uint16 [a, b]) = length (Ciphertext f)"
    using assms by (simp add: sendable_def MaxCiphertextLen_def)
  then show ?thesis
    using assms
    by (simp add: parse_frame_def frame_packet_def sendable_def wf_frame_def frame_size_defs ab)
qed

lemma header_split:
  assumes "HeaderSize \<le> length bs"
  shows "bs = [bs ! 0] @ take 2 (drop 1 bs) @ take NonceSize (drop 3 bs) @ drop HeaderSize bs"
proof -
  have "bs = take 1 bs @ take 2 (drop 1 bs) @ take 12 (drop 3 bs) @ drop 15 bs"
    using append_take_drop_id [of 1 bs] append_take_drop_id [of 2 "drop 1 bs"]
      append_take_drop_id [of 12 "drop 3 bs"] by simp
  moreover have "take 1 bs = [bs ! 0]"
    using assms by (cases bs) (simp_all add: frame_size_defs)
  ultimately show ?thesis by (simp add: frame_size_defs)
qed

lemma parse_frame_sound:
  assumes "parse_frame bs = Some (f, rest)"
  shows "sendable f \<and> bs = frame_packet f @ rest"
proof -
  let ?len = "unat (Uint16 (take 2 (drop 1 bs)))"
  from assms have hd: "HeaderSize \<le> length bs" and t: "IsValidType (bs ! 0)"
    and body: "?len \<le> length (drop HeaderSize bs)"
    and f: "f = \<lparr>Type = bs ! 0, Nonce = take NonceSize (drop 3 bs),
               Ciphertext = take ?len (drop HeaderSize bs)\<rparr>"
    and rest: "rest = drop ?len (drop HeaderSize bs)"
    by (auto simp: parse_frame_def Let_def split: if_splits)
  have "PutUint16 (of_nat (length (Ciphertext f))) = take 2 (drop 1 bs)"
    using hd body f by (simp add: PutUint16_Uint16 frame_size_defs)
  moreover have "Ciphertext f @ rest = drop HeaderSize bs"
    using f rest by (simp only: append_take_drop_id frame.simps)
  ultimately have "frame_packet f @ rest = bs"
    using header_split [OF hd] f by (simp add: frame_packet_def)
  moreover have "sendable f"
    using hd t body f by (simp add: sendable_def wf_frame_def frame_size_defs)
  ultimately show ?thesis by simp
qed

interpretation frames: prefix_codec frame_packet parse_frame sendable
  using parse_frame_packet parse_frame_sound by unfold_locales blast+

subsection \<open>WriteFrame and ReadFrame implement it\<close>

lemma WriteFrame_success_iff:
  "WriteFrame (Some f) w = (None, w') \<longleftrightarrow>
     IsValidType (Type f) \<and> length (Ciphertext f) \<le> MaxCiphertextLen \<and>
     io_Write (frame_packet f) w = ((length (frame_packet f), None), w')"
  by (auto simp: WriteFrame_def Let_def split: prod.splits option.splits if_splits)

lemma WriteFrame_ok:
  "sendable f \<Longrightarrow> wplan w = [] \<Longrightarrow>
     WriteFrame (Some f) w = (None, w\<lparr>sent := sent w @ [frame_packet f]\<rparr>)"
  by (simp add: WriteFrame_success_iff sendable_def)

lemma WriteFrame_any:
  "WriteFrame (Some f) w = (err, w') \<Longrightarrow> sent w' = sent w \<or> (\<exists>k. sent w' = sent w @ [take k (frame_packet f)])"
  by (auto simp: WriteFrame_def Let_def io_Write_def split: prod.splits option.splits if_splits list.splits
      intro: exI [of _ "length (frame_packet f)"])

text \<open>Every call of \<open>ReadFrame\<close> is a sequence of reads, and the outcome is the parse of the stream.\<close>

lemma ReadFrame_parses:
  assumes ok: "reader_ok r" and parse: "parse_frame (reader_stream r) = Some (f, rest)"
  obtains r' where "ReadFrame r = (Inr f, r')" "reads io_Read r (frame_packet f) r'" "reader_ok r'"
    "reader_stream r' = rest" "reader_fin r' = reader_fin r"
proof -
  let ?bs = "reader_stream r"
  let ?len = "unat (Uint16 (take 2 (drop 1 ?bs)))"
  from parse have hd: "HeaderSize \<le> length ?bs" and t: "IsValidType (?bs ! 0)"
    and body: "?len \<le> length (drop HeaderSize ?bs)"
    and f: "f = \<lparr>Type = ?bs ! 0, Nonce = take NonceSize (drop 3 ?bs),
               Ciphertext = take ?len (drop HeaderSize ?bs)\<rparr>"
    and rest: "rest = drop ?len (drop HeaderSize ?bs)"
    by (auto simp: parse_frame_def Let_def split: if_splits)
  from ReadFull_enough [OF ok hd] obtain r1 where r1: "ReadFull HeaderSize r = (Inr (take HeaderSize ?bs), r1)"
    "reads io_Read r (take HeaderSize ?bs) r1" "reader_ok r1" "reader_stream r1 = drop HeaderSize ?bs"
    "reader_fin r1 = reader_fin r" by blast
  obtain r2 where
    r2: "ReadFull ?len r1 = (Inr (take ?len (drop HeaderSize ?bs)), r2)"
    "reads io_Read r1 (take ?len (drop HeaderSize ?bs)) r2" "reader_ok r2"
    "reader_stream r2 = rest" "reader_fin r2 = reader_fin r"
    using ReadFull_enough [OF r1(3) body [folded r1(4)]] r1(4,5) rest by (metis (no_types))
  have "frame_packet f @ rest = (take HeaderSize ?bs @ take ?len (drop HeaderSize ?bs)) @ rest"
    using parse_frame_sound [OF parse] unfolding rest append_assoc append_take_drop_id by simp
  then have packet: "frame_packet f = take HeaderSize ?bs @ take ?len (drop HeaderSize ?bs)"
    by (rule append_same_eq [THEN iffD1])
  have header: "take HeaderSize ?bs ! 0 = ?bs ! 0"
    "take 2 (drop (Suc 0) (take HeaderSize ?bs)) = take 2 (drop (Suc 0) ?bs)"
    "take NonceSize (drop 3 (take HeaderSize ?bs)) = take NonceSize (drop 3 ?bs)"
    by (simp_all add: frame_size_defs drop_take)
  show ?thesis
  proof (cases "?len = 0")
    case True
    have "ReadFrame r = (Inr f, r1)"
      using r1(1) t True f by (simp add: ReadFrame_def Let_def header)
    moreover have "frame_packet f = take HeaderSize ?bs" "rest = drop HeaderSize ?bs"
      using packet rest True by simp_all
    ultimately show ?thesis using r1 by (intro that [of r1]) simp_all
  next
    case False
    have "ReadFrame r = (Inr f, r2)"
      using r1(1) r2(1) t False f by (simp add: ReadFrame_def Let_def header)
    moreover have "reads io_Read r (frame_packet f) r2"
      unfolding packet using r1(2) r2(2) by (rule reads_trans [rotated])
    ultimately show ?thesis using r2 by (intro that [of r2]) simp_all
  qed
qed

text \<open>When the stream does not start with a frame, the error says why.\<close>

definition parse_error :: "bytes \<Rightarrow> io_error \<Rightarrow> frame_error" where
  "parse_error bs fin =
     (if length bs < HeaderSize then ReadHeaderErr (short_error bs fin)
      else if \<not> IsValidType (bs ! 0) then InvalidFrameType (bs ! 0)
      else ReadCiphertextErr (short_error (drop HeaderSize bs) fin))"

lemma ReadFrame_fails:
  assumes ok: "reader_ok r" and parse: "parse_frame (reader_stream r) = None"
  obtains r' bs where "ReadFrame r = (Inl (parse_error (reader_stream r) (reader_fin r)), r')"
    "reads io_Read r bs r'" "reader_ok r'" "reader_fin r' = reader_fin r"
proof (cases "length (reader_stream r) < HeaderSize")
  case True
  from ReadFull_short [OF ok True] obtain r1 where
    r1: "ReadFull HeaderSize r = (Inl (short_error (reader_stream r) (reader_fin r)), r1)"
    "reads io_Read r (reader_stream r) r1" "reader_ok r1" "reader_fin r1 = reader_fin r"
    by blast
  have "ReadFrame r = (Inl (parse_error (reader_stream r) (reader_fin r)), r1)"
    using r1(1) True by (simp add: ReadFrame_def parse_error_def)
  with r1 show ?thesis by (intro that)
next
  case False
  let ?bs = "reader_stream r"
  let ?len = "unat (Uint16 (take 2 (drop 1 ?bs)))"
  from ReadFull_enough [OF ok] False obtain r1 where r1: "ReadFull HeaderSize r = (Inr (take HeaderSize ?bs), r1)"
    "reads io_Read r (take HeaderSize ?bs) r1" "reader_ok r1" "reader_stream r1 = drop HeaderSize ?bs"
    "reader_fin r1 = reader_fin r" by (metis not_less)
  have header: "take HeaderSize ?bs ! 0 = ?bs ! 0"
    "take 2 (drop (Suc 0) (take HeaderSize ?bs)) = take 2 (drop (Suc 0) ?bs)"
    by (simp_all add: frame_size_defs drop_take)
  show ?thesis
  proof (cases "IsValidType (?bs ! 0)")
    case valid: True
    have short: "length (reader_stream r1) < ?len"
      using parse False valid r1(4) by (auto simp: parse_frame_def Let_def split: if_splits)
    from ReadFull_short [OF r1(3) short] obtain r2 where
      r2: "ReadFull ?len r1 = (Inl (short_error (reader_stream r1) (reader_fin r1)), r2)"
      "reads io_Read r1 (reader_stream r1) r2" "reader_ok r2" "reader_fin r2 = reader_fin r1"
      by blast
    have "ReadFrame r = (Inl (parse_error ?bs (reader_fin r)), r2)"
      using r1 r2(1) valid False short
      by (simp add: ReadFrame_def Let_def header parse_error_def)
    with reads_trans [OF r2(2) r1(2)] r2(3,4) r1(5) show ?thesis by (intro that [of r2]) simp_all
  next
    case invalid: False
    have "ReadFrame r = (Inl (parse_error ?bs (reader_fin r)), r1)"
      using r1(1) invalid False by (simp add: ReadFrame_def Let_def header parse_error_def)
    with r1 show ?thesis by (intro that [of r1]) simp_all
  qed
qed

lemma ReadFrame_end:
  assumes "reader_ok r" "reader_stream r = []"
  shows "\<exists>r'. ReadFrame r = (Inl (ReadHeaderErr (reader_fin r)), r')"
proof -
  have "parse_frame (reader_stream r) = None" by (simp add: assms(2) parse_frame_def frame_size_defs)
  then obtain r' where "ReadFrame r = (Inl (parse_error (reader_stream r) (reader_fin r)), r')"
    by (rule ReadFrame_fails [OF assms(1)])
  then show ?thesis by (simp add: assms(2) parse_error_def short_error_def frame_size_defs)
qed

lemma ReadFrame_reads:
  assumes "reader_ok r" "ReadFrame r = (res, r')"
  shows "\<exists>bs. reads io_Read r bs r' \<and> reader_ok r' \<and> reader_stream r = bs @ reader_stream r' \<and>
    reader_fin r' = reader_fin r"
proof (cases "parse_frame (reader_stream r)")
  case None
  from ReadFrame_fails [OF assms(1) None] assms(2) obtain bs where "reads io_Read r bs r'"
    by (metis prod.inject)
  with rdr.reads_stream [OF this assms(1)] show ?thesis by blast
next
  case (Some p)
  obtain f rest where "p = (f, rest)" by (cases p)
  with ReadFrame_parses [OF assms(1)] Some assms(2) obtain bs where "reads io_Read r bs r'"
    by (metis prod.inject)
  with rdr.reads_stream [OF this assms(1)] show ?thesis by blast
qed

lemma ReadFrame_Inr:
  assumes "reader_ok r" "ReadFrame r = (Inr f, r')"
  shows "sendable f \<and> reader_stream r = frame_packet f @ reader_stream r' \<and> reader_ok r' \<and>
    reader_fin r' = reader_fin r"
proof (cases "parse_frame (reader_stream r)")
  case None
  from ReadFrame_fails [OF assms(1) None] assms(2) show ?thesis by (metis Inl_Inr_False prod.inject)
next
  case (Some p)
  obtain g rest where p: "p = (g, rest)" by (cases p)
  from ReadFrame_parses [OF assms(1) Some [unfolded p]] assms(2)
  have "f = g" "reader_stream r' = rest" "reader_ok r'" "reader_fin r' = reader_fin r"
    by (metis prod.inject sum.inject(2))+
  with parse_frame_sound [OF Some [unfolded p]] show ?thesis by simp
qed

lemma ReadFrame_rank: "ReadFrame r = (Inr f, r') \<Longrightarrow> reader_rank r' < reader_rank r"
  by (auto simp: ReadFrame_def Let_def frame_size_defs split: prod.splits sum.splits if_splits
      dest!: ReadFull_rank)

section \<open>payload.go\<close>

definition MaxPayloadLen :: nat where "MaxPayloadLen = 2 ^ 16 - 1"

datatype payload_error =
    PayloadTooLarge nat
  | EnvelopeTooShort nat
  | LengthMismatch nat nat

definition EncodePayload :: "bytes \<Rightarrow> (payload_error, bytes) result" where
  "EncodePayload payload =
     (if length payload > MaxPayloadLen then Inl (PayloadTooLarge (length payload))
      else Inr (PutUint16 (of_nat (length payload)) @ payload))"

definition DecodePayload :: "bytes \<Rightarrow> (payload_error, bytes) result" where
  "DecodePayload envelope =
     (if length envelope < 2 then Inl (EnvelopeTooShort (length envelope))
      else
        (let len = unat (Uint16 (take 2 envelope));
             rest = drop 2 envelope
         in if len \<noteq> length rest then Inl (LengthMismatch len (length rest))
            else Inr (take len rest)))"

lemma EncodePayload_Inr:
  "EncodePayload p = Inr env \<longleftrightarrow>
     length p \<le> MaxPayloadLen \<and> env = PutUint16 (of_nat (length p)) @ p"
  by (auto simp: EncodePayload_def)

lemma DecodePayload_Inr:
  "DecodePayload env = Inr p \<longleftrightarrow>
     length p \<le> MaxPayloadLen \<and> env = PutUint16 (of_nat (length p)) @ p"
proof
  assume l: "DecodePayload env = Inr p"
  then have len: "2 \<le> length env" and eq: "unat (Uint16 (take 2 env)) = length (drop 2 env)"
    and p: "p = drop 2 env"
    by (auto simp: DecodePayload_def Let_def split: if_splits)
  have "of_nat (length p) = Uint16 (take 2 env)"
    unfolding p eq [symmetric] by simp
  then have "PutUint16 (of_nat (length p)) = take 2 env"
    using len by (simp add: PutUint16_Uint16)
  moreover have "length p \<le> 65535"
    using eq p by (metis unat_uint16_le)
  ultimately show "length p \<le> MaxPayloadLen \<and> env = PutUint16 (of_nat (length p)) @ p"
    using p by (simp add: MaxPayloadLen_def)
next
  assume "length p \<le> MaxPayloadLen \<and> env = PutUint16 (of_nat (length p)) @ p"
  then show "DecodePayload env = Inr p"
    by (simp add: DecodePayload_def MaxPayloadLen_def Let_def)
qed

lemma DecodePayload_EncodePayload: "EncodePayload p = Inr env \<longleftrightarrow> DecodePayload env = Inr p"
  by (simp add: EncodePayload_Inr DecodePayload_Inr)

section \<open>nonce.go\<close>

record NonceCounter =
  salt :: bytes
  counter :: uint64

datatype nonce_error = NonceSaltErr io_error

definition wf_nonces :: "NonceCounter \<Rightarrow> bool" where
  "wf_nonces nc \<longleftrightarrow> length (salt nc) = 4"

definition NewNonceCounter :: "rng \<Rightarrow> (nonce_error, NonceCounter) result \<times> rng" where
  "NewNonceCounter g =
     (case rand_Read 4 g of
        (Inl e, g') \<Rightarrow> (Inl (NonceSaltErr e), g')
      | (Inr s, g') \<Rightarrow> (Inr \<lparr>salt = s, counter = 0\<rparr>, g'))"

definition Next :: "NonceCounter \<Rightarrow> bytes \<times> NonceCounter" where
  "Next nc =
     (let counter' = counter nc + 1;
          count = counter' - 1
      in (salt nc @ PutUint64 count, nc\<lparr>counter := counter'\<rparr>))"

text \<open>The nonces of \<open>k\<close> successive calls, and the generator after them.\<close>

fun Next_times :: "nat \<Rightarrow> NonceCounter \<Rightarrow> bytes list \<times> NonceCounter" where
  "Next_times 0 nc = ([], nc)"
| "Next_times (Suc k) nc =
     (let (n, nc1) = Next nc; (ns, nc2) = Next_times k nc1 in (n # ns, nc2))"

lemma Next_eq: "Next nc = (salt nc @ PutUint64 (counter nc), nc\<lparr>counter := counter nc + 1\<rparr>)"
  by (simp add: Next_def)

lemma Next_length [simp]: "wf_nonces nc \<Longrightarrow> length (fst (Next nc)) = NonceSize"
  by (simp add: Next_eq wf_nonces_def NonceSize_def)

lemma Next_times_eq:
  "Next_times k nc =
     (map (\<lambda>i. salt nc @ PutUint64 (counter nc + of_nat i)) [0..<k],
      nc\<lparr>counter := counter nc + of_nat k\<rparr>)"
proof (induction k arbitrary: nc)
  case 0
  then show ?case by simp
next
  case (Suc k)
  have "[0..<Suc k] = 0 # map Suc [0..<k]"
    by (simp add: map_Suc_upt upt_conv_Cons del: upt_Suc)
  then show ?case
    by (simp add: Next_eq Suc.IH o_def algebra_simps del: upt_Suc)
qed

lemma NewNonceCounter_Inr:
  "NewNonceCounter g = (Inr nc, g') \<Longrightarrow> wf_nonces nc \<and> counter nc = 0 \<and> rng_fail g' = rng_fail g"
  by (auto simp: NewNonceCounter_def wf_nonces_def dest: rand_Read_length rand_Read_fail
      split: prod.splits sum.splits)

section \<open>Properties\<close>

lemma io_Write_complete:
  assumes "io_Write p w = ((length p, None), w')"
  shows "sent w' = sent w @ [p]"
  using assms by (auto simp: io_Write_def min_def split: list.splits if_splits)

text \<open>
  C21.  What \<open>WriteFrame\<close> writes successfully, it writes in one \<^verbatim>\<open>Write\<close> call, and \<open>ReadFrame\<close>
  gives the same frame back from any reader that delivers those bytes, however they are split up
  and whatever follows them.
\<close>

theorem ReadFrame_WriteFrame:
  assumes "WriteFrame (Some f) w = (None, w')" "wf_frame f"
    and "reader_ok r" "reader_stream r = concat (drop (length (sent w)) (sent w')) @ rest"
  shows "length (sent w') = Suc (length (sent w)) \<and>
    (\<exists>r'. ReadFrame r = (Inr f, r') \<and> reader_stream r' = rest)"
proof -
  have ok: "sendable f" and w': "sent w' = sent w @ [frame_packet f]"
    using assms(1,2) by (auto simp: WriteFrame_success_iff sendable_def dest: io_Write_complete)
  then have "parse_frame (reader_stream r) = Some (f, rest)"
    using assms(4) by (simp add: parse_frame_packet)
  then show ?thesis
    using ReadFrame_parses [OF assms(3)] w' by (metis length_append_singleton)
qed

definition sample_frame :: frame where
  "sample_frame = \<lparr>Type = 3, Nonce = [7, 7, 7, 7, 7, 7, 7, 7, 7, 7, 7, 7], Ciphertext = [10, 20]\<rparr>"

definition sample_writer :: writer where
  "sample_writer = \<lparr>sent = [], wplan = []\<rparr>"

theorem ReadFrame_WriteFrame_witness:
  "\<exists>r'. ReadFrame (NetConn [Data [3, 0], Data [2, 7, 7, 7, 7, 7, 7, 7], Data [7, 7, 7, 7, 7, 10, 20, 99]] False EOF)
       = (Inr sample_frame, r') \<and> reader_stream r' = [99]"
proof -
  have w: "WriteFrame (Some sample_frame) sample_writer =
      (None, \<lparr>sent = [[3, 0, 2, 7, 7, 7, 7, 7, 7, 7, 7, 7, 7, 7, 7, 10, 20]], wplan = []\<rparr>)"
    by (simp add: WriteFrame_success_iff sample_frame_def sample_writer_def IsValidType_def
        frame_type_defs frame_size_defs frame_packet_def PutUint16_def)
  show ?thesis
    using ReadFrame_WriteFrame [OF w, of "NetConn [Data [3, 0], Data [2, 7, 7, 7, 7, 7, 7, 7],
      Data [7, 7, 7, 7, 7, 10, 20, 99]] False EOF" "[99]"]
    by (simp add: sample_frame_def sample_writer_def wf_frame_def NonceSize_def)
qed

text \<open>
  C22.  \<open>ReadFrame\<close> decides every input: it returns the frame that the stream starts with and leaves
  exactly the rest, or, when the stream does not start with a frame, the error for the reason
  (truncated header, unknown type, truncated ciphertext; a connection that ends inside a header or
  a body is an unexpected EOF).
\<close>

theorem ReadFrame_decides:
  assumes "reader_ok r"
  shows "case parse_frame (reader_stream r) of
      Some (f, rest) \<Rightarrow> \<exists>r'. ReadFrame r = (Inr f, r') \<and> reader_stream r' = rest \<and> sendable f \<and>
        reader_stream r = frame_packet f @ rest
    | None \<Rightarrow> \<exists>r'. ReadFrame r = (Inl (parse_error (reader_stream r) (reader_fin r)), r')"
proof (cases "parse_frame (reader_stream r)")
  case None
  obtain r' where "ReadFrame r = (Inl (parse_error (reader_stream r) (reader_fin r)), r')"
    by (rule ReadFrame_fails [OF assms None])
  with None show ?thesis by simp
next
  case (Some p)
  obtain f rest where p: "p = (f, rest)" by (cases p)
  obtain r' where "ReadFrame r = (Inr f, r')" "reader_stream r' = rest"
    by (rule ReadFrame_parses [OF assms Some [unfolded p]])
  with parse_frame_sound [OF Some [unfolded p]] Some p show ?thesis by simp
qed

theorem ReadFrame_decides_witness:
  "\<exists>r'. ReadFrame (NetConn [Data [3, 0], Quiet, Data [2]] True EOF) = (Inl (ReadHeaderErr Timeout), r')"
  using ReadFrame_decides [of "NetConn [Data [3, 0], Quiet, Data [2]] True EOF"]
  by (simp add: parse_frame_def parse_error_def short_error_def net_fin_def frame_size_defs)

lemma frame_packet_nonempty [simp]: "frame_packet f \<noteq> []"
  by (simp add: frame_packet_def)

text \<open>
  The framing is unambiguous: two sequences of frames that look the same on the wire are the
  same sequence.
\<close>

theorem frame_sequences_unambiguous:
  assumes "\<forall>f \<in> set fs. sendable f" "\<forall>g \<in> set gs. sendable g"
    and "concat (map frame_packet fs) = concat (map frame_packet gs)"
  shows "fs = gs"
proof -
  have le: "xs = ys" if v: "\<forall>f \<in> set xs. sendable f" "\<forall>g \<in> set ys. sendable g" "length xs \<le> length ys"
    and eq: "concat (map frame_packet xs) = concat (map frame_packet ys)" for xs ys
  proof -
    obtain zs where zs: "ys = xs @ zs" "[] = concat (map frame_packet zs)"
      using frames.concat_enc_inject [OF v, of "[]"] eq by auto
    then have "zs = []" by (cases zs) auto
    with zs show ?thesis by simp
  qed
  show ?thesis
    using le [of fs gs] le [of gs fs] assms by (cases "length fs \<le> length gs") simp_all
qed

theorem frame_sequences_unambiguous_witness:
  "[sample_frame, sample_frame] = [sample_frame, sample_frame]"
proof -
  have "sendable sample_frame"
    by (simp add: sendable_def wf_frame_def sample_frame_def IsValidType_def frame_type_defs frame_size_defs)
  then show ?thesis
    using frame_sequences_unambiguous [of "[sample_frame, sample_frame]" "[sample_frame, sample_frame]"]
    by simp
qed

text \<open>
  \<open>DecodePayload\<close> is the exact inverse of \<open>EncodePayload\<close>: it accepts an envelope precisely
  when \<open>EncodePayload\<close> produces it, for the payload it returns; and \<open>EncodePayload\<close> fails
  precisely beyond 65535 bytes.
\<close>

lemma payload_roundtrip:
  "(EncodePayload p = Inr env \<longleftrightarrow> DecodePayload env = Inr p) \<and>
   ((\<exists>e. EncodePayload p = Inl e) \<longleftrightarrow> 65535 < length p)"
  by (auto simp: EncodePayload_Inr DecodePayload_Inr EncodePayload_def MaxPayloadLen_def)

text \<open>
  The nonces of any run of a \<open>NonceCounter\<close> are pairwise different exactly as long as the run
  has at most \<open>2^64\<close> calls.
\<close>

lemma Next_distinct: "distinct (fst (Next_times k nc)) \<longleftrightarrow> k \<le> 2 ^ 64"
proof -
  have eq: "fst (Next_times k nc) = map (\<lambda>i. salt nc @ PutUint64 (counter nc + of_nat i)) [0..<k]"
    by (simp add: Next_times_eq)
  have inj: "inj_on (\<lambda>i. salt nc @ PutUint64 (counter nc + of_nat i)) {0..<k} \<longleftrightarrow>
      inj_on (\<lambda>i. of_nat i :: uint64) {0..<k}"
    by (auto simp: inj_on_def)
  have "inj_on (\<lambda>i. of_nat i :: uint64) {0..<k} \<longleftrightarrow> k \<le> 2 ^ 64"
  proof
    assume i: "inj_on (\<lambda>i. of_nat i :: uint64) {0..<k}"
    show "k \<le> 2 ^ 64"
    proof (rule ccontr)
      assume "\<not> k \<le> 2 ^ 64"
      then have "0 \<in> {0..<k}" "2 ^ 64 \<in> {0..<k}" by auto
      moreover have "of_nat (2 ^ 64) = (of_nat 0 :: uint64)"
        by simp
      ultimately show False using inj_onD [OF i] by fastforce
    qed
  next
    assume "k \<le> 2 ^ 64"
    then show "inj_on (\<lambda>i. of_nat i :: uint64) {0..<k}"
      using inj_on_uint64 [of "{0..<k}" 0] by (fastforce simp: subset_eq)
  qed
  then show ?thesis
    unfolding eq using inj by (simp add: distinct_map)
qed

end
