(* ===== verification/Padding.thy ===== *)
theory Padding
  imports Frame
begin

text \<open>
  Package \<^verbatim>\<open>padding\<close> (\<^verbatim>\<open>src/pkg/padding/padding.go\<close>): the choice of a block size, padding an
  envelope up to it with random filler, and recovering the envelope.  Sizes are Go \<^verbatim>\<open>int\<close>s and
  stay far below their width, so they are unbounded integers here.  The envelope of
  \<^verbatim>\<open>EncodePayload\<close> is a second \<open>prefix_codec\<close>: the filler after it is the rest that the decoder
  leaves alone, which is why padding is transparent.
\<close>

section \<open>padding.go\<close>

definition BlockSizes :: "int list" where
  "BlockSizes = [512, 1024, 1460]"

datatype padding_error =
    ErrEnvelopeTooLarge int int int
  | ErrEnvelopeTooShort
  | ErrLengthPrefixInvalid nat nat
  | FillerErr io_error

fun first_fit :: "int list \<Rightarrow> int \<Rightarrow> int \<Rightarrow> int option" where
  "first_fit [] dataLen aeadOverhead = None"
| "first_fit (b # bs) dataLen aeadOverhead =
     (if b - aeadOverhead \<ge> dataLen then Some b else first_fit bs dataLen aeadOverhead)"

definition SelectBlockSize :: "int \<Rightarrow> int \<Rightarrow> (padding_error, int) result" where
  "SelectBlockSize dataLen aeadOverhead =
     (case first_fit BlockSizes dataLen aeadOverhead of
        Some b \<Rightarrow> Inr b
      | None \<Rightarrow> Inl (ErrEnvelopeTooLarge dataLen (last BlockSizes - aeadOverhead) aeadOverhead))"

definition Pad :: "bytes \<Rightarrow> int \<Rightarrow> rng \<Rightarrow> (padding_error, bytes) result \<times> rng" where
  "Pad envelope aeadOverhead g =
     (case SelectBlockSize (int (length envelope)) aeadOverhead of
        Inl e \<Rightarrow> (Inl e, g)
      | Inr blockSize \<Rightarrow>
          (let targetLen = blockSize - aeadOverhead;
               fillerLen = targetLen - int (length envelope)
           in if fillerLen > 0 then
                (case rand_Read (nat fillerLen) g of
                   (Inl e, g') \<Rightarrow> (Inl (FillerErr e), g')
                 | (Inr filler, g') \<Rightarrow> (Inr (envelope @ filler), g'))
              else (Inr envelope, g)))"

definition Unpad :: "bytes \<Rightarrow> (padding_error, bytes) result" where
  "Unpad padded =
     (if length padded < 2 then Inl ErrEnvelopeTooShort
      else
        (let originalDataLen = unat (Uint16 (take 2 padded));
             realEnvelopeLen = 2 + originalDataLen
         in if realEnvelopeLen > length padded
            then Inl (ErrLengthPrefixInvalid realEnvelopeLen (length padded))
            else Inr (take realEnvelopeLen padded)))"

section \<open>Block selection\<close>

lemma SelectBlockSize_cases:
  "SelectBlockSize d ov =
     (if d + ov \<le> 512 then Inr 512 else if d + ov \<le> 1024 then Inr 1024
      else if d + ov \<le> 1460 then Inr 1460 else Inl (ErrEnvelopeTooLarge d (1460 - ov) ov))"
  by (simp add: SelectBlockSize_def BlockSizes_def)

lemma Pad_Inr:
  assumes "Pad env ov g = (Inr padded, g')"
  obtains b filler where "SelectBlockSize (int (length env)) ov = Inr b" "padded = env @ filler"
    "int (length padded) + ov = b" "rng_fail g' = rng_fail g"
proof -
  from assms obtain b where b: "SelectBlockSize (int (length env)) ov = Inr b"
    by (auto simp: Pad_def split: sum.splits)
  then have "int (length env) + ov \<le> b"
    by (auto simp: SelectBlockSize_cases split: if_splits)
  then show ?thesis
    using assms b
    by (intro that [of b "drop (length env) padded"])
      (auto simp: Pad_def Let_def split: if_splits prod.splits sum.splits
        dest: rand_Read_length rand_Read_fail)
qed

lemma Pad_works:
  assumes "rng_fail g = None" "int (length env) + ov \<le> 1460"
  shows "\<exists>padded g'. Pad env ov g = (Inr padded, g') \<and> rng_fail g' = None"
proof -
  obtain b where b: "SelectBlockSize (int (length env)) ov = Inr b"
    using assms(2) by (cases "SelectBlockSize (int (length env)) ov") (auto simp: SelectBlockSize_cases split: if_splits)
  show ?thesis
    using b assms(1) rand_Read_works [OF assms(1), of "nat (b - ov - int (length env))"]
    by (auto simp: Pad_def Let_def)
qed

section \<open>Unpadding\<close>

lemma Unpad_Inr:
  "Unpad padded = Inr env \<longleftrightarrow>
     (\<exists>p filler. length p \<le> MaxPayloadLen \<and> env = PutUint16 (of_nat (length p)) @ p \<and>
        padded = env @ filler)"
proof
  assume u: "Unpad padded = Inr env"
  let ?n = "unat (Uint16 (take 2 padded))"
  from u have len: "2 + ?n \<le> length padded" and env: "env = take (2 + ?n) padded"
    by (auto simp: Unpad_def Let_def split: if_splits)
  have "env = take 2 padded @ take ?n (drop 2 padded)"
    by (simp only: env take_add)
  moreover have "PutUint16 (of_nat ?n) = take 2 padded"
    using len by (simp add: PutUint16_Uint16)
  moreover have "padded = env @ drop (2 + ?n) padded"
    by (simp only: env append_take_drop_id)
  moreover have "length (take ?n (drop 2 padded)) = ?n"
    using len by simp
  moreover have "?n \<le> MaxPayloadLen"
    by (simp add: MaxPayloadLen_def)
  ultimately show "\<exists>p filler. length p \<le> MaxPayloadLen \<and>
      env = PutUint16 (of_nat (length p)) @ p \<and> padded = env @ filler"
    by (intro exI [of _ "take ?n (drop 2 padded)"] exI [of _ "drop (2 + ?n) padded"]) simp
next
  assume "\<exists>p filler. length p \<le> MaxPayloadLen \<and> env = PutUint16 (of_nat (length p)) @ p \<and>
    padded = env @ filler"
  then show "Unpad padded = Inr env"
    by (auto simp: Unpad_def MaxPayloadLen_def Let_def)
qed

text \<open>Whatever \<open>Unpad\<close> returns, \<open>DecodePayload\<close> accepts.\<close>

lemma Unpad_DecodePayload:
  "Unpad padded = Inr env \<longleftrightarrow> (\<exists>p filler. DecodePayload env = Inr p \<and> padded = env @ filler)"
  by (auto simp: Unpad_Inr DecodePayload_Inr)

definition envelope :: "bytes \<Rightarrow> bytes" where
  "envelope p = PutUint16 (of_nat (length p)) @ p"

definition open_envelope :: "bytes \<Rightarrow> (bytes \<times> bytes) option" where
  "open_envelope bs =
     (case Unpad bs of
        Inl e \<Rightarrow> None
      | Inr env \<Rightarrow> (case DecodePayload env of Inl e \<Rightarrow> None | Inr p \<Rightarrow> Some (p, drop (length env) bs)))"

lemma EncodePayload_envelope: "length p \<le> MaxPayloadLen \<Longrightarrow> EncodePayload p = Inr (envelope p)"
  by (simp add: EncodePayload_Inr envelope_def)

lemma length_envelope [simp]: "length (envelope p) = 2 + length p"
  by (simp add: envelope_def)

lemma Unpad_envelope: "length p \<le> MaxPayloadLen \<Longrightarrow> Unpad (envelope p @ filler) = Inr (envelope p)"
  by (auto simp: Unpad_Inr envelope_def)

lemma DecodePayload_envelope: "length p \<le> MaxPayloadLen \<Longrightarrow> DecodePayload (envelope p) = Inr p"
  by (simp add: DecodePayload_Inr envelope_def)

interpretation envelopes: prefix_codec envelope open_envelope "\<lambda>p. length p \<le> MaxPayloadLen"
proof
  fix x rest :: bytes
  assume "length x \<le> MaxPayloadLen"
  then show "open_envelope (envelope x @ rest) = Some (x, rest)"
    by (simp add: open_envelope_def Unpad_envelope DecodePayload_envelope)
next
  fix bs x rest :: bytes
  assume "open_envelope bs = Some (x, rest)"
  then show "length x \<le> MaxPayloadLen \<and> bs = envelope x @ rest"
    by (auto simp: open_envelope_def DecodePayload_Inr Unpad_Inr envelope_def split: sum.splits)
qed

section \<open>Properties\<close>

text \<open>
  \<open>SelectBlockSize\<close> returns the smallest configured block that holds the data and the AEAD
  overhead, and fails precisely when no block does.
\<close>

lemma SelectBlockSize_least:
  "SelectBlockSize d ov =
     (let fitting = filter (\<lambda>b. d + ov \<le> b) BlockSizes
      in if fitting = [] then Inl (ErrEnvelopeTooLarge d (1460 - ov) ov) else Inr (Min (set fitting)))"
  by (simp add: SelectBlockSize_cases BlockSizes_def)

text \<open>
  C24.  Padding is transparent and hides the length: a padded envelope unpads to the envelope that
  \<open>EncodePayload\<close> made and decodes to the payload, and with the AEAD overhead it is exactly as long
  as one of the configured blocks.
\<close>

theorem Pad_Unpad_roundtrip:
  assumes "EncodePayload p = Inr env" "Pad env ov g = (Inr padded, g')"
  shows "Unpad padded = Inr env \<and> DecodePayload env = Inr p \<and>
    int (length padded) + ov \<in> set BlockSizes"
proof -
  obtain b filler where b: "SelectBlockSize (int (length env)) ov = Inr b" and
    p: "padded = env @ filler" and len: "int (length padded) + ov = b"
    by (rule Pad_Inr [OF assms(2)])
  have "b \<in> set BlockSizes"
    using b by (auto simp: SelectBlockSize_cases BlockSizes_def split: if_splits)
  with assms(1) p len show ?thesis
    by (auto simp: EncodePayload_Inr DecodePayload_Inr Unpad_Inr)
qed

definition sample_rng :: rng where
  "sample_rng = \<lparr>rng_byte = (\<lambda>i. of_nat (i * 7 + 1)), rng_pos = 0, rng_fail = None\<rparr>"

theorem Pad_Unpad_roundtrip_witness:
  "\<exists>padded g'. Pad [0, 3, 1, 2, 3] 16 sample_rng = (Inr padded, g') \<and> Unpad padded = Inr [0, 3, 1, 2, 3] \<and>
     length padded = 496"
proof -
  have e: "EncodePayload [1, 2, 3] = Inr [0, 3, 1, 2, 3]"
    by (simp add: EncodePayload_Inr MaxPayloadLen_def PutUint16_def)
  obtain padded g' where pad: "Pad [0, 3, 1, 2, 3] 16 sample_rng = (Inr padded, g')"
    using Pad_works [of sample_rng "[0, 3, 1, 2, 3]" 16] by (auto simp: sample_rng_def)
  moreover have "int (length padded) + 16 = 512"
    using pad by (auto elim!: Pad_Inr simp: SelectBlockSize_cases)
  ultimately show ?thesis
    using Pad_Unpad_roundtrip [OF e pad] by auto
qed

text \<open>
  \<open>Unpad\<close> is safe on arbitrary bytes: it never returns more than it was given, what it returns
  is a prefix of the input that \<open>DecodePayload\<close> accepts, and it fails precisely when the input is
  shorter than the prefix or the prefix claims more than the input holds.
\<close>

theorem Unpad_safe:
  "(case Unpad padded of
      Inr env \<Rightarrow> (\<exists>filler p. padded = env @ filler \<and> DecodePayload env = Inr p)
    | Inl e \<Rightarrow> e = ErrEnvelopeTooShort \<and> length padded < 2 \<or>
        e = ErrLengthPrefixInvalid (2 + unat (Uint16 (take 2 padded))) (length padded) \<and>
        length padded < 2 + unat (Uint16 (take 2 padded)))"
proof (cases "Unpad padded")
  case (Inl e)
  then show ?thesis by (auto simp: Unpad_def Let_def split: if_splits)
next
  case (Inr env)
  then have "\<exists>p filler. DecodePayload env = Inr p \<and> padded = env @ filler"
    by (rule Unpad_DecodePayload [THEN iffD1])
  with Inr show ?thesis by auto
qed

end
