(* ===== verification/Crypto.thy ===== *)
theory Crypto
  imports Frame
begin

text \<open>
  Package \<^verbatim>\<open>crypto\<close> (\<^verbatim>\<open>src/pkg/crypto\<close>): \<^verbatim>\<open>hkdf.go\<close>, \<^verbatim>\<open>Aead.go\<close> and
  \<^verbatim>\<open>Hmac.go\<close>.

  HMAC-SHA256 comes from the Go standard library and is written out here.  HKDF and
  ChaCha20-Poly1305 come from \<^verbatim>\<open>golang.org/x/crypto\<close>, which is not part of the repository: they
  are the fields of the record \<open>crypto_lib\<close> that the operations take as an argument, and what the
  program relies on is the predicate \<open>crypto_lib_ok\<close>: HKDF delivers as many bytes as are asked for
  (up to 255 blocks of the hash), the cipher accepts every 32-byte key, adds a 16-byte tag, and
  opens exactly what it sealed under the same nonce and additional data.
\<close>

section \<open>HMAC-SHA256 of the standard library\<close>

definition sha256_K :: "32 word list" where
  "sha256_K = [
     1116352408, 1899447441, 3049323471, 3921009573, 961987163, 1508970993, 2453635748, 2870763221,
     3624381080, 310598401, 607225278, 1426881987, 1925078388, 2162078206, 2614888103, 3248222580,
     3835390401, 4022224774, 264347078, 604807628, 770255983, 1249150122, 1555081692, 1996064986,
     2554220882, 2821834349, 2952996808, 3210313671, 3336571891, 3584528711, 113926993, 338241895,
     666307205, 773529912, 1294757372, 1396182291, 1695183700, 1986661051, 2177026350, 2456956037,
     2730485921, 2820302411, 3259730800, 3345764771, 3516065817, 3600352804, 4094571909, 275423344,
     430227734, 506948616, 659060556, 883997877, 958139571, 1322822218, 1537002063, 1747873779,
     1955562222, 2024104815, 2227730452, 2361852424, 2428436474, 2756734187, 3204031479, 3329325298]"

type_synonym sha_state = "32 word \<times> 32 word \<times> 32 word \<times> 32 word \<times> 32 word \<times> 32 word \<times> 32 word \<times> 32 word"

definition sha256_H :: sha_state where
  "sha256_H = (0x6a09e667, 0xbb67ae85, 0x3c6ef372, 0xa54ff53a, 0x510e527f, 0x9b05688c, 0x1f83d9ab, 0x5be0cd19)"

definition PutUint32 :: "32 word \<Rightarrow> bytes" where
  "PutUint32 v = [ucast (drop_bit 24 v), ucast (drop_bit 16 v), ucast (drop_bit 8 v), ucast v]"

definition Uint32 :: "bytes \<Rightarrow> 32 word" where
  "Uint32 b = ucast (b ! 3) OR push_bit 8 (ucast (b ! 2)) OR push_bit 16 (ucast (b ! 1)) OR push_bit 24 (ucast (b ! 0))"

definition sha256_pad :: "bytes \<Rightarrow> bytes" where
  "sha256_pad m =
     m @ [0x80] @ replicate (nat ((55 - int (length m)) mod 64)) 0 @ PutUint64 (of_nat (8 * length m))"

fun split_every :: "nat \<Rightarrow> 'a list \<Rightarrow> 'a list list" where
  "split_every n xs = (if xs = [] \<or> n = 0 then [] else take n xs # split_every n (drop n xs))"

declare split_every.simps [simp del]

fun sha256_schedule :: "nat \<Rightarrow> 32 word list \<Rightarrow> 32 word list" where
  "sha256_schedule 0 w = w"
| "sha256_schedule (Suc k) w =
     (let n = length w;
          a = w ! (n - 15);
          b = w ! (n - 2);
          s0 = word_rotr 7 a XOR word_rotr 18 a XOR drop_bit 3 a;
          s1 = word_rotr 17 b XOR word_rotr 19 b XOR drop_bit 10 b
      in sha256_schedule k (w @ [w ! (n - 16) + s0 + w ! (n - 7) + s1]))"

fun sha256_round :: "32 word \<times> 32 word \<Rightarrow> sha_state \<Rightarrow> sha_state" where
  "sha256_round (k, w) (a, b, c, d, e, f, g, h) =
     (let S1 = word_rotr 6 e XOR word_rotr 11 e XOR word_rotr 25 e;
          ch = (e AND f) XOR (NOT e AND g);
          t1 = h + S1 + ch + k + w;
          S0 = word_rotr 2 a XOR word_rotr 13 a XOR word_rotr 22 a;
          maj = (a AND b) XOR (a AND c) XOR (b AND c);
          t2 = S0 + maj
      in (t1 + t2, a, b, c, d + t1, e, f, g))"

fun sha_add :: "sha_state \<Rightarrow> sha_state \<Rightarrow> sha_state" where
  "sha_add (a, b, c, d, e, f, g, h) (a', b', c', d', e', f', g', h') =
     (a + a', b + b', c + c', d + d', e + e', f + f', g + g', h + h')"

definition sha256_block :: "bytes \<Rightarrow> sha_state \<Rightarrow> sha_state" where
  "sha256_block blk s =
     sha_add s (fold sha256_round (zip sha256_K (sha256_schedule 48 (map Uint32 (split_every 4 blk)))) s)"

fun sha_bytes :: "sha_state \<Rightarrow> bytes" where
  "sha_bytes (a, b, c, d, e, f, g, h) = concat (map PutUint32 [a, b, c, d, e, f, g, h])"

definition sha256 :: "bytes \<Rightarrow> bytes" where
  "sha256 m = sha_bytes (fold sha256_block (split_every 64 (sha256_pad m)) sha256_H)"

definition hmac_sha256 :: "bytes \<Rightarrow> bytes \<Rightarrow> bytes" where
  "hmac_sha256 key m =
     (let k = (if length key > 64 then sha256 key else key);
          k0 = k @ replicate (64 - length k) 0;
          ipad = map (\<lambda>x. x XOR 0x36) k0;
          opad = map (\<lambda>x. x XOR 0x5c) k0
      in sha256 (opad @ sha256 (ipad @ m)))"

text \<open>\<^verbatim>\<open>hmac.Equal\<close> compares in constant time; its result is equality.\<close>

definition hmac_Equal :: "bytes \<Rightarrow> bytes \<Rightarrow> bool" where
  "hmac_Equal a b \<longleftrightarrow> a = b"

lemma length_sha256 [simp]: "length (sha256 m) = 32"
proof -
  obtain a b c d e f g h where "fold sha256_block (split_every 64 (sha256_pad m)) sha256_H = (a, b, c, d, e, f, g, h)"
    by (metis surj_pair)
  then show ?thesis by (simp add: sha256_def PutUint32_def)
qed

lemma length_hmac_sha256 [simp]: "length (hmac_sha256 key m) = 32"
  by (simp add: hmac_sha256_def Let_def)

section \<open>The primitives of golang.org/x/crypto\<close>

text \<open>
  The interface value \<^verbatim>\<open>cipherAEAD\<close> of \<^verbatim>\<open>Aead.go\<close>: the methods of one cipher instance.
  Arguments are nonce, plaintext or ciphertext, and additional data; the destination slice is
  always \<^verbatim>\<open>nil\<close>.
\<close>

record cipherAEAD =
  cSeal :: "bytes \<Rightarrow> bytes \<Rightarrow> bytes \<Rightarrow> bytes"
  cOpen :: "bytes \<Rightarrow> bytes \<Rightarrow> bytes \<Rightarrow> bytes option"
  cNonceSize :: nat
  cOverhead :: nat

text \<open>
  \<open>hkdf_read secret salt info n\<close>: reading \<open>n\<close> bytes from \<^verbatim>\<open>hkdf.New(sha256.New, secret, salt,
  info)\<close>.  \<open>chacha_New key\<close>: \<^verbatim>\<open>chacha20poly1305.New(key)\<close>.
\<close>

record crypto_lib =
  hkdf_read :: "bytes \<Rightarrow> bytes \<Rightarrow> bytes \<Rightarrow> nat \<Rightarrow> bytes option"
  chacha_New :: "bytes \<Rightarrow> cipherAEAD option"

definition KeySize :: nat where "KeySize = 32"

definition cipher_ok :: "cipherAEAD \<Rightarrow> bool" where
  "cipher_ok c \<longleftrightarrow>
     cOverhead c = 16 \<and>
     (\<forall>n p ad. length n = NonceSize \<longrightarrow> length (cSeal c n p ad) = length p + cOverhead c) \<and>
     (\<forall>n p ad ct. length n = NonceSize \<longrightarrow> (cOpen c n ct ad = Some p \<longleftrightarrow> ct = cSeal c n p ad))"

definition crypto_lib_ok :: "crypto_lib \<Rightarrow> bool" where
  "crypto_lib_ok L \<longleftrightarrow>
     (\<forall>secret sal info n. n \<le> 255 * 32 \<longrightarrow> (\<exists>k. hkdf_read L secret sal info n = Some k \<and> length k = n)) \<and>
     (\<forall>key. length key = KeySize \<longrightarrow> (\<exists>c. chacha_New L key = Some c \<and> cipher_ok c))"

section \<open>hkdf.go\<close>

datatype crypto_error =
    SecretEmpty
  | InfoLabelEmpty
  | HKDFExpansionFailed
  | KeyNot32Bytes
  | ChaChaInitFailed
  | NonceNot12Bytes
  | AuthenticationFailed
  | RandomNonceFailed
  | AuthKeyEmpty
  | ChallengeFailed
  | ChallengeNot32Bytes

definition InfoDataKey :: string where "InfoDataKey = ''ghost-protocol/data-key/v1''"
definition InfoAuthKey :: string where "InfoAuthKey = ''ghost-protocol/auth-key/v1''"
definition InfoC2SKey :: string where "InfoC2SKey = ''ghost-protocol/data-key/c2s/v1''"
definition InfoS2CKey :: string where "InfoS2CKey = ''ghost-protocol/data-key/s2c/v1''"

lemmas info_defs = InfoDataKey_def InfoAuthKey_def InfoC2SKey_def InfoS2CKey_def

definition DeriveKey :: "crypto_lib \<Rightarrow> bytes \<Rightarrow> bytes \<Rightarrow> string \<Rightarrow> (crypto_error, bytes) result" where
  "DeriveKey L secret sal info =
     (if length secret = 0 then Inl SecretEmpty
      else if info = '''' then Inl InfoLabelEmpty
      else (case hkdf_read L secret sal (bytes_of_string info) KeySize of
              None \<Rightarrow> Inl HKDFExpansionFailed
            | Some key \<Rightarrow> Inr key))"

definition DeriveSessionKeys :: "crypto_lib \<Rightarrow> bytes \<Rightarrow> bytes \<Rightarrow> (crypto_error, bytes \<times> bytes) result" where
  "DeriveSessionKeys L psk exporterMaterial =
     (case DeriveKey L psk exporterMaterial InfoDataKey of
        Inl e \<Rightarrow> Inl e
      | Inr dataKey \<Rightarrow>
          (case DeriveKey L psk exporterMaterial InfoAuthKey of
             Inl e \<Rightarrow> Inl e
           | Inr authKey \<Rightarrow> Inr (dataKey, authKey)))"

definition DeriveDirectionalKeys ::
  "crypto_lib \<Rightarrow> bytes \<Rightarrow> bytes \<Rightarrow> (crypto_error, bytes \<times> bytes \<times> bytes) result" where
  "DeriveDirectionalKeys L psk exporterMaterial =
     (case DeriveKey L psk exporterMaterial InfoC2SKey of
        Inl e \<Rightarrow> Inl e
      | Inr c2s \<Rightarrow>
          (case DeriveKey L psk exporterMaterial InfoS2CKey of
             Inl e \<Rightarrow> Inl e
           | Inr s2c \<Rightarrow>
               (case DeriveKey L psk exporterMaterial InfoAuthKey of
                  Inl e \<Rightarrow> Inl e
                | Inr auth \<Rightarrow> Inr (c2s, s2c, auth))))"

section \<open>Aead.go\<close>

record AEAD =
  cipher :: cipherAEAD

definition NewAEAD :: "crypto_lib \<Rightarrow> bytes \<Rightarrow> (crypto_error, AEAD) result" where
  "NewAEAD L key =
     (if length key \<noteq> KeySize then Inl KeyNot32Bytes
      else (case chacha_New L key of
              None \<Rightarrow> Inl ChaChaInitFailed
            | Some c \<Rightarrow> Inr \<lparr>cipher = c\<rparr>))"

definition Seal :: "AEAD \<Rightarrow> bytes \<Rightarrow> bytes \<Rightarrow> bytes \<Rightarrow> (crypto_error, bytes) result" where
  "Seal a nonce plaintext additionalData =
     (if length nonce \<noteq> NonceSize then Inl NonceNot12Bytes
      else Inr (cSeal (cipher a) nonce plaintext additionalData))"

definition Open :: "AEAD \<Rightarrow> bytes \<Rightarrow> bytes \<Rightarrow> bytes \<Rightarrow> (crypto_error, bytes) result" where
  "Open a nonce ciphertext additionalData =
     (if length nonce \<noteq> NonceSize then Inl NonceNot12Bytes
      else (case cOpen (cipher a) nonce ciphertext additionalData of
              None \<Rightarrow> Inl AuthenticationFailed
            | Some plaintext \<Rightarrow> Inr plaintext))"

definition Overhead :: "AEAD \<Rightarrow> nat" where
  "Overhead a = cOverhead (cipher a)"

definition NonceFromCounter :: "uint64 \<Rightarrow> bytes" where
  "NonceFromCounter c = replicate 4 0 @ PutUint64 c"

definition RandomNonce :: "rng \<Rightarrow> (crypto_error, bytes) result \<times> rng" where
  "RandomNonce g =
     (case rand_Read NonceSize g of
        (Inl e, g') \<Rightarrow> (Inl RandomNonceFailed, g')
      | (Inr nonce, g') \<Rightarrow> (Inr nonce, g'))"

section \<open>Hmac.go\<close>

definition ClientAuthContext :: string where
  "ClientAuthContext = ''ghost-protocol/client-first-auth/v1''"

definition ClientProof :: "bytes \<Rightarrow> (crypto_error, bytes) result" where
  "ClientProof authKey =
     (if length authKey = 0 then Inl AuthKeyEmpty
      else Inr (hmac_sha256 authKey (bytes_of_string ClientAuthContext)))"

definition VerifyClientProof :: "bytes \<Rightarrow> bytes \<Rightarrow> bool" where
  "VerifyClientProof authKey proof =
     (case ClientProof authKey of
        Inl e \<Rightarrow> False
      | Inr expected \<Rightarrow> hmac_Equal expected proof)"

definition ChallengeSize :: nat where "ChallengeSize = 32"

definition GenerateChallenge :: "rng \<Rightarrow> (crypto_error, bytes) result \<times> rng" where
  "GenerateChallenge g =
     (case rand_Read ChallengeSize g of
        (Inl e, g') \<Rightarrow> (Inl ChallengeFailed, g')
      | (Inr challenge, g') \<Rightarrow> (Inr challenge, g'))"

definition ComputeResponse :: "bytes \<Rightarrow> bytes \<Rightarrow> (crypto_error, bytes) result" where
  "ComputeResponse authKey challenge =
     (if length authKey = 0 then Inl AuthKeyEmpty
      else if length challenge \<noteq> ChallengeSize then Inl ChallengeNot32Bytes
      else Inr (hmac_sha256 authKey challenge))"

definition VerifyResponse :: "bytes \<Rightarrow> bytes \<Rightarrow> bytes \<Rightarrow> (crypto_error, bool) result" where
  "VerifyResponse authKey challenge response =
     (case ComputeResponse authKey challenge of
        Inl e \<Rightarrow> Inl e
      | Inr expected \<Rightarrow> Inr (hmac_Equal expected response))"

section \<open>What the operations promise\<close>

lemma NewAEAD_ok:
  assumes "crypto_lib_ok L" "length key = KeySize"
  obtains a where "NewAEAD L key = Inr a" "cipher_ok (cipher a)"
  using assms by (fastforce simp: crypto_lib_ok_def NewAEAD_def)

lemma NewAEAD_Inr:
  "NewAEAD L key = Inr a \<longleftrightarrow> length key = KeySize \<and> chacha_New L key = Some (cipher a)"
  by (cases a) (auto simp: NewAEAD_def split: option.splits)

lemma NewAEAD_cipher_ok: "crypto_lib_ok L \<Longrightarrow> NewAEAD L key = Inr a \<Longrightarrow> cipher_ok (cipher a)"
  by (metis NewAEAD_ok NewAEAD_Inr sum.inject(2))

lemma Seal_Inr: "Seal a n p ad = Inr ct \<longleftrightarrow> length n = NonceSize \<and> ct = cSeal (cipher a) n p ad"
  by (auto simp: Seal_def)

lemma Open_Inr: "Open a n ct ad = Inr p \<longleftrightarrow> length n = NonceSize \<and> cOpen (cipher a) n ct ad = Some p"
  by (auto simp: Open_def split: option.splits)

lemma cOpen_iff:
  "cipher_ok c \<Longrightarrow> length n = NonceSize \<Longrightarrow> cOpen c n ct ad = Some p \<longleftrightarrow> ct = cSeal c n p ad"
  by (simp add: cipher_ok_def)

lemma Open_Seal_iff: "cipher_ok (cipher a) \<Longrightarrow> Open a n ct ad = Inr p \<longleftrightarrow> Seal a n p ad = Inr ct"
  by (auto simp: Open_Inr Seal_Inr cOpen_iff)

lemma Seal_length: "cipher_ok (cipher a) \<Longrightarrow> Seal a n p ad = Inr ct \<Longrightarrow> length ct = length p + 16"
  by (auto simp: Seal_Inr cipher_ok_def)

lemma Overhead_ok [simp]: "cipher_ok (cipher a) \<Longrightarrow> Overhead a = 16"
  by (simp add: Overhead_def cipher_ok_def)

lemma DeriveKey_Inr:
  "DeriveKey L secret sal info = Inr k \<longleftrightarrow>
     secret \<noteq> [] \<and> info \<noteq> '''' \<and> hkdf_read L secret sal (bytes_of_string info) KeySize = Some k"
  by (auto simp: DeriveKey_def split: option.splits)

lemma DeriveKey_ok:
  assumes "crypto_lib_ok L" "secret \<noteq> []" "info \<noteq> ''''"
  obtains k where "DeriveKey L secret sal info = Inr k" "length k = KeySize"
proof -
  have "KeySize \<le> 255 * 32" by (simp add: KeySize_def)
  then obtain k where "hkdf_read L secret sal (bytes_of_string info) KeySize = Some k" "length k = KeySize"
    using assms(1) unfolding crypto_lib_ok_def by metis
  with assms show ?thesis by (intro that [of k]) (simp_all add: DeriveKey_Inr)
qed

lemma DeriveKey_length:
  "crypto_lib_ok L \<Longrightarrow> DeriveKey L secret sal info = Inr k \<Longrightarrow> length k = KeySize"
  by (metis DeriveKey_Inr DeriveKey_ok sum.inject(2))

lemma info_labels_nonempty [simp]:
  "InfoDataKey \<noteq> ''''" "InfoAuthKey \<noteq> ''''" "InfoC2SKey \<noteq> ''''" "InfoS2CKey \<noteq> ''''"
  by (simp_all add: info_defs)

lemma DeriveDirectionalKeys_Inr:
  "DeriveDirectionalKeys L psk ex = Inr (c2s, s2c, auth) \<longleftrightarrow>
     DeriveKey L psk ex InfoC2SKey = Inr c2s \<and> DeriveKey L psk ex InfoS2CKey = Inr s2c \<and>
     DeriveKey L psk ex InfoAuthKey = Inr auth"
  by (auto simp: DeriveDirectionalKeys_def split: sum.splits)

lemma DeriveSessionKeys_Inr:
  "DeriveSessionKeys L psk ex = Inr (dataKey, authKey) \<longleftrightarrow>
     DeriveKey L psk ex InfoDataKey = Inr dataKey \<and> DeriveKey L psk ex InfoAuthKey = Inr authKey"
  by (auto simp: DeriveSessionKeys_def split: sum.splits)

lemma VerifyClientProof_iff: "VerifyClientProof k p \<longleftrightarrow> ClientProof k = Inr p"
  by (auto simp: VerifyClientProof_def ClientProof_def hmac_Equal_def split: sum.splits)

section \<open>A sample library\<close>

text \<open>
  A concrete pair of functions that satisfies \<open>crypto_lib_ok\<close>: the assumptions on the external
  library can hold together.  It is no cipher; it only shows the shape.
\<close>

definition sample_tag :: "bytes \<Rightarrow> bytes \<Rightarrow> bytes \<Rightarrow> bytes \<Rightarrow> bytes" where
  "sample_tag key n p ad = replicate 16 (sum_list key + sum_list n + sum_list p + sum_list ad)"

definition sample_cipher :: "bytes \<Rightarrow> cipherAEAD" where
  "sample_cipher key =
     \<lparr>cSeal = (\<lambda>n p ad. p @ sample_tag key n p ad),
      cOpen = (\<lambda>n ct ad. let p = take (length ct - 16) ct in
                 if ct = p @ sample_tag key n p ad then Some p else None),
      cNonceSize = 12, cOverhead = 16\<rparr>"

definition sample_lib :: crypto_lib where
  "sample_lib =
     \<lparr>hkdf_read = (\<lambda>secret sal info n. if n \<le> 255 * 32 then Some (replicate n (sum_list (secret @ sal @ info))) else None),
      chacha_New = (\<lambda>key. if length key = 32 then Some (sample_cipher key) else None)\<rparr>"

lemma sample_cipher_ok: "cipher_ok (sample_cipher key)"
  by (auto simp: cipher_ok_def sample_cipher_def sample_tag_def Let_def split: if_splits)

lemma sample_lib_ok: "crypto_lib_ok sample_lib"
  by (simp add: crypto_lib_ok_def sample_lib_def KeySize_def sample_cipher_ok)

section \<open>Properties\<close>

text \<open>
  C25.  Key separation: with a PSK, \<open>DeriveDirectionalKeys\<close> returns three 32-byte keys, each the HKDF
  output under a label of its own, both data keys are usable AEAD keys, and the labels, the legacy
  data-key label included, are pairwise different; without a PSK it fails.
\<close>

theorem DeriveDirectionalKeys_separated:
  assumes "crypto_lib_ok L"
  shows "case DeriveDirectionalKeys L psk ex of
      Inl e \<Rightarrow> psk = [] \<and> e = SecretEmpty
    | Inr (c2s, s2c, auth) \<Rightarrow> psk \<noteq> [] \<and>
        map (\<lambda>label. hkdf_read L psk ex (bytes_of_string label) 32) [InfoC2SKey, InfoS2CKey, InfoAuthKey]
          = [Some c2s, Some s2c, Some auth] \<and>
        map length [c2s, s2c, auth] = [32, 32, 32] \<and>
        (\<exists>a b. NewAEAD L c2s = Inr a \<and> NewAEAD L s2c = Inr b) \<and>
        distinct (map bytes_of_string [InfoC2SKey, InfoS2CKey, InfoAuthKey, InfoDataKey])"
proof (cases "psk = []")
  case True
  then show ?thesis by (simp add: DeriveDirectionalKeys_def DeriveKey_def)
next
  case False
  obtain c2s s2c auth where keys: "DeriveDirectionalKeys L psk ex = Inr (c2s, s2c, auth)"
    using DeriveKey_ok [OF assms False] by (metis DeriveDirectionalKeys_Inr info_labels_nonempty)
  note k = keys [unfolded DeriveDirectionalKeys_Inr]
  have len: "length c2s = 32" "length s2c = 32" "length auth = 32"
    using k DeriveKey_length [OF assms] by (auto simp: KeySize_def)
  moreover obtain a b where "NewAEAD L c2s = Inr a" "NewAEAD L s2c = Inr b"
    using NewAEAD_ok [OF assms] len by (metis KeySize_def)
  moreover have "inj bytes_of_string"
    by (rule inj_on_inverseI [of _ string_of_bytes]) simp
  moreover have "distinct [InfoC2SKey, InfoS2CKey, InfoAuthKey, InfoDataKey]"
    by (simp add: info_defs)
  ultimately show ?thesis
    using keys k False by (simp add: DeriveKey_Inr KeySize_def inj_eq)
qed

theorem DeriveDirectionalKeys_separated_witness:
  "case DeriveDirectionalKeys sample_lib [1, 2] [3] of
     Inl e \<Rightarrow> False
   | Inr (c2s, s2c, auth) \<Rightarrow> length c2s = 32 \<and> length s2c = 32 \<and> length auth = 32"
  using DeriveDirectionalKeys_separated [OF sample_lib_ok, of "[1, 2]" "[3]"]
  by (auto split: sum.splits)

text \<open>
  \<open>Open\<close> accepts a ciphertext precisely when \<open>Seal\<close> produces it from the plaintext returned,
  under the same nonce and the same additional data, and the ciphertext is 16 bytes longer.
\<close>

lemma Open_inverts_Seal:
  assumes "crypto_lib_ok L" "NewAEAD L key = Inr a"
  shows "(Open a nonce ct ad = Inr p \<longleftrightarrow> Seal a nonce p ad = Inr ct) \<and>
    (Seal a nonce p ad = Inl NonceNot12Bytes \<and> length nonce \<noteq> 12 \<or>
     (\<exists>c. Seal a nonce p ad = Inr c \<and> length nonce = 12 \<and> length c = length p + 16))"
proof -
  have ok: "cipher_ok (cipher a)" by (rule NewAEAD_cipher_ok [OF assms])
  then show ?thesis
    by (auto simp: Open_Seal_iff Seal_def NonceSize_def cipher_ok_def)
qed

text \<open>
  The proof checks are exact: the gateway accepts a client proof precisely when it is the one
  that \<open>ClientProof\<close> computes from the same key, and a challenge response precisely when it is the
  one that \<open>ComputeResponse\<close> computes; an empty key is never accepted.
\<close>

lemma proof_checks_exact:
  "(VerifyClientProof authKey proof \<longleftrightarrow> ClientProof authKey = Inr proof) \<and>
   (VerifyResponse authKey challenge response = Inr True \<longleftrightarrow> ComputeResponse authKey challenge = Inr response) \<and>
   \<not> VerifyClientProof [] proof \<and> VerifyResponse [] challenge response = Inl AuthKeyEmpty"
  by (auto simp: VerifyClientProof_iff ClientProof_def VerifyResponse_def ComputeResponse_def
      hmac_Equal_def split: sum.splits)

end
