(* ===== verification/Secure_Channel.thy ===== *)
theory Secure_Channel
  imports Padding Crypto
begin

text \<open>
  The contract between the two ends of the encrypted channel.  The repository has two
  implementations of each end: \<^verbatim>\<open>transport.DataChannel\<close> on the client and
  \<^verbatim>\<open>gateway.tunnelChannel\<close> on the server.  What each has to put on the wire, and to accept from
  it, is \<open>sealed_frame\<close>: type, direction and sequence number are bound as additional data, the
  nonce is the sender's salt followed by the sequence number, and the plaintext is an envelope
  followed by filler.

  The locales \<open>frame_sender\<close> and \<open>frame_receiver\<close> state the two halves of the contract, and
  \<open>secure_link\<close> puts a sender and a receiver together; the theories of the two implementations
  interpret them.
\<close>

section \<open>Frames on the encrypted channel\<close>

definition sealed_frame :: "AEAD \<Rightarrow> byte \<Rightarrow> byte \<Rightarrow> bytes \<Rightarrow> uint64 \<Rightarrow> bytes \<Rightarrow> frame" where
  "sealed_frame a dir typ s seq padded =
     \<lparr>Type = typ, Nonce = s @ PutUint64 seq,
      Ciphertext = cSeal (cipher a) (s @ PutUint64 seq) padded ([typ, dir] @ PutUint64 seq)\<rparr>"

text \<open>The frames for a list of payloads with their fillers, numbered from \<open>seq\<close>.\<close>

fun sealed_seq :: "AEAD \<Rightarrow> byte \<Rightarrow> byte \<Rightarrow> bytes \<Rightarrow> uint64 \<Rightarrow> (bytes \<times> bytes) list \<Rightarrow> frame list" where
  "sealed_seq a dir typ s seq [] = []"
| "sealed_seq a dir typ s seq ((p, fill) # xs) =
     sealed_frame a dir typ s seq (envelope p @ fill) # sealed_seq a dir typ s (seq + 1) xs"

text \<open>The sequence number a frame carries.\<close>

definition frame_seq :: "frame \<Rightarrow> uint64" where
  "frame_seq f = Uint64 (drop 4 (Nonce f))"

definition fits :: "bytes \<times> bytes \<Rightarrow> bool" where
  "fits x \<longleftrightarrow> length (envelope (fst x) @ snd x) + 16 \<le> MaxCiphertextLen"

lemma fits_payload: "fits (p, fill) \<Longrightarrow> length p \<le> MaxPayloadLen"
  by (simp add: fits_def MaxCiphertextLen_def MaxPayloadLen_def)

lemma sealed_frame_sendable:
  "cipher_ok (cipher a) \<Longrightarrow> length s = 4 \<Longrightarrow> IsValidType typ \<Longrightarrow> length padded + 16 \<le> MaxCiphertextLen \<Longrightarrow>
     sendable (sealed_frame a dir typ s seq padded)"
  by (simp add: sendable_def sealed_frame_def wf_frame_def cipher_ok_def NonceSize_def)

lemma frame_seq_sealed [simp]: "length s = 4 \<Longrightarrow> frame_seq (sealed_frame a dir typ s seq padded) = seq"
  by (simp add: frame_seq_def sealed_frame_def)

lemma length_sealed_seq [simp]: "length (sealed_seq a dir typ s k xs) = length xs"
  by (induction xs arbitrary: k) auto

lemma sealed_seq_append:
  "sealed_seq a dir t s k (xs @ ys) = sealed_seq a dir t s k xs @ sealed_seq a dir t s (k + of_nat (length xs)) ys"
  by (induction xs arbitrary: k) (auto simp: add.assoc)

lemma Uint64_inverse:
  assumes "length b = 8"
  shows "PutUint64 (Uint64 b) = b"
proof -
  obtain b0 b1 b2 b3 b4 b5 b6 b7 where b: "b = [b0, b1, b2, b3, b4, b5, b6, b7]"
    using assms by (auto simp: numeral_eq_Suc length_Suc_conv)
  show ?thesis
    unfolding b PutUint64_def Uint64_def
    by (simp, intro conjI) (rule bit_word_eqI; auto simp: bit_simps dest: bit_imp_le_length)+
qed

lemma nonce_split: "length n = NonceSize \<Longrightarrow> \<exists>s k. length s = 4 \<and> n = s @ PutUint64 k"
  by (rule exI [of _ "take 4 n"], rule exI [of _ "Uint64 (drop 4 n)"])
    (simp add: Uint64_inverse NonceSize_def)

section \<open>A network that may alter what it carries\<close>

text \<open>
  The frames that a byte stream starts with, and those of them that a key opens.  \<open>unforged\<close> is what a
  network can do that does not have the key: it may drop, delay, repeat, reorder, cut and make up what it
  likes, but a frame of type \<open>t\<close> that the key opens is one that was sent.
\<close>

function frames_in :: "bytes \<Rightarrow> frame list" where
  "frames_in bs = (case parse_frame bs of None \<Rightarrow> [] | Some (f, rest) \<Rightarrow> f # frames_in rest)"
  by pat_completeness auto
termination
  by (relation "measure length") (auto dest!: parse_frame_sound)

declare frames_in.simps [simp del]

definition opens :: "AEAD \<Rightarrow> byte \<Rightarrow> byte \<Rightarrow> frame \<Rightarrow> bool" where
  "opens a dir t f \<longleftrightarrow> Type f = t \<and> cOpen (cipher a) (Nonce f) (Ciphertext f) ([t, dir] @ drop 4 (Nonce f)) \<noteq> None"

definition unforged :: "AEAD \<Rightarrow> byte \<Rightarrow> byte \<Rightarrow> bytes list \<Rightarrow> bytes \<Rightarrow> bool" where
  "unforged a dir t packets stream \<longleftrightarrow> (\<forall>f \<in> set (frames_in stream). opens a dir t f \<longrightarrow> frame_packet f \<in> set packets)"

lemma frames_in_packets: "\<forall>f \<in> set fs. sendable f \<Longrightarrow> frames_in (concat (map frame_packet fs) @ rest) = fs @ frames_in rest"
proof (induction fs)
  case (Cons f fs)
  then have "parse_frame (frame_packet f @ (concat (map frame_packet fs) @ rest)) = Some (f, concat (map frame_packet fs) @ rest)"
    by (simp add: parse_frame_packet)
  with Cons show ?case by (simp add: frames_in.simps [of "frame_packet f @ (concat (map frame_packet fs) @ rest)"])
qed simp

lemma frames_in_Nil [simp]: "frames_in [] = []"
  by (simp add: frames_in.simps [of "[]"] parse_frame_def HeaderSize_def)

text \<open>Replaying, reordering and dropping packets is within the power of such a network.\<close>

lemma unforged_replays:
  assumes "\<forall>f \<in> set fs. sendable f" "frame_packet ` set fs \<subseteq> set packets"
  shows "unforged a dir t packets (concat (map frame_packet fs))"
  using assms frames_in_packets [OF assms(1), of "[]"] by (auto simp: unforged_def)

lemma opens_sealed: "cipher_ok (cipher a) \<Longrightarrow> length s = 4 \<Longrightarrow> opens a dir t (sealed_frame a dir t s k padded)"
  by (auto simp: opens_def sealed_frame_def cipher_ok_def NonceSize_def)

lemma sealed_frame_inject:
  assumes "cipher_ok (cipher a)" "length s = 4" "length s' = 4" "length p \<le> MaxPayloadLen" "length p' \<le> MaxPayloadLen"
    and "frame_packet (sealed_frame a dir t s k (envelope p @ fill)) = frame_packet (sealed_frame a dir t s' k' (envelope p' @ fill'))"
  shows "k = k' \<and> p = p'"
proof -
  have n: "length (s @ PutUint64 k) = NonceSize" "length (s' @ PutUint64 k') = NonceSize" using assms(2,3) by (simp_all add: NonceSize_def)
  from assms(6) n have "s @ PutUint64 k = s' @ PutUint64 k' \<and>
    cSeal (cipher a) (s @ PutUint64 k) (envelope p @ fill) ([t, dir] @ PutUint64 k) =
    cSeal (cipher a) (s' @ PutUint64 k') (envelope p' @ fill') ([t, dir] @ PutUint64 k')"
    by (auto simp: frame_packet_def sealed_frame_def)
  with assms(2,3) have k: "s = s'" "k = k'" and eq: "cSeal (cipher a) (s' @ PutUint64 k') (envelope p @ fill) ([t, dir] @ PutUint64 k') =
    cSeal (cipher a) (s' @ PutUint64 k') (envelope p' @ fill') ([t, dir] @ PutUint64 k')" by auto
  have "envelope p @ fill = envelope p' @ fill'"
    using eq cOpen_iff [OF assms(1) n(2)] by (metis option.inject)
  with assms(4,5) k show ?thesis by (simp add: envelopes.enc_append_inject)
qed

text \<open>
  \<open>authentic a dir t k ps fs\<close>: the frames \<open>fs\<close> carry the payloads \<open>ps\<close>, sealed under the key for this
  direction and numbered from \<open>k\<close>.
\<close>

definition authentic :: "AEAD \<Rightarrow> byte \<Rightarrow> byte \<Rightarrow> uint64 \<Rightarrow> bytes list \<Rightarrow> frame list \<Rightarrow> bool" where
  "authentic a dir t k ps fs \<longleftrightarrow> length fs = length ps \<and>
     (\<forall>i < length ps. \<exists>s fill. length s = 4 \<and> fits (ps ! i, fill) \<and>
        fs ! i = sealed_frame a dir t s (k + of_nat i) (envelope (ps ! i) @ fill))"

lemma authentic_Nil [simp]: "authentic a dir t k [] []"
  by (simp add: authentic_def)

lemma authentic_Cons:
  assumes "length s = 4" "fits (p, fill)" "f = sealed_frame a dir t s k (envelope p @ fill)" "authentic a dir t (k + 1) ps fs"
  shows "authentic a dir t k (p # ps) (f # fs)"
  unfolding authentic_def
proof (intro conjI allI impI)
  show "length (f # fs) = length (p # ps)" using assms(4) by (simp add: authentic_def)
  fix i assume "i < length (p # ps)"
  then show "\<exists>s fill. length s = 4 \<and> fits ((p # ps) ! i, fill) \<and>
      (f # fs) ! i = sealed_frame a dir t s (k + of_nat i) (envelope ((p # ps) ! i) @ fill)"
    using assms by (cases i) (auto simp: authentic_def add.assoc)
qed

lemma authentic_append:
  assumes "authentic a dir t k ps fs" "authentic a dir t (k + of_nat (length ps)) qs gs"
  shows "authentic a dir t k (ps @ qs) (fs @ gs)"
  unfolding authentic_def
proof (intro conjI allI impI)
  have len: "length fs = length ps" using assms(1) by (simp add: authentic_def)
  show "length (fs @ gs) = length (ps @ qs)" using assms(2) len by (simp add: authentic_def)
  fix i assume i: "i < length (ps @ qs)"
  show "\<exists>s fill. length s = 4 \<and> fits ((ps @ qs) ! i, fill) \<and>
      (fs @ gs) ! i = sealed_frame a dir t s (k + of_nat i) (envelope ((ps @ qs) ! i) @ fill)"
  proof (cases "i < length ps")
    case True
    with assms(1) obtain s fill where "length s = 4" "fits (ps ! i, fill)"
      "fs ! i = sealed_frame a dir t s (k + of_nat i) (envelope (ps ! i) @ fill)"
      unfolding authentic_def by blast
    with True show ?thesis by (intro exI [of _ s] exI [of _ fill]) (simp add: nth_append len)
  next
    case False
    then obtain j where j: "i = length ps + j" using add_diff_inverse_nat [of i "length ps"] by metis
    with assms(2) i obtain s fill where "length s = 4" "fits (qs ! j, fill)"
      "gs ! j = sealed_frame a dir t s (k + of_nat (length ps) + of_nat j) (envelope (qs ! j) @ fill)"
      unfolding authentic_def by auto
    then show ?thesis unfolding j by (intro exI [of _ s] exI [of _ fill]) (simp add: nth_append len add.assoc)
  qed
qed

lemma authentic_sendable:
  assumes "cipher_ok (cipher a)" "IsValidType t" "authentic a dir t k ps fs" "f \<in> set fs"
  shows "sendable f \<and> opens a dir t f"
proof -
  from assms(3,4) obtain i where "i < length ps" "f = fs ! i" by (metis authentic_def in_set_conv_nth)
  with assms(3) obtain p fill s k' where f: "length s = 4" "fits (p, fill)" "f = sealed_frame a dir t s k' (envelope p @ fill)"
    unfolding authentic_def by blast
  then show ?thesis using assms(1,2) by (simp add: sealed_frame_sendable opens_sealed fits_def)
qed

lemma sealed_seq_nth:
  "i < length xs \<Longrightarrow> sealed_seq a dir t s k xs ! i = sealed_frame a dir t s (k + of_nat i) (envelope (fst (xs ! i)) @ snd (xs ! i))"
proof (induction xs arbitrary: i k)
  case (Cons x xs)
  then show ?case by (cases x; cases i) (auto simp: add.assoc)
qed simp

lemma sealed_seq_sendable:
  "cipher_ok (cipher a) \<Longrightarrow> length s = 4 \<Longrightarrow> IsValidType t \<Longrightarrow> \<forall>x \<in> set xs. fits x \<Longrightarrow> f \<in> set (sealed_seq a dir t s k xs) \<Longrightarrow> sendable f"
proof (induction xs arbitrary: k)
  case (Cons x xs)
  then show ?case by (cases x) (auto simp: fits_def sealed_frame_sendable)
qed simp

text \<open>On such a network the accepted payloads are the first ones that were sent, each once and in order.\<close>

lemma authentic_prefix:
  assumes "cipher_ok (cipher a)" "IsValidType t" "length s = 4" "\<forall>x \<in> set xs. fits x" "length xs < 2 ^ 64"
    and "authentic a dir t k ps fs" "stream = concat (map frame_packet fs) @ rest"
    and "unforged a dir t (map frame_packet (sealed_seq a dir t s k xs)) stream"
  shows "\<exists>qs. map fst xs = ps @ qs"
proof -
  have seen: "set fs \<subseteq> set (frames_in stream)"
    using frames_in_packets [of fs rest] authentic_sendable [OF assms(1,2,6)] assms(7) by simp
  have was_sent: "\<exists>j < length xs. frame_packet f = frame_packet (sealed_seq a dir t s k xs ! j)" if f: "f \<in> set fs" for f
  proof -
    from f seen assms(8) authentic_sendable [OF assms(1,2,6) f]
    have "frame_packet f \<in> set (map frame_packet (sealed_seq a dir t s k xs))" unfolding unforged_def by blast
    then obtain j where "j < length (map frame_packet (sealed_seq a dir t s k xs))" "map frame_packet (sealed_seq a dir t s k xs) ! j = frame_packet f"
      unfolding in_set_conv_nth by blast
    then show ?thesis by (intro exI [of _ j]) simp
  qed
  have same: "i < length xs \<and> ps ! i = fst (xs ! i)" if i: "i < length ps" "i < 2 ^ 64" for i
  proof -
    from assms(6) i have "fs ! i \<in> set fs" by (simp add: authentic_def)
    from was_sent [OF this] obtain j where j: "j < length xs" "frame_packet (fs ! i) = frame_packet (sealed_seq a dir t s k xs ! j)" by blast
    from assms(6) i(1) obtain s' fill where f: "length s' = 4" "fits (ps ! i, fill)"
      "fs ! i = sealed_frame a dir t s' (k + of_nat i) (envelope (ps ! i) @ fill)" unfolding authentic_def by blast
    have "fits (fst (xs ! j), snd (xs ! j))" using assms(4) j(1) by simp
    from sealed_frame_inject [OF assms(1) f(1) assms(3) fits_payload [OF f(2)] fits_payload [OF this] j(2) [unfolded f(3) sealed_seq_nth [OF j(1)]]]
    have eq: "k + of_nat i = k + of_nat j" "ps ! i = fst (xs ! j)" by simp_all
    have "i = j" using eq(1) i(2) j(1) assms(5) of_nat_uint64_eq [of i j] by simp
    with eq j show ?thesis by simp
  qed
  have le: "length ps \<le> length xs"
    using same [of "length xs"] assms(5) by (meson not_less less_irrefl)
  then have "take (length ps) (map fst xs) = ps" using same assms(5) by (intro nth_equalityI) auto
  then show ?thesis by (metis append_take_drop_id)
qed

section \<open>What fits one frame\<close>

text \<open>The largest payload that one frame of the channel carries.\<close>

definition payload_limit :: "bool \<Rightarrow> nat" where
  "payload_limit padding = (if padding then 1442 else 65517)"

text \<open>The envelope with its filler, padded or not, leaves room for the tag in every frame.\<close>

lemma pad_step:
  assumes "cipher_ok (cipher a)" "rng_fail g = None" "length p \<le> payload_limit pad"
  shows "\<exists>fill g'. (if pad then Pad (envelope p) (int (Overhead a)) g else (Inr (envelope p), g)) =
      (Inr (envelope p @ fill), g') \<and> rng_fail g' = None \<and> fits (p, fill) \<and>
      (pad \<longrightarrow> length (envelope p @ fill) + 16 \<in> {512, 1024, 1460})"
proof (cases pad)
  case True
  have len: "int (length (envelope p)) + int (Overhead a) \<le> 1460"
    using assms True by (simp add: payload_limit_def)
  from Pad_works [OF assms(2) len] obtain padded g' where
    pad: "Pad (envelope p) (int (Overhead a)) g = (Inr padded, g')" "rng_fail g' = None"
    by blast
  from Pad_Inr [OF pad(1)] obtain b fill where
    b: "SelectBlockSize (int (length (envelope p))) (int (Overhead a)) = Inr b" "padded = envelope p @ fill"
    "int (length padded) + int (Overhead a) = b" by metis
  have "b \<in> {512, 1024, 1460}"
    using b(1) by (auto simp: SelectBlockSize_cases split: if_splits)
  then have "length (envelope p @ fill) + 16 \<in> {512, 1024, 1460}"
    using b(2,3) assms(1) by auto
  moreover from this have "fits (p, fill)" by (auto simp: fits_def MaxCiphertextLen_def)
  ultimately show ?thesis using pad True b(2) by auto
next
  case False
  then show ?thesis
    using assms by (intro exI [of _ "[]"]) (simp add: fits_def payload_limit_def MaxCiphertextLen_def)
qed

section \<open>Sequences of frames\<close>

text \<open>
  Receiving up to \<open>n\<close> frames with a receiver, stopping at the first error, and sending payloads one
  by one, stopping at the first error.
\<close>

fun recv_frames ::
  "('c \<Rightarrow> reader \<Rightarrow> ('e, bytes) result \<times> 'c \<times> reader) \<Rightarrow> nat \<Rightarrow> 'c \<Rightarrow> reader \<Rightarrow> bytes list \<times> 'c \<times> reader" where
  "recv_frames f 0 c r = ([], c, r)"
| "recv_frames f (Suc n) c r =
     (case f c r of
        (Inr p, c', r') \<Rightarrow> (let (ps, rest) = recv_frames f n c' r' in (p # ps, rest))
      | (Inl e, c', r') \<Rightarrow> ([], c', r'))"

fun send_frames ::
  "('c \<Rightarrow> bytes \<Rightarrow> writer \<Rightarrow> rng \<Rightarrow> 'e option \<times> 'c \<times> writer \<times> rng) \<Rightarrow> bytes list \<Rightarrow> 'c \<Rightarrow> writer \<Rightarrow> rng \<Rightarrow>
   'e option \<times> 'c \<times> writer \<times> rng" where
  "send_frames f [] c w g = (None, c, w, g)"
| "send_frames f (p # ps) c w g =
     (case f c p w g of
        (None, c', w', g') \<Rightarrow> send_frames f ps c' w' g'
      | (Some e, c', w', g') \<Rightarrow> (Some e, c', w', g'))"

text \<open>A run of sends on one connection that carries on after errors; the payloads may differ in type.\<close>

fun send_attempts ::
  "(byte \<Rightarrow> 'c \<Rightarrow> bytes \<Rightarrow> writer \<Rightarrow> rng \<Rightarrow> 'e option \<times> 'c \<times> writer \<times> rng) \<Rightarrow> (byte \<times> bytes) list \<Rightarrow> 'c \<Rightarrow> writer \<Rightarrow> rng \<Rightarrow>
   'c \<times> writer \<times> rng" where
  "send_attempts f [] c w g = (c, w, g)"
| "send_attempts f ((t, p) # xs) c w g = (let (err, c', w', g') = f t c p w g in send_attempts f xs c' w' g')"

text \<open>The part of each packet that reached the connection.\<close>

definition on_wire :: "frame list \<Rightarrow> nat list \<Rightarrow> bytes list" where
  "on_wire fs ks = map2 (\<lambda>f k. take k (frame_packet f)) fs ks"

section \<open>The sender's contract\<close>

locale frame_sender =
  fixes send :: "byte \<Rightarrow> 'c \<Rightarrow> bytes \<Rightarrow> writer \<Rightarrow> rng \<Rightarrow> 'e option \<times> 'c \<times> writer \<times> rng"
    and sok :: "'c \<Rightarrow> bool"
    and skey :: "'c \<Rightarrow> AEAD"
    and sdir :: "'c \<Rightarrow> byte"
    and ssalt :: "'c \<Rightarrow> bytes"
    and sseq :: "'c \<Rightarrow> uint64"
    and slimit :: "'c \<Rightarrow> nat"
  assumes sok_cipher: "sok c \<Longrightarrow> cipher_ok (cipher (skey c)) \<and> length (ssalt c) = 4"
    and send_ok: "sok c \<Longrightarrow> IsValidType typ \<Longrightarrow> wplan w = [] \<Longrightarrow> rng_fail g = None \<Longrightarrow> length p \<le> slimit c \<Longrightarrow>
      \<exists>c' g' fill. send typ c p w g =
          (None, c', w\<lparr>sent := sent w @ [frame_packet (sealed_frame (skey c) (sdir c) typ (ssalt c) (sseq c) (envelope p @ fill))]\<rparr>, g') \<and>
        fits (p, fill) \<and> rng_fail g' = None \<and> sok c' \<and> skey c' = skey c \<and> sdir c' = sdir c \<and>
        ssalt c' = ssalt c \<and> sseq c' = sseq c + 1 \<and> slimit c' = slimit c"
    and send_any: "sok c \<Longrightarrow> send typ c p w g = (err, c', w', g') \<Longrightarrow>
      sok c' \<and> ssalt c' = ssalt c \<and>
      (sent w' = sent w \<and> (sseq c' = sseq c \<or> sseq c' = sseq c + 1) \<or>
       (\<exists>f k. sent w' = sent w @ [take k (frame_packet f)] \<and> Nonce f = ssalt c @ PutUint64 (sseq c) \<and>
          sseq c' = sseq c + 1))"
begin

lemma send_frames_ok:
  assumes "sok c" "IsValidType typ" "wplan w = []" "rng_fail g = None" "\<forall>p \<in> set ps. length p \<le> slimit c"
  shows "\<exists>c' g' fills. length fills = length ps \<and> (\<forall>x \<in> set (zip ps fills). fits x) \<and>
    send_frames (send typ) ps c w g =
      (None, c', w\<lparr>sent := sent w @ map frame_packet (sealed_seq (skey c) (sdir c) typ (ssalt c) (sseq c) (zip ps fills))\<rparr>, g') \<and>
    rng_fail g' = None \<and> sok c' \<and> skey c' = skey c \<and> sdir c' = sdir c \<and> ssalt c' = ssalt c \<and>
    sseq c' = sseq c + of_nat (length ps) \<and> slimit c' = slimit c"
  using assms
proof (induction ps arbitrary: c w g)
  case Nil
  then show ?case by simp
next
  case (Cons p ps)
  let ?k = "sealed_frame (skey c) (sdir c) typ (ssalt c) (sseq c)"
  from send_ok [OF Cons.prems(1-4), of p] Cons.prems(5) obtain c1 g1 fill where
    s: "send typ c p w g = (None, c1, w\<lparr>sent := sent w @ [frame_packet (?k (envelope p @ fill))]\<rparr>, g1)"
    "fits (p, fill)" "rng_fail g1 = None" and
    c1: "sok c1" "skey c1 = skey c" "sdir c1 = sdir c" "ssalt c1 = ssalt c" "sseq c1 = sseq c + 1" "slimit c1 = slimit c"
    by auto
  from Cons.IH [OF c1(1) Cons.prems(2) _ s(3), of "w\<lparr>sent := sent w @ [frame_packet (?k (envelope p @ fill))]\<rparr>"]
    Cons.prems(3,5) c1
  obtain c2 g2 fills where
    "length fills = length ps" "\<forall>x \<in> set (zip ps fills). fits x"
    "send_frames (send typ) ps c1 (w\<lparr>sent := sent w @ [frame_packet (?k (envelope p @ fill))]\<rparr>) g1 =
      (None, c2, w\<lparr>sent := sent w @ [frame_packet (?k (envelope p @ fill))] @
         map frame_packet (sealed_seq (skey c) (sdir c) typ (ssalt c) (sseq c + 1) (zip ps fills))\<rparr>, g2)"
    "rng_fail g2 = None" "sok c2" "skey c2 = skey c" "sdir c2 = sdir c" "ssalt c2 = ssalt c"
    "sseq c2 = sseq c + 1 + of_nat (length ps)" "slimit c2 = slimit c"
    by auto
  with s show ?case
    by (intro exI [of _ c2] exI [of _ g2] exI [of _ "fill # fills"]) (simp add: add.assoc)
qed

text \<open>
  No two packets of a run carry the same nonce, whatever the connection and the random source do:
  a number that was used for a packet is never used again.
\<close>

lemma send_attempts_numbers:
  assumes "sok c" "send_attempts send xs c w g = (c', w', g')"
  shows "\<exists>fs ks is. sent w' = sent w @ on_wire fs ks \<and> length ks = length fs \<and> sorted_wrt (<) is \<and>
    set is \<subseteq> {..<length xs} \<and> map Nonce fs = map (\<lambda>i. ssalt c @ PutUint64 (sseq c + of_nat i)) is"
  using assms
proof (induction xs arbitrary: c w g)
  case Nil
  then show ?case by (auto simp: on_wire_def intro!: exI [of _ "[]"])
next
  case (Cons x xs)
  obtain t p where x: "x = (t, p)" by (cases x)
  obtain err c1 w1 g1 where one: "send t c p w g = (err, c1, w1, g1)" by (metis surj_pair)
  note any = send_any [OF Cons.prems(1) one]
  from Cons.IH [of c1 w1 g1] any Cons.prems(2) x one obtain fs ks "is" where
    IH: "sent w' = sent w1 @ on_wire fs ks" "length ks = length fs" "sorted_wrt (<) is" "set is \<subseteq> {..<length xs}"
    "map Nonce fs = map (\<lambda>i. ssalt c @ PutUint64 (sseq c1 + of_nat i)) is" by auto
  let ?up = "map Suc is"
  have up: "sorted_wrt (<) ?up" "set ?up \<subseteq> {..<length (x # xs)}"
    "map (\<lambda>i. ssalt c @ PutUint64 (sseq c + of_nat i)) ?up = map (\<lambda>i. ssalt c @ PutUint64 (sseq c + 1 + of_nat i)) is"
    using IH(3,4) by (auto simp: sorted_wrt_map o_def add.assoc)
  consider (same) "sent w1 = sent w" "sseq c1 = sseq c" | (skip) "sent w1 = sent w" "sseq c1 = sseq c + 1"
    | (packet) f k where "sent w1 = sent w @ [take k (frame_packet f)]" "Nonce f = ssalt c @ PutUint64 (sseq c)" "sseq c1 = sseq c + 1"
    using any by auto
  then show ?case
  proof cases
    case same
    with IH show ?thesis by (intro exI [of _ fs] exI [of _ ks] exI [of _ "is"]) auto
  next
    case skip
    with IH up show ?thesis by (intro exI [of _ fs] exI [of _ ks] exI [of _ ?up]) auto
  next
    case packet
    with IH up show ?thesis
      by (intro exI [of _ "f # fs"] exI [of _ "k # ks"] exI [of _ "0 # ?up"]) (auto simp: on_wire_def)
  qed
qed

lemma send_attempts_fresh:
  assumes "sok c" "send_attempts send xs c w g = (c', w', g')" "length xs \<le> 2 ^ 64"
  shows "\<exists>fs ks. sent w' = sent w @ on_wire fs ks \<and> length ks = length fs \<and> distinct (map Nonce fs)"
proof -
  from send_attempts_numbers [OF assms(1,2)] obtain fs ks "is" where
    r: "sent w' = sent w @ on_wire fs ks" "length ks = length fs" "sorted_wrt (<) is" "set is \<subseteq> {..<length xs}"
    "map Nonce fs = map (\<lambda>i. ssalt c @ PutUint64 (sseq c + of_nat i)) is" by blast
  have "inj_on (\<lambda>i. ssalt c @ PutUint64 (sseq c + of_nat i)) (set is)"
    using inj_on_uint64 [of "set is" "sseq c"] r(4) assms(3) by (fastforce simp: inj_on_def)
  moreover have "distinct is" using r(3) by (simp add: strict_sorted_iff)
  ultimately have "distinct (map Nonce fs)" unfolding r(5) by (simp add: distinct_map)
  with r show ?thesis by blast
qed

end

section \<open>The receiver's contract\<close>

locale frame_receiver =
  fixes recv :: "byte \<Rightarrow> 'd \<Rightarrow> reader \<Rightarrow> ('f, bytes) result \<times> 'd \<times> reader"
    and rok :: "'d \<Rightarrow> bool"
    and rkey :: "'d \<Rightarrow> AEAD"
    and rdir :: "'d \<Rightarrow> byte"
    and expected :: "'d \<Rightarrow> uint64"
  assumes rok_cipher: "rok d \<Longrightarrow> cipher_ok (cipher (rkey d))"
    and recv_accepts: "rok d \<Longrightarrow> reader_ok r \<Longrightarrow> IsValidType typ \<Longrightarrow> length s = 4 \<Longrightarrow> fits (p, fill) \<Longrightarrow>
      reader_stream r = frame_packet (sealed_frame (rkey d) (rdir d) typ s (expected d) (envelope p @ fill)) @ rest \<Longrightarrow>
      \<exists>d' r'. recv typ d r = (Inr p, d', r') \<and> reader_stream r' = rest"
    and recv_only: "rok d \<Longrightarrow> reader_ok r \<Longrightarrow> recv typ d r = (Inr p, d', r') \<Longrightarrow>
      rok d' \<and> rkey d' = rkey d \<and> rdir d' = rdir d \<and> expected d' = expected d + 1 \<and>
      reader_ok r' \<and> reader_fin r' = reader_fin r \<and>
      (\<exists>s fill. length s = 4 \<and> fits (p, fill) \<and> IsValidType typ \<and>
        reader_stream r =
          frame_packet (sealed_frame (rkey d) (rdir d) typ s (expected d) (envelope p @ fill)) @ reader_stream r')"
begin

text \<open>Frames that arrive in order are all accepted.\<close>

lemma recv_frames_ok:
  assumes "rok d" "reader_ok r" "IsValidType typ" "length s = 4" "\<forall>x \<in> set xs. fits x"
    and "reader_stream r = concat (map frame_packet (sealed_seq (rkey d) (rdir d) typ s (expected d) xs)) @ rest"
  shows "\<exists>d' r'. recv_frames (recv typ) (length xs) d r = (map fst xs, d', r') \<and> reader_stream r' = rest \<and>
    rok d' \<and> reader_ok r' \<and> rkey d' = rkey d \<and> rdir d' = rdir d \<and> expected d' = expected d + of_nat (length xs) \<and>
    reader_fin r' = reader_fin r"
  using assms
proof (induction xs arbitrary: d r)
  case Nil
  then show ?case by simp
next
  case (Cons x xs)
  obtain p fill where x: "x = (p, fill)" by (cases x)
  have str: "reader_stream r = frame_packet (sealed_frame (rkey d) (rdir d) typ s (expected d) (envelope p @ fill)) @
      (concat (map frame_packet (sealed_seq (rkey d) (rdir d) typ s (expected d + 1) xs)) @ rest)"
    using Cons.prems(6) x by simp
  from recv_accepts [OF Cons.prems(1-4) _ str] Cons.prems(5) x obtain d1 r1 where
    one: "recv typ d r = (Inr p, d1, r1)"
    "reader_stream r1 = concat (map frame_packet (sealed_seq (rkey d) (rdir d) typ s (expected d + 1) xs)) @ rest"
    by auto
  note inv = recv_only [OF Cons.prems(1,2) one(1)]
  from Cons.IH [of d1 r1] Cons.prems(3-5) one(2) inv obtain d2 r2 where
    "recv_frames (recv typ) (length xs) d1 r1 = (map fst xs, d2, r2)" "reader_stream r2 = rest" "rok d2" "reader_ok r2"
    "rkey d2 = rkey d" "rdir d2 = rdir d" "expected d2 = expected d + 1 + of_nat (length xs)" "reader_fin r2 = reader_fin r"
    by auto
  with one(1) x show ?case by (simp add: add.assoc)
qed

text \<open>
  Whatever is accepted was a sealed frame of this key and direction, and the sequence numbers of the
  accepted frames are consecutive.
\<close>

lemma recv_frames_only:
  assumes "rok d" "reader_ok r" "recv_frames (recv typ) n d r = (ps, d', r')" "length ps = n"
  shows "\<exists>fs. length fs = n \<and> reader_stream r = concat (map frame_packet fs) @ reader_stream r' \<and>
    (\<forall>i < n. \<exists>s fill. length s = 4 \<and>
       fs ! i = sealed_frame (rkey d) (rdir d) typ s (expected d + of_nat i) (envelope (ps ! i) @ fill))"
  using assms
proof (induction n arbitrary: d r ps)
  case 0
  then show ?case by simp
next
  case (Suc n)
  from Suc.prems(3,4) obtain p d1 r1 ps1 where one: "recv typ d r = (Inr p, d1, r1)" and
    rec: "recv_frames (recv typ) n d1 r1 = (ps1, d', r')" and ps: "ps = p # ps1"
    by (auto split: prod.splits sum.splits)
  note inv = recv_only [OF Suc.prems(1,2) one]
  from inv obtain s fill where s: "length s = 4" and str: "reader_stream r =
      frame_packet (sealed_frame (rkey d) (rdir d) typ s (expected d) (envelope p @ fill)) @ reader_stream r1"
    by blast
  from Suc.IH [OF _ _ rec] inv Suc.prems(4) ps obtain fs where fs: "length fs = n"
    "reader_stream r1 = concat (map frame_packet fs) @ reader_stream r'" and
    all: "\<forall>i < n. \<exists>s fill. length s = 4 \<and>
       fs ! i = sealed_frame (rkey d) (rdir d) typ s (expected d + 1 + of_nat i) (envelope (ps1 ! i) @ fill)"
    by auto
  let ?f = "sealed_frame (rkey d) (rdir d) typ s (expected d) (envelope p @ fill)"
  have "\<exists>s fill. length s = 4 \<and> (?f # fs) ! i =
      sealed_frame (rkey d) (rdir d) typ s (expected d + of_nat i) (envelope (ps ! i) @ fill)" if "i < Suc n" for i
  proof (cases i)
    case 0
    with s ps show ?thesis by auto
  next
    case (Suc j)
    with all that ps show ?thesis by (auto simp: add.assoc)
  qed
  with fs str show ?case by (intro exI [of _ "?f # fs"]) simp
qed

text \<open>No frame is accepted twice in a run of at most \<open>2^64\<close> frames.\<close>

lemma recv_frames_no_replay:
  assumes "rok d" "reader_ok r" "recv_frames (recv typ) n d r = (ps, d', r')" "length ps = n" "n \<le> 2 ^ 64"
  shows "\<exists>fs. length fs = n \<and> reader_stream r = concat (map frame_packet fs) @ reader_stream r' \<and>
    map frame_seq fs = map (\<lambda>i. expected d + of_nat i) [0..<n] \<and> distinct fs \<and>
    (\<forall>i < n. \<exists>s fill. length s = 4 \<and>
       fs ! i = sealed_frame (rkey d) (rdir d) typ s (expected d + of_nat i) (envelope (ps ! i) @ fill))"
proof -
  from recv_frames_only [OF assms(1-4)] obtain fs where fs: "length fs = n"
    "reader_stream r = concat (map frame_packet fs) @ reader_stream r'" and
    all: "\<forall>i < n. \<exists>s fill. length s = 4 \<and>
       fs ! i = sealed_frame (rkey d) (rdir d) typ s (expected d + of_nat i) (envelope (ps ! i) @ fill)"
    by blast
  have seqs: "map frame_seq fs = map (\<lambda>i. expected d + of_nat i) [0..<n]"
    using fs(1) all by (intro nth_equalityI) auto
  have "inj_on (\<lambda>i. expected d + of_nat i) {0..<n}"
    using assms(5) by (intro inj_on_uint64) auto
  then have "distinct (map frame_seq fs)"
    unfolding seqs by (simp add: distinct_map)
  then have "distinct fs" by (simp add: distinct_map)
  with fs seqs all show ?thesis by blast
qed

end

section \<open>A sender and a receiver together\<close>

locale secure_link = frame_sender send sok skey sdir ssalt sseq slimit +
    frame_receiver recv rok rkey rdir expected
  for send :: "byte \<Rightarrow> 'c \<Rightarrow> bytes \<Rightarrow> writer \<Rightarrow> rng \<Rightarrow> 'e option \<times> 'c \<times> writer \<times> rng"
    and sok skey sdir ssalt sseq slimit
    and recv :: "byte \<Rightarrow> 'd \<Rightarrow> reader \<Rightarrow> ('f, bytes) result \<times> 'd \<times> reader"
    and rok rkey rdir expected
begin

text \<open>
  When the two ends agree on key, direction and sequence number, every payload sequence within the
  sender's limit is sent without an error and received unchanged, and the ends still agree.
\<close>

lemma transfer:
  assumes "sok c" "rok d" "skey c = rkey d" "sdir c = rdir d" "sseq c = expected d"
    and "IsValidType typ" "wplan w = []" "rng_fail g = None" "\<forall>p \<in> set ps. length p \<le> slimit c"
  obtains c' w' g' where "send_frames (send typ) ps c w g = (None, c', w', g')" "length (sent w') = length (sent w) + length ps"
    "sok c'" "skey c' = skey c" "sdir c' = sdir c" "wplan w' = []" "rng_fail g' = None" "slimit c' = slimit c"
    "\<And>r rest. reader_ok r \<Longrightarrow> reader_stream r = concat (drop (length (sent w)) (sent w')) @ rest \<Longrightarrow>
      \<exists>d' r'. recv_frames (recv typ) (length ps) d r = (ps, d', r') \<and> reader_stream r' = rest \<and> reader_ok r' \<and>
        rok d' \<and> rkey d' = rkey d \<and> rdir d' = rdir d \<and> sseq c' = expected d' \<and> reader_fin r' = reader_fin r"
proof -
  from send_frames_ok [OF assms(1,6-9)] obtain c' g' fills where len: "length fills = length ps" and
    fit: "\<forall>x \<in> set (zip ps fills). fits x" and
    snd: "send_frames (send typ) ps c w g =
      (None, c', w\<lparr>sent := sent w @ map frame_packet (sealed_seq (skey c) (sdir c) typ (ssalt c) (sseq c) (zip ps fills))\<rparr>, g')" and
    c': "rng_fail g' = None" "sok c'" "skey c' = skey c" "sdir c' = sdir c" "sseq c' = sseq c + of_nat (length ps)" "slimit c' = slimit c"
    by blast
  have salt: "length (ssalt c) = 4" using sok_cipher [OF assms(1)] by simp
  show ?thesis
  proof (rule that [OF snd _ c'(2-4) _ c'(1,6)])
    fix r rest
    assume r: "reader_ok r" and str: "reader_stream r = concat (drop (length (sent w)) (sent
      (w\<lparr>sent := sent w @ map frame_packet (sealed_seq (skey c) (sdir c) typ (ssalt c) (sseq c) (zip ps fills))\<rparr>))) @ rest"
    have "reader_stream r = concat (map frame_packet (sealed_seq (rkey d) (rdir d) typ (ssalt c) (expected d) (zip ps fills))) @ rest"
      using str assms(3-5) by simp
    from recv_frames_ok [OF assms(2) r assms(6) salt fit this] len c'(5) assms(5)
    show "\<exists>d' r'. recv_frames (recv typ) (length ps) d r = (ps, d', r') \<and> reader_stream r' = rest \<and> reader_ok r' \<and>
        rok d' \<and> rkey d' = rkey d \<and> rdir d' = rdir d \<and> sseq c' = expected d' \<and> reader_fin r' = reader_fin r"
      by (auto simp: len)
  qed (use assms(7) len in simp_all)
qed

end

end
