(* ===== verification/Go_Net.thy ===== *)
theory Go_Net
  imports Go_Prelude
begin

text \<open>
  The parts of the Go standard library that the program uses on addresses: \<^verbatim>\<open>net.SplitHostPort\<close>,
  \<^verbatim>\<open>net.JoinHostPort\<close>, \<^verbatim>\<open>strconv.Atoi\<close>, \<^verbatim>\<open>strconv.Itoa\<close>, the emptiness test on
  \<^verbatim>\<open>strings.TrimSpace\<close>, \<^verbatim>\<open>net.ParseIP\<close>, \<^verbatim>\<open>net.IP.String\<close>, the address classes of
  \<^verbatim>\<open>net.IP\<close> and \<^verbatim>\<open>net.ParseCIDR\<close>.  An IP address is a byte string of length 4 or 16, as in
  Go.
\<close>

section \<open>Strings and numbers\<close>

fun IndexByte :: "char \<Rightarrow> string \<Rightarrow> nat option" where
  "IndexByte c [] = None"
| "IndexByte c (x # xs) = (if x = c then Some 0 else map_option Suc (IndexByte c xs))"

definition LastIndexByte :: "char \<Rightarrow> string \<Rightarrow> nat option" where
  "LastIndexByte c s = map_option (\<lambda>i. length s - 1 - i) (IndexByte c (rev s))"

lemma IndexByte_None [simp]: "IndexByte c s = None \<longleftrightarrow> c \<notin> set s"
  by (induction s) auto

lemma IndexByte_Some:
  "IndexByte c s = Some i \<longleftrightarrow> i < length s \<and> s ! i = c \<and> c \<notin> set (take i s)"
proof (induction s arbitrary: i)
  case Nil
  then show ?case by simp
next
  case (Cons x xs)
  then show ?case by (cases i) auto
qed

lemma IndexByte_append: "c \<notin> set xs \<Longrightarrow> IndexByte c (xs @ c # ys) = Some (length xs)"
  by (simp add: IndexByte_Some)

lemma LastIndexByte_append: "c \<notin> set ys \<Longrightarrow> LastIndexByte c (xs @ c # ys) = Some (length xs)"
  by (simp add: LastIndexByte_def IndexByte_append)

lemma LastIndexByte_Some:
  assumes "LastIndexByte c s = Some i"
  shows "s = take i s @ c # drop (Suc i) s \<and> c \<notin> set (drop (Suc i) s) \<and> i < length s"
proof -
  from assms obtain j where j: "IndexByte c (rev s) = Some j" and i: "i = length s - 1 - j"
    by (auto simp: LastIndexByte_def)
  from j have "j < length s" and c: "s ! i = c" and notin: "c \<notin> set (take j (rev s))"
    using i by (auto simp: IndexByte_Some rev_nth)
  then have len: "i < length s" and "drop (Suc i) s = rev (take j (rev s))"
    using i by (simp_all add: rev_take Suc_diff_Suc)
  with notin id_take_nth_drop [OF len] c show ?thesis by simp
qed

definition is_digit :: "char \<Rightarrow> bool" where
  "is_digit c \<longleftrightarrow> 48 \<le> (of_char c :: nat) \<and> (of_char c :: nat) \<le> 57"

definition digit_value :: "char \<Rightarrow> nat" where
  "digit_value c = of_char c - 48"

text \<open>\<^verbatim>\<open>strconv.Atoi\<close>: an optional sign, decimal digits, in the range of a 64-bit integer.\<close>

definition Atoi :: "string \<Rightarrow> int option" where
  "Atoi s =
     (let neg = (s \<noteq> [] \<and> hd s = CHR ''-'');
          digits = (if s \<noteq> [] \<and> (hd s = CHR ''-'' \<or> hd s = CHR ''+'') then tl s else s);
          value = foldl (\<lambda>acc c. 10 * acc + int (digit_value c)) 0 digits
      in if digits = [] \<or> \<not> list_all is_digit digits then None
         else if neg then (if value \<le> 2 ^ 63 then Some (- value) else None)
         else (if value < 2 ^ 63 then Some value else None))"

fun Itoa :: "nat \<Rightarrow> string" where
  "Itoa n = (if n < 10 then [char_of (48 + n)] else Itoa (n div 10) @ [char_of (48 + n mod 10)])"

declare Itoa.simps [simp del]

lemma digit_char [simp]:
  assumes "d < 10"
  shows "is_digit (char_of (48 + d))" "digit_value (char_of (48 + d)) = d"
  using assms by (simp_all add: is_digit_def digit_value_def)

lemma Itoa_digits: "list_all is_digit (Itoa n) \<and> Itoa n \<noteq> []"
proof (induction n rule: Itoa.induct)
  case (1 n)
  then show ?case by (cases "n < 10") (simp_all add: Itoa.simps [of n])
qed

lemma Itoa_value: "foldl (\<lambda>acc c. 10 * acc + int (digit_value c)) 0 (Itoa n) = int n"
proof (induction n rule: Itoa.induct)
  case (1 n)
  have "10 * int (n div 10) + int (n mod 10) = int n" by presburger
  with 1 show ?case by (cases "n < 10") (simp_all add: Itoa.simps [of n])
qed

lemma digit_not_punct:
  assumes "list_all is_digit s" "c \<in> {CHR '':'', CHR ''['', CHR '']'', CHR ''.'', CHR ''-'', CHR ''+'', CHR ''%''}"
  shows "c \<notin> set s"
  using assms by (auto simp: list_all_iff is_digit_def)

lemma Atoi_Itoa [simp]:
  assumes "n < 2 ^ 63"
  shows "Atoi (Itoa n) = Some (int n)"
proof -
  have digits: "list_all is_digit (Itoa n)" "Itoa n \<noteq> []"
    using Itoa_digits by blast+
  have hd: "hd (Itoa n) \<noteq> CHR ''-''" "hd (Itoa n) \<noteq> CHR ''+''"
    using digit_not_punct [OF digits(1)] hd_in_set [OF digits(2)] by (metis insertCI)+
  have "int n < 2 ^ 63" using assms by simp
  with hd digits show ?thesis by (simp add: Atoi_def Let_def Itoa_value)
qed

text \<open>
  Whether \<^verbatim>\<open>strings.TrimSpace(s)\<close> is empty: \<open>s\<close> consists of white space only.  The white-space
  code points beyond ASCII appear by their UTF-8 encodings.
\<close>

definition ascii_spaces :: "nat list" where
  "ascii_spaces = [9, 10, 11, 12, 13, 32]"

definition unicode_spaces :: "nat list list" where
  "unicode_spaces =
     [[0xC2, 0x85], [0xC2, 0xA0], [0xE1, 0x9A, 0x80]]
     @ map (\<lambda>b. [0xE2, 0x80, b]) [0x80, 0x81, 0x82, 0x83, 0x84, 0x85, 0x86, 0x87, 0x88, 0x89, 0x8A, 0xA8, 0xA9, 0xAF]
     @ [[0xE2, 0x81, 0x9F], [0xE3, 0x80, 0x80]]"

fun all_space :: "nat list \<Rightarrow> bool" where
  "all_space [] = True"
| "all_space (c # s) =
     (if c \<in> set ascii_spaces then all_space s
      else if length s \<ge> 1 \<and> take 2 (c # s) \<in> set unicode_spaces then all_space (drop 1 s)
      else if length s \<ge> 2 \<and> take 3 (c # s) \<in> set unicode_spaces then all_space (drop 2 s)
      else False)"

definition TrimSpace_empty :: "string \<Rightarrow> bool" where
  "TrimSpace_empty s = all_space (map of_char s)"

section \<open>Host and port\<close>

datatype addr_error =
    MissingPort
  | TooManyColons
  | MissingCloseBracket
  | UnexpectedOpenBracket
  | UnexpectedCloseBracket

definition SplitHostPort :: "string \<Rightarrow> (addr_error, string \<times> string) result" where
  "SplitHostPort hostport =
     (case LastIndexByte (CHR '':'') hostport of
        None \<Rightarrow> Inl MissingPort
      | Some i \<Rightarrow>
          let finish = (\<lambda>host j k.
                if IndexByte (CHR ''['') (drop j hostport) \<noteq> None then Inl UnexpectedOpenBracket
                else if IndexByte (CHR '']'') (drop k hostport) \<noteq> None then Inl UnexpectedCloseBracket
                else Inr (host, drop (i + 1) hostport))
          in if hostport ! 0 = CHR ''['' then
               (case IndexByte (CHR '']'') hostport of
                  None \<Rightarrow> Inl MissingCloseBracket
                | Some en \<Rightarrow>
                    if en + 1 = length hostport then Inl MissingPort
                    else if en + 1 = i then finish (take (en - 1) (drop 1 hostport)) 1 (en + 1)
                    else if hostport ! (en + 1) = CHR '':'' then Inl TooManyColons
                    else Inl MissingPort)
             else
               (let host = take i hostport
                in if IndexByte (CHR '':'') host \<noteq> None then Inl TooManyColons
                   else finish host 0 0))"

definition JoinHostPort :: "string \<Rightarrow> string \<Rightarrow> string" where
  "JoinHostPort host port =
     (if IndexByte (CHR '':'') host \<noteq> None then ''['' @ host @ '']:'' @ port
      else host @ '':'' @ port)"

lemma SplitHostPort_JoinHostPort:
  assumes "set host \<inter> {CHR ''['', CHR '']''} = {}" "set port \<inter> {CHR '':'', CHR ''['', CHR '']''} = {}"
  shows "SplitHostPort (JoinHostPort host port) = Inr (host, port)"
proof (cases "CHR '':'' \<in> set host")
  case True
  have "LastIndexByte (CHR '':'') ((CHR ''['' # host @ [CHR '']'']) @ CHR '':'' # port) = Some (length host + 2)"
    using assms(2) by (subst LastIndexByte_append) auto
  moreover have "IndexByte (CHR '']'') ((CHR ''['' # host) @ CHR '']'' # CHR '':'' # port) = Some (length host + 1)"
    using assms(1) by (subst IndexByte_append) auto
  ultimately show ?thesis
    using True assms by (auto simp: SplitHostPort_def JoinHostPort_def Let_def)
next
  case False
  have "LastIndexByte (CHR '':'') (host @ CHR '':'' # port) = Some (length host)"
    using assms(2) by (subst LastIndexByte_append) auto
  moreover have "(host @ CHR '':'' # port) ! 0 \<noteq> CHR ''[''"
    using assms(1) by (cases host) auto
  ultimately show ?thesis
    using False assms by (auto simp: SplitHostPort_def JoinHostPort_def Let_def)
qed

end
