(* ===== verification/Data_Channel.thy ===== *)
theory Data_Channel
  imports Secure_Channel Go_Net
begin

text \<open>
  Package \<^verbatim>\<open>transport\<close>, the data channel (\<^verbatim>\<open>src/pkg/transport/data.go\<close>) and the connection
  request (\<^verbatim>\<open>src/pkg/transport/open.go\<close>).  A channel is used in both directions; the client uses
  it with \<open>sendDirection = 1\<close> and \<open>receiveDirection = 2\<close>.

  \<open>WriteDataFrame\<close> and \<open>WriteConnectFrame\<close> run the same steps after their guards (encode, pad, next
  nonce, seal, write): \<open>channel_send\<close>; the two readers share \<open>channel_receive\<close>.  The channel is
  proved to be a \<open>frame_sender\<close> and a \<open>frame_receiver\<close>.
\<close>

section \<open>data.go\<close>

text \<open>
  The pointers of the Go struct are options.  Jitter only delays a write; \<open>delay\<close> is its length in
  milliseconds for a draw of the random generator.
\<close>

record DataChannel =
  channel_AEAD :: "AEAD option"
  ReceiveAEAD :: "AEAD option"
  SendNonces :: "NonceCounter option"
  sendDirection :: byte
  receiveDirection :: byte
  receiveSequence :: uint64
  directional :: bool
  PaddingEnabled :: bool
  JitterMS :: int

datatype transport_error =
    ChannelNotInitialized
  | WriterNil
  | ReaderNil
  | CreateAEADErr crypto_error
  | CreateNoncesErr nonce_error
  | EncodeErr payload_error
  | PadErr padding_error
  | SealErr crypto_error
  | WriteErr frame_error
  | ReadErr frame_error
  | UnexpectedFrameType byte
  | UnexpectedSequence uint64 uint64
  | OpenErr crypto_error
  | UnpadErr padding_error
  | DecodeErr payload_error
  | NilPointerPanic
  | TargetEmpty
  | TargetTooLong
  | InvalidTarget addr_error
  | TargetHostEmpty
  | InvalidTargetPort string
  | TargetPortOutOfRange int

definition NewDataChannel :: "crypto_lib \<Rightarrow> bytes \<Rightarrow> rng \<Rightarrow> (transport_error, DataChannel) result \<times> rng" where
  "NewDataChannel L key g =
     (case NewAEAD L key of
        Inl e \<Rightarrow> (Inl (CreateAEADErr e), g)
      | Inr aead \<Rightarrow>
          (case NewNonceCounter g of
             (Inl e, g') \<Rightarrow> (Inl (CreateNoncesErr e), g')
           | (Inr nonces, g') \<Rightarrow>
               (Inr \<lparr>channel_AEAD = Some aead, ReceiveAEAD = Some aead, SendNonces = Some nonces,
                     sendDirection = 0, receiveDirection = 0, receiveSequence = 0,
                     directional = False, PaddingEnabled = True, JitterMS = 0\<rparr>, g')))"

definition SetTrafficOptions :: "DataChannel option \<Rightarrow> bool \<Rightarrow> int \<Rightarrow> DataChannel option" where
  "SetTrafficOptions dp paddingEnabled jitterMS =
     (case dp of
        None \<Rightarrow> None
      | Some d \<Rightarrow>
          (let d' = d\<lparr>PaddingEnabled := paddingEnabled\<rparr>
           in Some (if jitterMS > 0 then d'\<lparr>JitterMS := jitterMS\<rparr> else d')))"

definition delay :: "DataChannel \<Rightarrow> nat \<Rightarrow> int" where
  "delay d draw = (if JitterMS d > 0 then int draw mod (JitterMS d + 1) else 0)"

definition NewDirectionalDataChannel ::
  "crypto_lib \<Rightarrow> bytes \<Rightarrow> bytes \<Rightarrow> byte \<Rightarrow> byte \<Rightarrow> rng \<Rightarrow> (transport_error, DataChannel) result \<times> rng" where
  "NewDirectionalDataChannel L sendKey receiveKey sendDir receiveDir g =
     (case NewDataChannel L sendKey g of
        (Inl e, g') \<Rightarrow> (Inl e, g')
      | (Inr d, g') \<Rightarrow>
          (case NewAEAD L receiveKey of
             Inl e \<Rightarrow> (Inl (CreateAEADErr e), g')
           | Inr r \<Rightarrow>
               (Inr (d\<lparr>ReceiveAEAD := Some r, sendDirection := sendDir, receiveDirection := receiveDir,
                       directional := True\<rparr>), g')))"

definition channel_aad :: "DataChannel \<Rightarrow> byte \<Rightarrow> byte \<Rightarrow> bytes \<Rightarrow> bytes" where
  "channel_aad d t direction nonce =
     (if \<not> directional d then [t] else [t, direction] @ drop 4 nonce)"

definition checkSequence :: "DataChannel \<Rightarrow> bytes \<Rightarrow> transport_error option \<times> DataChannel" where
  "checkSequence d nonce =
     (if \<not> directional d then (None, d)
      else
        (let n = Uint64 (drop 4 nonce)
         in if n \<noteq> receiveSequence d then (Some (UnexpectedSequence n (receiveSequence d)), d)
            else (None, d\<lparr>receiveSequence := receiveSequence d + 1\<rparr>)))"

text \<open>The steps of a write after the guards: encode, pad, next nonce, seal, write.\<close>

definition channel_send ::
  "byte \<Rightarrow> DataChannel \<Rightarrow> AEAD \<Rightarrow> NonceCounter \<Rightarrow> bytes \<Rightarrow> writer \<Rightarrow> rng \<Rightarrow>
   transport_error option \<times> DataChannel \<times> writer \<times> rng" where
  "channel_send t d aead nonces payload w g =
     (case EncodePayload payload of
        Inl e \<Rightarrow> (Some (EncodeErr e), d, w, g)
      | Inr env \<Rightarrow>
          (case (if PaddingEnabled d then Pad env (int (Overhead aead)) g else (Inr env, g)) of
             (Inl e, g') \<Rightarrow> (Some (PadErr e), d, w, g')
           | (Inr padded, g') \<Rightarrow>
               let (nonce, nonces') = Next nonces;
                   d' = d\<lparr>SendNonces := Some nonces'\<rparr>
               in (case Seal aead nonce padded (channel_aad d t (sendDirection d) nonce) of
                     Inl e \<Rightarrow> (Some (SealErr e), d', w, g')
                   | Inr ciphertext \<Rightarrow>
                       (case WriteFrame (Some \<lparr>Type = t, Nonce = nonce, Ciphertext = ciphertext\<rparr>) w of
                          (Some e, w') \<Rightarrow> (Some (WriteErr e), d', w', g')
                        | (None, w') \<Rightarrow> (None, d', w', g')))))"

definition WriteDataFrame ::
  "DataChannel option \<Rightarrow> writer option \<Rightarrow> bytes \<Rightarrow> rng \<Rightarrow>
   transport_error option \<times> DataChannel option \<times> writer option \<times> rng" where
  "WriteDataFrame dp wp payload g =
     (case dp of
        None \<Rightarrow> (Some ChannelNotInitialized, dp, wp, g)
      | Some d \<Rightarrow>
          (case (channel_AEAD d, SendNonces d) of
             (Some aead, Some nonces) \<Rightarrow>
               (case wp of
                  None \<Rightarrow> (Some WriterNil, dp, wp, g)
                | Some w \<Rightarrow>
                    (let (err, d', w', g') = channel_send TypeDataPayload d aead nonces payload w g
                     in (err, Some d', Some w', g')))
           | _ \<Rightarrow> (Some ChannelNotInitialized, dp, wp, g)))"

text \<open>
  The steps of a read after the guards.  The sequence number is checked and counted before the
  ciphertext is opened.
\<close>

definition channel_receive ::
  "byte \<Rightarrow> DataChannel \<Rightarrow> reader \<Rightarrow> (transport_error, bytes) result \<times> DataChannel \<times> reader" where
  "channel_receive t d r =
     (case ReadFrame r of
        (Inl e, r') \<Rightarrow> (Inl (ReadErr e), d, r')
      | (Inr f, r') \<Rightarrow>
          if Type f \<noteq> t then (Inl (UnexpectedFrameType (Type f)), d, r')
          else
            (case checkSequence d (Nonce f) of
               (Some e, d') \<Rightarrow> (Inl e, d', r')
             | (None, d') \<Rightarrow>
                 (case ReceiveAEAD d' of
                    None \<Rightarrow> (Inl NilPointerPanic, d', r')
                  | Some a \<Rightarrow>
                      (case Open a (Nonce f) (Ciphertext f)
                              (channel_aad d' (Type f) (receiveDirection d') (Nonce f)) of
                         Inl e \<Rightarrow> (Inl (OpenErr e), d', r')
                       | Inr opened \<Rightarrow>
                           (case Unpad opened of
                              Inl e \<Rightarrow> (Inl (UnpadErr e), d', r')
                            | Inr env \<Rightarrow>
                                (case DecodePayload env of
                                   Inl e \<Rightarrow> (Inl (DecodeErr e), d', r')
                                 | Inr payload \<Rightarrow> (Inr payload, d', r')))))))"

definition ReadDataFrame ::
  "DataChannel option \<Rightarrow> reader option \<Rightarrow>
   (transport_error, bytes) result \<times> DataChannel option \<times> reader option" where
  "ReadDataFrame dp rp =
     (case dp of
        None \<Rightarrow> (Inl ChannelNotInitialized, dp, rp)
      | Some d \<Rightarrow>
          if channel_AEAD d = None then (Inl ChannelNotInitialized, dp, rp)
          else
            (case rp of
               None \<Rightarrow> (Inl ReaderNil, dp, rp)
             | Some r \<Rightarrow>
                 (let (res, d', r') = channel_receive TypeDataPayload d r
                  in (res, Some d', Some r'))))"

section \<open>open.go\<close>

definition MaxTargetAddressLen :: nat where "MaxTargetAddressLen = 1024"

definition validateTarget :: "string \<Rightarrow> transport_error option" where
  "validateTarget target =
     (if target = '''' then Some TargetEmpty
      else if length target > MaxTargetAddressLen then Some TargetTooLong
      else
        (case SplitHostPort target of
           Inl e \<Rightarrow> Some (InvalidTarget e)
         | Inr (host, portString) \<Rightarrow>
             if TrimSpace_empty host then Some TargetHostEmpty
             else
               (case Atoi portString of
                  None \<Rightarrow> Some (InvalidTargetPort portString)
                | Some port \<Rightarrow>
                    if port < 1 \<or> port > 65535 then Some (TargetPortOutOfRange port) else None)))"

definition WriteConnectFrame ::
  "DataChannel option \<Rightarrow> writer option \<Rightarrow> string \<Rightarrow> rng \<Rightarrow>
   transport_error option \<times> DataChannel option \<times> writer option \<times> rng" where
  "WriteConnectFrame dp wp target g =
     (case dp of
        None \<Rightarrow> (Some ChannelNotInitialized, dp, wp, g)
      | Some d \<Rightarrow>
          (case (channel_AEAD d, SendNonces d) of
             (Some aead, Some nonces) \<Rightarrow>
               (case wp of
                  None \<Rightarrow> (Some WriterNil, dp, wp, g)
                | Some w \<Rightarrow>
                    (case validateTarget target of
                       Some e \<Rightarrow> (Some e, dp, wp, g)
                     | None \<Rightarrow>
                         (let (err, d', w', g') =
                                channel_send TypeConnOpen d aead nonces (bytes_of_string target) w g
                          in (err, Some d', Some w', g'))))
           | _ \<Rightarrow> (Some ChannelNotInitialized, dp, wp, g)))"

definition ReadConnectFrame ::
  "DataChannel option \<Rightarrow> reader option \<Rightarrow>
   (transport_error, string) result \<times> DataChannel option \<times> reader option" where
  "ReadConnectFrame dp rp =
     (case dp of
        None \<Rightarrow> (Inl ChannelNotInitialized, dp, rp)
      | Some d \<Rightarrow>
          if channel_AEAD d = None then (Inl ChannelNotInitialized, dp, rp)
          else
            (case rp of
               None \<Rightarrow> (Inl ReaderNil, dp, rp)
             | Some r \<Rightarrow>
                 (case channel_receive TypeConnOpen d r of
                    (Inl e, d', r') \<Rightarrow> (Inl e, Some d', Some r')
                  | (Inr payload, d', r') \<Rightarrow>
                      (let target = string_of_bytes payload
                       in case validateTarget target of
                            Some e \<Rightarrow> (Inl e, Some d', Some r')
                          | None \<Rightarrow> (Inr target, Some d', Some r')))))"

section \<open>The channel keeps the contract of both ends\<close>

definition channel_ok :: "DataChannel \<Rightarrow> bool" where
  "channel_ok d \<longleftrightarrow> directional d \<and>
     (case (channel_AEAD d, ReceiveAEAD d, SendNonces d) of
        (Some a, Some b, Some nc) \<Rightarrow> cipher_ok (cipher a) \<and> cipher_ok (cipher b) \<and> wf_nonces nc
      | _ \<Rightarrow> False)"

definition dc_send ::
  "byte \<Rightarrow> DataChannel \<Rightarrow> bytes \<Rightarrow> writer \<Rightarrow> rng \<Rightarrow> transport_error option \<times> DataChannel \<times> writer \<times> rng" where
  "dc_send t d p w g = channel_send t d (the (channel_AEAD d)) (the (SendNonces d)) p w g"

lemma channel_okE:
  assumes "channel_ok d"
  obtains a b nc where "channel_AEAD d = Some a" "ReceiveAEAD d = Some b" "SendNonces d = Some nc"
    "cipher_ok (cipher a)" "cipher_ok (cipher b)" "wf_nonces nc" "directional d"
  using assms by (auto simp: channel_ok_def split: option.splits)

lemma channel_ok_sent:
  "channel_ok d \<Longrightarrow> wf_nonces nc \<Longrightarrow> channel_ok (d\<lparr>SendNonces := Some nc\<rparr>)"
  by (auto simp: channel_ok_def split: option.splits)

lemma channel_ok_received: "channel_ok (d\<lparr>receiveSequence := k\<rparr>) = channel_ok d"
  by (simp add: channel_ok_def)

lemma channel_send_ok:
  assumes "channel_ok d" "channel_AEAD d = Some a" "SendNonces d = Some nc" "IsValidType t" "wplan w = []"
    "rng_fail g = None" "length p \<le> payload_limit (PaddingEnabled d)"
  shows "\<exists>g' fill. channel_send t d a nc p w g =
      (None, d\<lparr>SendNonces := Some (nc\<lparr>counter := counter nc + 1\<rparr>)\<rparr>,
       w\<lparr>sent := sent w @ [frame_packet (sealed_frame a (sendDirection d) t (salt nc) (counter nc) (envelope p @ fill))]\<rparr>, g') \<and>
    fits (p, fill) \<and> rng_fail g' = None \<and>
    (PaddingEnabled d \<longrightarrow> length (envelope p @ fill) + 16 \<in> {512, 1024, 1460})"
proof -
  have ok: "cipher_ok (cipher a)" "wf_nonces nc" "directional d"
    using assms(1-3) by (auto elim!: channel_okE)
  then have s4: "length (salt nc) = 4" by (simp add: wf_nonces_def)
  have enc: "EncodePayload p = Inr (envelope p)"
    using assms(7) by (intro EncodePayload_envelope) (simp add: payload_limit_def MaxPayloadLen_def split: if_splits)
  from pad_step [OF ok(1) assms(6,7)] obtain fill g' where
    pad: "(if PaddingEnabled d then Pad (envelope p) (int (Overhead a)) g else (Inr (envelope p), g)) =
      (Inr (envelope p @ fill), g')" and g': "rng_fail g' = None" and fit: "fits (p, fill)" and
    size: "PaddingEnabled d \<longrightarrow> length (envelope p @ fill) + 16 \<in> {512, 1024, 1460}" by blast
  let ?f = "sealed_frame a (sendDirection d) t (salt nc) (counter nc) (envelope p @ fill)"
  have "sendable ?f"
    using fit sealed_frame_sendable [OF ok(1) s4 assms(4)] by (simp add: fits_def)
  then have wr: "WriteFrame (Some ?f) w = (None, w\<lparr>sent := sent w @ [frame_packet ?f]\<rparr>)"
    using assms(5) by (rule WriteFrame_ok)
  have seal: "Seal a (salt nc @ PutUint64 (counter nc)) (envelope p @ fill)
      (channel_aad d t (sendDirection d) (salt nc @ PutUint64 (counter nc))) = Inr (Ciphertext ?f)"
    using s4 ok(3) by (simp add: Seal_Inr sealed_frame_def channel_aad_def NonceSize_def)
  have "channel_send t d a nc p w g =
      (None, d\<lparr>SendNonces := Some (nc\<lparr>counter := counter nc + 1\<rparr>)\<rparr>, w\<lparr>sent := sent w @ [frame_packet ?f]\<rparr>, g')"
    unfolding channel_send_def enc sum.case pad prod.case Next_eq Let_def seal
    using wr by (simp add: sealed_frame_def)
  with fit g' size show ?thesis by blast
qed

lemma channel_send_any:
  assumes "channel_send t d a nc p w g = (err, d', w', g')"
  shows "d' = d \<and> w' = w \<or> d' = d\<lparr>SendNonces := Some (nc\<lparr>counter := counter nc + 1\<rparr>)\<rparr> \<and>
    (sent w' = sent w \<or>
     (\<exists>f k. sent w' = sent w @ [take k (frame_packet f)] \<and> Nonce f = salt nc @ PutUint64 (counter nc)))"
proof -
  have wr: "sent v = sent w \<or> (\<exists>k. sent v = sent w @ [take k (frame_packet f)])"
    if "WriteFrame (Some f) w = (e, v)" for f e v
    using WriteFrame_any [OF that] .
  show ?thesis
    using assms
    by (auto simp: channel_send_def Next_eq Let_def split: sum.splits prod.splits option.splits dest!: wr)
qed

interpretation dcs: frame_sender dc_send channel_ok "\<lambda>d. the (channel_AEAD d)" sendDirection
  "\<lambda>d. salt (the (SendNonces d))" "\<lambda>d. counter (the (SendNonces d))" "\<lambda>d. payload_limit (PaddingEnabled d)"
proof
  fix d
  assume "channel_ok d"
  then show "cipher_ok (cipher (the (channel_AEAD d))) \<and> length (salt (the (SendNonces d))) = 4"
    by (auto simp: wf_nonces_def elim!: channel_okE)
next
  fix d t and w :: writer and g :: rng and p :: bytes
  assume h: "channel_ok d" "IsValidType t" "wplan w = []" "rng_fail g = None" "length p \<le> payload_limit (PaddingEnabled d)"
  obtain a nc where d: "channel_AEAD d = Some a" "SendNonces d = Some nc" "wf_nonces nc"
    using h(1) by (auto elim!: channel_okE)
  have nc: "wf_nonces (nc\<lparr>counter := counter nc + 1\<rparr>)" using d(3) by (simp add: wf_nonces_def)
  from channel_send_ok [OF h(1) d(1,2) h(2-5)] channel_ok_sent [OF h(1) nc] d
  show "\<exists>d' g' fill. dc_send t d p w g = (None, d', w\<lparr>sent := sent w @ [frame_packet
          (sealed_frame (the (channel_AEAD d)) (sendDirection d) t (salt (the (SendNonces d)))
            (counter (the (SendNonces d))) (envelope p @ fill))]\<rparr>, g') \<and>
        fits (p, fill) \<and> rng_fail g' = None \<and> channel_ok d' \<and> the (channel_AEAD d') = the (channel_AEAD d) \<and>
        sendDirection d' = sendDirection d \<and> salt (the (SendNonces d')) = salt (the (SendNonces d)) \<and>
        counter (the (SendNonces d')) = counter (the (SendNonces d)) + 1 \<and>
        payload_limit (PaddingEnabled d') = payload_limit (PaddingEnabled d)"
    by (simp add: dc_send_def) (elim exE conjE, intro exI conjI, assumption, simp_all)
next
  fix d t err d' g' and p :: bytes and w w' :: writer and g :: rng
  assume h: "channel_ok d" "dc_send t d p w g = (err, d', w', g')"
  obtain a nc where d: "channel_AEAD d = Some a" "SendNonces d = Some nc" "wf_nonces nc"
    using h(1) by (auto elim!: channel_okE)
  have nc: "wf_nonces (nc\<lparr>counter := counter nc + 1\<rparr>)" using d(3) by (simp add: wf_nonces_def)
  from channel_send_any [of t d a nc p w g err d' w' g'] channel_ok_sent [OF h(1) nc] h d
  show "channel_ok d' \<and> salt (the (SendNonces d')) = salt (the (SendNonces d)) \<and>
      (sent w' = sent w \<and> (counter (the (SendNonces d')) = counter (the (SendNonces d)) \<or>
         counter (the (SendNonces d')) = counter (the (SendNonces d)) + 1) \<or>
       (\<exists>f k. sent w' = sent w @ [take k (frame_packet f)] \<and>
          Nonce f = salt (the (SendNonces d)) @ PutUint64 (counter (the (SendNonces d))) \<and>
          counter (the (SendNonces d')) = counter (the (SendNonces d)) + 1))"
    by (auto simp: dc_send_def)
qed

text \<open>A receive succeeds exactly on the frame with the expected number.\<close>

lemma channel_receive_accepts:
  assumes "channel_ok d" "ReceiveAEAD d = Some a" "reader_ok r" "IsValidType t" "length s = 4" "fits (p, fill)"
    and "reader_stream r =
      frame_packet (sealed_frame a (receiveDirection d) t s (receiveSequence d) (envelope p @ fill)) @ rest"
  shows "\<exists>r'. channel_receive t d r = (Inr p, d\<lparr>receiveSequence := receiveSequence d + 1\<rparr>, r') \<and> reader_stream r' = rest"
proof -
  let ?f = "sealed_frame a (receiveDirection d) t s (receiveSequence d) (envelope p @ fill)"
  have ok: "cipher_ok (cipher a)" "directional d" using assms(1,2) by (auto elim!: channel_okE)
  have p: "length p \<le> MaxPayloadLen" using assms(6) by (rule fits_payload)
  have "sendable ?f"
    using assms(6) sealed_frame_sendable [OF ok(1) assms(5,4)] by (simp add: fits_def)
  then have "parse_frame (reader_stream r) = Some (?f, rest)"
    using assms(7) by (simp add: parse_frame_packet)
  from ReadFrame_parses [OF assms(3) this] obtain r' where
    r': "ReadFrame r = (Inr ?f, r')" "reader_stream r' = rest" by blast
  have "Open a (Nonce ?f) (Ciphertext ?f) ([t, receiveDirection d] @ PutUint64 (receiveSequence d)) = Inr (envelope p @ fill)"
    using ok(1) assms(5) by (simp add: Open_Seal_iff Seal_Inr sealed_frame_def NonceSize_def)
  then show ?thesis
    using r' assms(2,5) ok(2)
    by (simp add: channel_receive_def checkSequence_def channel_aad_def sealed_frame_def
        Unpad_envelope DecodePayload_envelope p)
qed

lemma channel_receive_only:
  assumes "channel_ok d" "ReceiveAEAD d = Some a" "reader_ok r" "channel_receive t d r = (Inr p, d', r')"
  shows "d' = d\<lparr>receiveSequence := receiveSequence d + 1\<rparr> \<and> reader_ok r' \<and> reader_fin r' = reader_fin r \<and>
    (\<exists>s fill. length s = 4 \<and> fits (p, fill) \<and> IsValidType t \<and>
      reader_stream r =
        frame_packet (sealed_frame a (receiveDirection d) t s (receiveSequence d) (envelope p @ fill)) @ reader_stream r')"
proof -
  have ok: "cipher_ok (cipher a)" "directional d" using assms(1,2) by (auto elim!: channel_okE)
  from assms(4) obtain f opened env where
    rf: "ReadFrame r = (Inr f, r')" and t: "Type f = t" and cs: "checkSequence d (Nonce f) = (None, d')" and
    op: "Open a (Nonce f) (Ciphertext f) (channel_aad d' t (receiveDirection d') (Nonce f)) = Inr opened" and
    un: "Unpad opened = Inr env" "DecodePayload env = Inr p"
    using assms(2) by (auto simp: channel_receive_def checkSequence_def Let_def split: prod.splits sum.splits if_splits option.splits)
  note inr = ReadFrame_Inr [OF assms(3) rf]
  from inr have "length (Nonce f) = NonceSize" by (simp add: sendable_def wf_frame_def)
  from nonce_split [OF this] obtain s k where s: "length s = 4" "Nonce f = s @ PutUint64 k" by blast
  have d': "k = receiveSequence d" "d' = d\<lparr>receiveSequence := receiveSequence d + 1\<rparr>"
    using cs s ok(2) by (auto simp: checkSequence_def Let_def split: if_splits)
  from un obtain fill where opened: "opened = envelope p @ fill"
    by (auto simp: Unpad_DecodePayload DecodePayload_Inr envelope_def)
  have ct: "Ciphertext f = cSeal (cipher a) (s @ PutUint64 k) (envelope p @ fill) ([t, receiveDirection d] @ PutUint64 k)"
    using op ok s d' opened by (simp add: Open_Seal_iff Seal_Inr channel_aad_def)
  have f: "f = sealed_frame a (receiveDirection d) t s (receiveSequence d) (envelope p @ fill)"
    using t s(2) ct d'(1) by (cases f) (simp add: sealed_frame_def)
  have "length (Ciphertext f) = length (envelope p @ fill) + 16"
    using ct ok(1) s(1) by (simp add: cipher_ok_def NonceSize_def)
  then have "fits (p, fill)"
    using inr by (simp add: sendable_def fits_def)
  with inr f s(1) d'(2) t show ?thesis by (auto simp: sendable_def)
qed

interpretation dcr: frame_receiver channel_receive channel_ok "\<lambda>d. the (ReceiveAEAD d)" receiveDirection receiveSequence
proof
  fix d
  assume "channel_ok d"
  then show "cipher_ok (cipher (the (ReceiveAEAD d)))" by (auto elim!: channel_okE)
next
  fix d r t s rest and p fill :: bytes
  assume h: "channel_ok d" "reader_ok r" "IsValidType t" "length s = 4" "fits (p, fill)"
    "reader_stream r = frame_packet (sealed_frame (the (ReceiveAEAD d)) (receiveDirection d) t s (receiveSequence d) (envelope p @ fill)) @ rest"
  obtain b where b: "ReceiveAEAD d = Some b" using h(1) by (auto elim!: channel_okE)
  from channel_receive_accepts [OF h(1) b h(2-5)] h(6) b
  show "\<exists>d' r'. channel_receive t d r = (Inr p, d', r') \<and> reader_stream r' = rest" by auto
next
  fix d r t p d' r'
  assume h: "channel_ok d" "reader_ok r" "channel_receive t d r = (Inr p, d', r')"
  obtain b where b: "ReceiveAEAD d = Some b" using h(1) by (auto elim!: channel_okE)
  from channel_receive_only [OF h(1) b h(2,3)] h(1) b
  show "channel_ok d' \<and> the (ReceiveAEAD d') = the (ReceiveAEAD d) \<and> receiveDirection d' = receiveDirection d \<and>
      receiveSequence d' = receiveSequence d + 1 \<and> reader_ok r' \<and> reader_fin r' = reader_fin r \<and>
      (\<exists>s fill. length s = 4 \<and> fits (p, fill) \<and> IsValidType t \<and>
        reader_stream r = frame_packet (sealed_frame (the (ReceiveAEAD d)) (receiveDirection d) t s (receiveSequence d)
          (envelope p @ fill)) @ reader_stream r')"
    by (auto simp: channel_ok_received)
qed

section \<open>The operations on an initialised channel\<close>

lemma WriteDataFrame_channel:
  "channel_ok d \<Longrightarrow> WriteDataFrame (Some d) (Some w) p g =
     (let (err, d', w', g') = dc_send TypeDataPayload d p w g in (err, Some d', Some w', g'))"
  by (auto simp: WriteDataFrame_def dc_send_def elim!: channel_okE)

lemma WriteConnectFrame_channel:
  "channel_ok d \<Longrightarrow> validateTarget target = None \<Longrightarrow> WriteConnectFrame (Some d) (Some w) target g =
     (let (err, d', w', g') = dc_send TypeConnOpen d (bytes_of_string target) w g in (err, Some d', Some w', g'))"
  by (auto simp: WriteConnectFrame_def dc_send_def elim!: channel_okE)

lemma ReadDataFrame_channel:
  "channel_ok d \<Longrightarrow> ReadDataFrame (Some d) (Some r) =
     (let (res, d', r') = channel_receive TypeDataPayload d r in (res, Some d', Some r'))"
  by (auto simp: ReadDataFrame_def elim!: channel_okE)

lemma NewDirectionalDataChannel_Inr:
  assumes "crypto_lib_ok L" "NewDirectionalDataChannel L sk rk sd rd g = (Inr d, g')"
  shows "channel_ok d \<and> NewAEAD L sk = Inr (the (channel_AEAD d)) \<and> NewAEAD L rk = Inr (the (ReceiveAEAD d)) \<and>
    sendDirection d = sd \<and> receiveDirection d = rd \<and> receiveSequence d = 0 \<and> counter (the (SendNonces d)) = 0 \<and>
    PaddingEnabled d \<and> JitterMS d = 0 \<and> rng_fail g' = rng_fail g"
proof -
  from assms(2) obtain a r nc where "NewAEAD L sk = Inr a" "NewAEAD L rk = Inr r" "NewNonceCounter g = (Inr nc, g')"
    "d = \<lparr>channel_AEAD = Some a, ReceiveAEAD = Some r, SendNonces = Some nc, sendDirection = sd, receiveDirection = rd,
          receiveSequence = 0, directional = True, PaddingEnabled = True, JitterMS = 0\<rparr>"
    by (auto simp: NewDirectionalDataChannel_def NewDataChannel_def split: sum.splits prod.splits)
  with NewAEAD_cipher_ok [OF assms(1)] NewNonceCounter_Inr show ?thesis
    by (auto simp: channel_ok_def)
qed

lemma NewDirectionalDataChannel_works:
  assumes "crypto_lib_ok L" "length sk = KeySize" "length rk = KeySize" "rng_fail g = None"
  shows "\<exists>d g'. NewDirectionalDataChannel L sk rk sd rd g = (Inr d, g')"
proof -
  obtain a where a: "NewAEAD L sk = Inr a" by (rule NewAEAD_ok [OF assms(1,2)])
  obtain b where b: "NewAEAD L rk = Inr b" by (rule NewAEAD_ok [OF assms(1,3)])
  from rand_Read_works [OF assms(4), of 4] a b show ?thesis
    by (auto simp: NewDirectionalDataChannel_def NewDataChannel_def NewNonceCounter_def)
qed

lemma validateTarget_length: "validateTarget t = None \<Longrightarrow> t \<noteq> '''' \<and> length t \<le> 1024"
  by (auto simp: validateTarget_def MaxTargetAddressLen_def split: if_splits)

definition sample_channel :: DataChannel where
  "sample_channel =
     \<lparr>channel_AEAD = Some \<lparr>cipher = sample_cipher (replicate 32 1)\<rparr>,
      ReceiveAEAD = Some \<lparr>cipher = sample_cipher (replicate 32 2)\<rparr>,
      SendNonces = Some \<lparr>salt = [1, 2, 3, 4], counter = 0\<rparr>, sendDirection = 1, receiveDirection = 2,
      receiveSequence = 0, directional = True, PaddingEnabled = True, JitterMS = 0\<rparr>"

lemma sample_channel_ok: "channel_ok sample_channel"
  by (simp add: channel_ok_def sample_channel_def sample_cipher_ok wf_nonces_def)

section \<open>Properties\<close>

text \<open>
  C23.  With padding, a data frame hides the payload's length: every payload of up to 1442 bytes goes
  out as one \<^verbatim>\<open>Write\<close> of 527, 1039 or 1475 bytes (15 bytes of header and a whole block), and a
  larger payload is refused before a nonce is used or a byte is written.
\<close>

theorem WriteDataFrame_wire_size:
  assumes "channel_ok d" "PaddingEnabled d" "wplan w = []" "rng_fail g = None"
  shows "case WriteDataFrame (Some d) (Some w) p g of (err, dp, wp, g') \<Rightarrow>
     if length p \<le> 1442
     then err = None \<and> (\<exists>packet. wp = Some (w\<lparr>sent := sent w @ [packet]\<rparr>) \<and> length packet \<in> {527, 1039, 1475})
     else dp = Some d \<and> wp = Some w \<and>
       err = Some (if length p > 65535 then EncodeErr (PayloadTooLarge (length p))
                   else PadErr (ErrEnvelopeTooLarge (int (length p) + 2) 1444 16))"
proof -
  obtain a nc where d: "channel_AEAD d = Some a" "SendNonces d = Some nc" "cipher_ok (cipher a)" "wf_nonces nc"
    using assms(1) by (auto elim!: channel_okE)
  note eq = WriteDataFrame_channel [OF assms(1)] dc_send_def d(1,2) option.sel
  show ?thesis
  proof (cases "length p \<le> 1442")
    case True
    then have lim: "length p \<le> payload_limit (PaddingEnabled d)" using assms(2) by (simp add: payload_limit_def)
    have t: "IsValidType TypeDataPayload" by (simp add: IsValidType_def)
    from channel_send_ok [OF assms(1) d(1,2) t assms(3,4) lim] assms(2) obtain d' g' fill where
      s: "channel_send TypeDataPayload d a nc p w g = (None, d', w\<lparr>sent := sent w @ [frame_packet
        (sealed_frame a (sendDirection d) TypeDataPayload (salt nc) (counter nc) (envelope p @ fill))]\<rparr>, g')"
      "length (envelope p @ fill) + 16 \<in> {512, 1024, 1460}" by blast
    have "length (frame_packet (sealed_frame a (sendDirection d) TypeDataPayload (salt nc) (counter nc) (envelope p @ fill)))
        = 15 + (length (envelope p @ fill) + 16)"
      using d(3,4) by (simp add: length_frame_packet wf_frame_def sealed_frame_def wf_nonces_def frame_size_defs cipher_ok_def)
    then show ?thesis
      using True s unfolding eq by auto
  next
    case False
    then show ?thesis
      using assms(2) d(3) unfolding eq
      by (auto simp: channel_send_def EncodePayload_def MaxPayloadLen_def Pad_def SelectBlockSize_cases)
  qed
qed

theorem WriteDataFrame_wire_size_witness:
  "\<exists>dp packet g'. WriteDataFrame (Some sample_channel) (Some sample_writer) [104, 105] sample_rng =
     (None, dp, Some (sample_writer\<lparr>sent := [packet]\<rparr>), g') \<and> length packet \<in> {527, 1039, 1475}"
  using WriteDataFrame_wire_size [OF sample_channel_ok, of sample_writer sample_rng "[104, 105]"]
  by (auto simp: sample_channel_def sample_writer_def sample_rng_def split: prod.splits)



text \<open>
  C11.  Replay, reordering and loss are detected: whatever arrives on the connection, the payloads that
  \<open>channel_receive\<close> returns come from frames of this key and direction, each used once, with
  consecutive sequence numbers from the one expected.
\<close>

theorem channel_receive_no_replay:
  assumes "channel_ok d" "reader_ok r" "recv_frames (channel_receive t) n d r = (ps, d', r')" "length ps = n" "n \<le> 2 ^ 64"
  shows "\<exists>fs. length fs = n \<and> reader_stream r = concat (map frame_packet fs) @ reader_stream r' \<and>
    map frame_seq fs = map (\<lambda>i. receiveSequence d + of_nat i) [0..<n] \<and> distinct fs \<and>
    (\<forall>i < n. \<exists>s fill. length s = 4 \<and> fs ! i = sealed_frame (the (ReceiveAEAD d)) (receiveDirection d) t s
       (receiveSequence d + of_nat i) (envelope (ps ! i) @ fill))"
  using dcr.recv_frames_no_replay [OF assms] .

theorem channel_receive_no_replay_witness:
  "\<exists>fs d' r'. recv_frames (channel_receive TypeDataPayload) 1 sample_channel (BytesReader (frame_packet
       (sealed_frame \<lparr>cipher = sample_cipher (replicate 32 2)\<rparr> 2 TypeDataPayload [9, 9, 9, 9] 0 (envelope [104, 105])))) =
       ([[104, 105]], d', r') \<and> map frame_seq fs = [0]"
proof -
  let ?a = "\<lparr>cipher = sample_cipher (replicate 32 2)\<rparr>"
  let ?r = "BytesReader (frame_packet (sealed_frame ?a 2 TypeDataPayload [9, 9, 9, 9] 0 (envelope [104, 105])))"
  have "fits ([104, 105], [])" by (simp add: fits_def MaxCiphertextLen_def)
  from channel_receive_accepts [OF sample_channel_ok, of ?a ?r TypeDataPayload "[9, 9, 9, 9]" "[104, 105]" "[]" "[]"] this
  obtain d' r' where "channel_receive TypeDataPayload sample_channel ?r = (Inr [104, 105], d', r')"
    by (auto simp: sample_channel_def IsValidType_def)
  then have run: "recv_frames (channel_receive TypeDataPayload) 1 sample_channel ?r = ([[104, 105]], d', r')"
    by simp
  have zero: "receiveSequence sample_channel = 0" by (simp add: sample_channel_def)
  have pre: "reader_ok ?r" "length [[104, 105] :: bytes] = 1" "1 \<le> (2 :: nat) ^ 64" by simp_all
  from channel_receive_no_replay [OF sample_channel_ok pre(1) run pre(2,3)] obtain fs where
    "map frame_seq fs = map (\<lambda>i. receiveSequence sample_channel + of_nat i) [0..<1]" by blast
  then have "map frame_seq fs = [0]" using zero by simp
  with run show ?thesis by (intro exI conjI)
qed

end
