(* ===== verification/Gateway_Auth.thy ===== *)
theory Gateway_Auth
  imports Padding Crypto
begin

text \<open>
  Package \<^verbatim>\<open>gateway\<close>, authentication (\<^verbatim>\<open>src/pkg/gateway/auth.go\<close>,
  \<^verbatim>\<open>src/pkg/gateway/handshake.go\<close>).  A probe that does not authenticate must see the decoy web
  server, so every byte that the gateway consumed while looking for a proof has to be replayed:
  the theory follows the bytes through the connection, the \<^verbatim>\<open>bufio.Reader\<close>, the tee and the
  \<^verbatim>\<open>io.MultiReader\<close> that is returned.
\<close>

section \<open>auth.go\<close>

record AuthSession =
  dataKey :: bytes
  c2sKey :: bytes
  s2cKey :: bytes
  authKey :: bytes

datatype gateway_error =
    PSKEmpty
  | DeriveErr crypto_error
  | CompatibilityKeyErr crypto_error
  | NilAuthSession
  | DeadlineErr io_error
  | GatewayCryptoErr crypto_error
  | GatewayNonceErr nonce_error
  | GatewayFrameErr frame_error
  | ErrAuthFailed
  | AuthSuccessErr frame_error

definition NewAuthSession :: "crypto_lib \<Rightarrow> bytes \<Rightarrow> bytes \<Rightarrow> (gateway_error, AuthSession) result" where
  "NewAuthSession L psk exporterMaterial =
     (if length psk = 0 then Inl PSKEmpty
      else
        (case DeriveDirectionalKeys L psk exporterMaterial of
           Inl e \<Rightarrow> Inl (DeriveErr e)
         | Inr (c2s, s2c, auth) \<Rightarrow>
             (case DeriveSessionKeys L psk exporterMaterial of
                Inl e \<Rightarrow> Inl (CompatibilityKeyErr e)
              | Inr (legacyDataKey, _) \<Rightarrow>
                  Inr \<lparr>dataKey = legacyDataKey, c2sKey = c2s, s2cKey = s2c, authKey = auth\<rparr>)))"

definition ClientToServerKey :: "AuthSession option \<Rightarrow> bytes" where
  "ClientToServerKey sp = (case sp of None \<Rightarrow> [] | Some s \<Rightarrow> c2sKey s)"

definition ServerToClientKey :: "AuthSession option \<Rightarrow> bytes" where
  "ServerToClientKey sp = (case sp of None \<Rightarrow> [] | Some s \<Rightarrow> s2cKey s)"

definition DataKey :: "AuthSession option \<Rightarrow> bytes" where
  "DataKey sp = (case sp of None \<Rightarrow> [] | Some s \<Rightarrow> dataKey s)"

definition Challenge :: "AuthSession option \<Rightarrow> rng \<Rightarrow> (gateway_error, bytes) result \<times> rng" where
  "Challenge sp g =
     (case sp of
        None \<Rightarrow> (Inl NilAuthSession, g)
      | Some s \<Rightarrow>
          (case GenerateChallenge g of
             (Inl e, g') \<Rightarrow> (Inl (GatewayCryptoErr e), g')
           | (Inr c, g') \<Rightarrow> (Inr c, g')))"

definition session_VerifyResponse :: "AuthSession option \<Rightarrow> bytes \<Rightarrow> bytes \<Rightarrow> (gateway_error, bool) result" where
  "session_VerifyResponse sp challenge response =
     (case sp of
        None \<Rightarrow> Inl NilAuthSession
      | Some s \<Rightarrow>
          (case VerifyResponse (authKey s) challenge response of
             Inl e \<Rightarrow> Inl (GatewayCryptoErr e)
           | Inr ok \<Rightarrow> Inr ok))"

section \<open>handshake.go\<close>

text \<open>A frame literal without a nonce has the zero nonce.\<close>

definition zero_nonce :: bytes where
  "zero_nonce = replicate NonceSize 0"

definition success_frame :: frame where
  "success_frame = \<lparr>Type = TypeAuthSuccess, Nonce = zero_nonce, Ciphertext = []\<rparr>"

text \<open>
  The deferred call that clears the deadline when a handshake returns; its error is ignored.
\<close>

definition clear_deadline :: "conn \<Rightarrow> conn" where
  "clear_deadline c = snd (conn_SetReadDeadline False c)"

definition Authenticate :: "crypto_lib \<Rightarrow> AuthSession option \<Rightarrow> conn \<Rightarrow> rng \<Rightarrow> gateway_error option \<times> conn \<times> rng" where
  "Authenticate L s c g =
     (case conn_SetReadDeadline True c of
        (Some e, c1) \<Rightarrow> (Some (DeadlineErr e), c1, g)
      | (None, c1) \<Rightarrow>
          (case Challenge s g of
             (Inl e, g1) \<Rightarrow> (Some e, clear_deadline c1, g1)
           | (Inr challenge, g1) \<Rightarrow>
               (case NewNonceCounter g1 of
                  (Inl e, g2) \<Rightarrow> (Some (GatewayNonceErr e), clear_deadline c1, g2)
                | (Inr nc, g2) \<Rightarrow>
                    (case WriteFrame (Some \<lparr>Type = TypeAuthChallenge, Nonce = fst (Next nc), Ciphertext = challenge\<rparr>)
                            (conn_out c1) of
                       (Some e, w) \<Rightarrow> (Some (GatewayFrameErr e), clear_deadline (c1\<lparr>conn_out := w\<rparr>), g2)
                     | (None, w) \<Rightarrow>
                         (let (res, r) = ReadFrame (conn_in c1);
                              c2 = c1\<lparr>conn_out := w, conn_in := r\<rparr>
                          in case res of
                               Inl e \<Rightarrow> (Some ErrAuthFailed, clear_deadline c2, g2)
                             | Inr f \<Rightarrow>
                                 if Type f \<noteq> TypeAuthResponse then (Some ErrAuthFailed, clear_deadline c2, g2)
                                 else
                                   (case NewAEAD L (DataKey s) of
                                      Inl e \<Rightarrow> (Some (GatewayCryptoErr e), clear_deadline c2, g2)
                                    | Inr aead \<Rightarrow>
                                        (case Open aead (Nonce f) (Ciphertext f) [Type f] of
                                           Inl e \<Rightarrow> (Some ErrAuthFailed, clear_deadline c2, g2)
                                         | Inr response \<Rightarrow>
                                             if session_VerifyResponse s challenge response \<noteq> Inr True
                                             then (Some ErrAuthFailed, clear_deadline c2, g2)
                                             else
                                               (let (err, w') = WriteFrame (Some success_frame) (conn_out c2)
                                                in (map_option GatewayFrameErr err,
                                                    clear_deadline (c2\<lparr>conn_out := w'\<rparr>), g2)))))))))"

fun tee_source :: "reader \<Rightarrow> reader" where
  "tee_source (TeeReader r seen) = r"
| "tee_source r = r"

fun tee_seen :: "reader \<Rightarrow> bytes" where
  "tee_seen (TeeReader r seen) = seen"
| "tee_seen r = []"

fun bufio_source :: "reader \<Rightarrow> reader" where
  "bufio_source (BufioReader r buf err) = r"
| "bufio_source r = r"

text \<open>
  The reader that is returned for the fallback shares the connection with \<^verbatim>\<open>conn\<close>: when the
  deferred call clears the deadline, it does so below the \<^verbatim>\<open>bufio.Reader\<close> too.
\<close>

definition AuthenticateReplay :: "AuthSession \<Rightarrow> conn \<Rightarrow> (reader option \<times> gateway_error option) \<times> conn" where
  "AuthenticateReplay s c =
     (case conn_SetReadDeadline True c of
        (Some e, c1) \<Rightarrow> ((None, Some (DeadlineErr e)), c1)
      | (None, c1) \<Rightarrow>
          (let (res, tee) = ReadFrame (TeeReader (BufioReader (conn_in c1) [] None) []);
               br = tee_source tee;
               replay = MultiReader [BytesReader (tee_seen tee), arm_deadline False br];
               c2 = c1\<lparr>conn_in := bufio_source br\<rparr>
           in if (case res of
                    Inl e \<Rightarrow> True
                  | Inr f \<Rightarrow> Type f \<noteq> TypeAuthResponse \<or> \<not> VerifyClientProof (authKey s) (Ciphertext f))
              then ((Some replay, Some ErrAuthFailed), clear_deadline c2)
              else
                (case WriteFrame (Some success_frame) (conn_out c2) of
                   (Some e, w) \<Rightarrow> ((Some replay, Some (AuthSuccessErr e)), clear_deadline (c2\<lparr>conn_out := w\<rparr>))
                 | (None, w) \<Rightarrow> ((None, None), clear_deadline (c2\<lparr>conn_out := w\<rparr>)))))"

section \<open>Reading through the buffer and the tee\<close>

text \<open>What has arrived and was not read stays in the buffer or on the connection, deadline or not.\<close>

lemma net_read_wire: "net_read n as armed e = ((d, x), as') \<Longrightarrow> net_stream as False = d @ net_stream as' False"
  by (induction n as armed e arbitrary: as' rule: net_read.induct) (auto split: if_splits)

lemma reads_net:
  assumes "reads io_Read (NetConn as armed e) bs t"
  shows "\<exists>as'. t = NetConn as' armed e \<and> net_stream as False = bs @ net_stream as' False"
  using assms
proof (induction "NetConn as armed e" bs t rule: reads.induct)
  case reads_none
  show ?case by simp
next
  case (reads_more bs s n d x t)
  then obtain as1 as2 where "s = NetConn as1 armed e" "net_stream as False = bs @ net_stream as1 False"
    "net_read n as1 armed e = ((d, x), as2)" "t = NetConn as2 armed e" by (auto split: prod.splits)
  with net_read_wire [of n as1 armed e d x as2] show ?case by simp
qed

lemma net_read_data: "net_read n as armed e = ((d, Some x), as') \<Longrightarrow> d = []"
  by (induction n as armed e arbitrary: as' rule: net_read.induct) (auto split: if_splits)

lemma io_Read_bufio_net:
  assumes "io_Read n (BufioReader (NetConn as armed e) buf None) = ((d, x), t)"
  obtains as' buf' where "t = BufioReader (NetConn as' armed e) buf' None"
    "buf @ net_stream as False = d @ buf' @ net_stream as' False"
proof (cases "n = 0 \<or> buf \<noteq> []")
  case True
  with assms show ?thesis by (intro that [of as "drop n buf"]) (auto split: if_splits)
next
  case False
  obtain d' x' as' where rd: "net_read (if n \<ge> bufio_size then n else bufio_size) as armed e = ((d', x'), as')"
    by (metis surj_pair)
  have data: "x' = None \<or> d' = []" using net_read_data [of _ as armed e d' _ as'] rd by (cases x') auto
  have "d = (if n \<ge> bufio_size then d' else take n d')"
    "t = BufioReader (NetConn as' armed e) (if n \<ge> bufio_size then [] else drop n d') None"
    using assms False rd data by (auto split: if_splits)
  with net_read_wire [OF rd] False show ?thesis
    by (intro that [of as' "if n \<ge> bufio_size then [] else drop n d'"]) auto
qed

lemma reads_tee_bufio_net:
  assumes "reads io_Read (TeeReader (BufioReader (NetConn as armed e) [] None) []) bs t"
  shows "\<exists>as' buf. t = TeeReader (BufioReader (NetConn as' armed e) buf None) bs \<and>
    net_stream as False = bs @ buf @ net_stream as' False"
  using assms
proof (induction "TeeReader (BufioReader (NetConn as armed e) [] None) []" bs t rule: reads.induct)
  case reads_none
  show ?case by simp
next
  case (reads_more bs s n d x t)
  then obtain as1 buf1 where s: "s = TeeReader (BufioReader (NetConn as1 armed e) buf1 None) bs"
    "net_stream as False = bs @ buf1 @ net_stream as1 False" by auto
  obtain d' x' t' where rd: "io_Read n (BufioReader (NetConn as1 armed e) buf1 None) = ((d', x'), t')"
    by (metis surj_pair)
  have "d' = d" "t = TeeReader t' (bs @ d)"
    using reads_more(3) s(1) rd by (auto simp del: io_Read.simps(3))
  moreover from rd obtain as2 buf2 where "t' = BufioReader (NetConn as2 armed e) buf2 None"
    "buf1 @ net_stream as1 False = d' @ buf2 @ net_stream as2 False"
    by (rule io_Read_bufio_net)
  ultimately show ?case using s(2) by auto
qed

lemma ReadFrame_tee:
  assumes "ReadFrame (TeeReader (BufioReader (NetConn as armed e) [] None) []) = (res, t)"
  obtains as' buf seen where "t = TeeReader (BufioReader (NetConn as' armed e) buf None) seen"
    "net_stream as False = seen @ buf @ net_stream as' False"
    "net_stream as armed = seen @ buf @ net_stream as' armed"
proof -
  let ?r = "TeeReader (BufioReader (NetConn as armed e) [] None) []"
  have "reader_ok ?r" by simp
  from ReadFrame_reads [OF this assms] obtain bs where bs: "reads io_Read ?r bs t"
    "reader_stream ?r = bs @ reader_stream t" by blast
  from reads_tee_bufio_net [OF bs(1)] obtain as' buf where
    "t = TeeReader (BufioReader (NetConn as' armed e) buf None) bs"
    "net_stream as False = bs @ buf @ net_stream as' False" by blast
  with bs(2) show ?thesis by (intro that) simp_all
qed

section \<open>What AuthenticateReplay decides\<close>

text \<open>The byte string starts with a frame that proves knowledge of the session's key.\<close>

definition valid_proof :: "AuthSession \<Rightarrow> bytes \<Rightarrow> bool" where
  "valid_proof s bs =
     (case parse_frame bs of
        None \<Rightarrow> False
      | Some (f, rest) \<Rightarrow> Type f = TypeAuthResponse \<and> ClientProof (authKey s) = Inr (Ciphertext f))"

text \<open>The outcome, given what was consumed, what stayed in the buffer, and the connection after it.\<close>

definition auth_outcome :: "AuthSession \<Rightarrow> conn \<Rightarrow> bytes \<Rightarrow> bytes \<Rightarrow> bytes \<Rightarrow> reader \<Rightarrow>
  (reader option \<times> gateway_error option) \<times> conn" where
  "auth_outcome s c str seen buf r =
     (let c' = c\<lparr>conn_in := r\<rparr>;
          replay = MultiReader [BytesReader seen, BufioReader r buf None]
      in if valid_proof s str
         then (case WriteFrame (Some success_frame) (conn_out c) of
                 (Some x, w) \<Rightarrow> ((Some replay, Some (AuthSuccessErr x)), c'\<lparr>conn_out := w\<rparr>)
               | (None, w) \<Rightarrow> ((None, None), c'\<lparr>conn_out := w\<rparr>))
         else ((Some replay, Some ErrAuthFailed), c'))"

lemma AuthenticateReplay_cases:
  assumes "conn_in c = NetConn as b e" "conn_deadline_err c = None"
  obtains as' buf seen where "net_stream as False = seen @ buf @ net_stream as' False"
    "net_stream as True = seen @ buf @ net_stream as' True"
    "ReadFrame (TeeReader (BufioReader (NetConn as True e) [] None) []) =
       (fst (ReadFrame (TeeReader (BufioReader (NetConn as True e) [] None) [])),
        TeeReader (BufioReader (NetConn as' True e) buf None) seen)"
    "AuthenticateReplay s c = auth_outcome s c (net_stream as True) seen buf (NetConn as' False e)"
proof -
  let ?r = "TeeReader (BufioReader (NetConn as True e) [] None) []"
  obtain res t where rf: "ReadFrame ?r = (res, t)" by (metis surj_pair)
  from ReadFrame_tee [OF rf] obtain as' buf seen where
    t: "t = TeeReader (BufioReader (NetConn as' True e) buf None) seen"
    "net_stream as False = seen @ buf @ net_stream as' False" "net_stream as True = seen @ buf @ net_stream as' True" .
  have ok: "reader_ok ?r" and str: "reader_stream ?r = net_stream as True" by simp_all
  have valid: "valid_proof s (net_stream as True) \<longleftrightarrow>
      \<not> (case res of Inl e \<Rightarrow> True
         | Inr f \<Rightarrow> Type f \<noteq> TypeAuthResponse \<or> \<not> VerifyClientProof (authKey s) (Ciphertext f))"
  proof (cases "parse_frame (net_stream as True)")
    case None
    then have "\<exists>x. res = Inl x"
      using ReadFrame_fails [OF ok] str rf by (metis fst_conv)
    with None show ?thesis by (auto simp: valid_proof_def)
  next
    case (Some p)
    obtain f rest where p: "p = (f, rest)" by (cases p)
    then have "res = Inr f"
      using ReadFrame_parses [OF ok] Some str rf by (metis fst_conv)
    with Some p show ?thesis by (simp add: valid_proof_def VerifyClientProof_iff)
  qed
  have "AuthenticateReplay s c = auth_outcome s c (net_stream as True) seen buf (NetConn as' False e)"
    unfolding auth_outcome_def valid using rf t(1)
    by (simp add: AuthenticateReplay_def auth_outcome_def conn_SetReadDeadline_def clear_deadline_def assms Let_def
        split: prod.split option.split)
  with rf t show ?thesis by (intro that [of seen buf as']) simp_all
qed

lemma replay_stream:
  "reader_stream (MultiReader [BytesReader seen, BufioReader (NetConn as False e) buf None]) =
     seen @ buf @ net_stream as False \<and>
   reader_fin (MultiReader [BytesReader seen, BufioReader (NetConn as False e) buf None]) = e \<and>
   reader_ok (MultiReader [BytesReader seen, BufioReader (NetConn as False e) buf None])"
  by (simp add: net_fin_def)

definition sample_session :: AuthSession where
  "sample_session = \<lparr>dataKey = replicate 32 4, c2sKey = replicate 32 1, s2cKey = replicate 32 2, authKey = replicate 32 3\<rparr>"

definition sample_conn :: "arrival list \<Rightarrow> conn" where
  "sample_conn as = \<lparr>conn_in = NetConn as False EOF, conn_out = sample_writer, conn_closed = False, conn_deadline_err = None\<rparr>"

lemma WriteFrame_success:
  "wplan w = [] \<Longrightarrow> WriteFrame (Some success_frame) w = (None, w\<lparr>sent := sent w @ [frame_packet success_frame]\<rparr>)"
  by (intro WriteFrame_ok)
    (simp_all add: sendable_def success_frame_def wf_frame_def zero_nonce_def IsValidType_def frame_size_defs)

section \<open>Properties\<close>

text \<open>
  C9.  Authentication is exact: with a working connection the gateway authenticates a peer precisely
  when what the peer sends before the deadline starts with an authentication frame whose body is the
  proof for this session's key, however the bytes are split; it then answers with one success frame.
\<close>

theorem AuthenticateReplay_exact:
  assumes "conn_in c = NetConn as b e" "conn_deadline_err c = None" "wplan (conn_out c) = []"
  shows "case AuthenticateReplay s c of ((replay, err), c') \<Rightarrow>
    (err = None \<longleftrightarrow> (\<exists>f rest. parse_frame (net_stream as True) = Some (f, rest) \<and> Type f = TypeAuthResponse \<and>
       ClientProof (authKey s) = Inr (Ciphertext f))) \<and>
    sent (conn_out c') = sent (conn_out c) @ (if err = None then [frame_packet success_frame] else [])"
proof -
  obtain as' buf seen where
    "AuthenticateReplay s c = auth_outcome s c (net_stream as True) seen buf (NetConn as' False e)"
    by (rule AuthenticateReplay_cases [OF assms(1,2)])
  then show ?thesis
    using WriteFrame_success [OF assms(3)] by (auto simp: auth_outcome_def Let_def valid_proof_def split: option.splits)
qed

text \<open>With a pre-shared key there is a session for every exporter value.\<close>

lemma NewAuthSession_works:
  assumes "crypto_lib_ok L" "psk \<noteq> []"
  obtains s where "NewAuthSession L psk ex = Inr s" "DeriveDirectionalKeys L psk ex = Inr (c2sKey s, s2cKey s, authKey s)"
    "length (c2sKey s) = KeySize" "length (s2cKey s) = KeySize" "length (authKey s) = KeySize"
proof -
  obtain k1 where k1: "DeriveKey L psk ex InfoC2SKey = Inr k1" "length k1 = KeySize" by (rule DeriveKey_ok [OF assms info_labels_nonempty(3)])
  obtain k2 where k2: "DeriveKey L psk ex InfoS2CKey = Inr k2" "length k2 = KeySize" by (rule DeriveKey_ok [OF assms info_labels_nonempty(4)])
  obtain k3 where k3: "DeriveKey L psk ex InfoAuthKey = Inr k3" "length k3 = KeySize" by (rule DeriveKey_ok [OF assms info_labels_nonempty(2)])
  obtain k4 where k4: "DeriveKey L psk ex InfoDataKey = Inr k4" by (rule DeriveKey_ok [OF assms info_labels_nonempty(1)])
  have "DeriveDirectionalKeys L psk ex = Inr (k1, k2, k3)" "DeriveSessionKeys L psk ex = Inr (k4, k3)"
    using k1 k2 k3 k4 by (simp_all add: DeriveDirectionalKeys_Inr DeriveSessionKeys_Inr)
  with assms(2) k1 k2 k3 show ?thesis
    by (intro that [of "\<lparr>dataKey = k4, c2sKey = k1, s2cKey = k2, authKey = k3\<rparr>"]) (simp_all add: NewAuthSession_def)
qed

definition proof_packet :: "AuthSession \<Rightarrow> bytes" where
  "proof_packet s = frame_packet \<lparr>Type = TypeAuthResponse, Nonce = zero_nonce,
     Ciphertext = hmac_sha256 (authKey s) (bytes_of_string ClientAuthContext)\<rparr>"


section \<open>A client that waits for the answer\<close>

text \<open>
  Later arrivals do not matter to a reader that does not need them: \<open>extends later r r2\<close> says that
  \<open>r2\<close> is \<open>r\<close> with more to come on the connection below.
\<close>

definition extends :: "arrival list \<Rightarrow> reader \<Rightarrow> reader \<Rightarrow> bool" where
  "extends later r r2 \<longleftrightarrow> (\<exists>as a e buf seen. r = TeeReader (BufioReader (NetConn as a e) buf None) seen \<and>
     r2 = TeeReader (BufioReader (NetConn (as @ later) a e) buf None) seen)"

lemma net_read_extends: "net_read n as a e = ((d, None), as') \<Longrightarrow> net_read n (as @ later) a e = ((d, None), as' @ later)"
  by (induction n as a e arbitrary: as' rule: net_read.induct) (auto split: if_splits)

lemma bufio_error_data:
  "io_Read n (BufioReader (NetConn as a e) buf None) = ((d, Some x), t) \<Longrightarrow> d = []"
  by (auto split: if_splits prod.splits dest: net_read_data)

lemma bufio_read_extends:
  assumes "io_Read n (BufioReader (NetConn as a e) buf None) = ((d, None), t)"
  shows "\<exists>as' buf'. t = BufioReader (NetConn as' a e) buf' None \<and>
    io_Read n (BufioReader (NetConn (as @ later) a e) buf None) = ((d, None), BufioReader (NetConn (as' @ later) a e) buf' None)"
proof (cases "n = 0 \<or> buf \<noteq> []")
  case True
  with assms show ?thesis by (auto split: if_splits)
next
  case False
  let ?m = "if n \<ge> bufio_size then n else bufio_size"
  obtain d' x' as' where rd: "net_read ?m as a e = ((d', x'), as')" by (metis surj_pair)
  have x': "x' = None" using assms False rd net_read_data [of ?m as a e d' _ as'] by (cases x') (auto split: if_splits)
  note ext = net_read_extends [OF rd [unfolded x'], of later]
  show ?thesis
    using assms False rd ext x' by (auto split: if_splits)
qed

lemma io_Read_extends:
  assumes "extends later r r2" "io_Read n r = ((d, None), r')"
  shows "\<exists>r2'. io_Read n r2 = ((d, None), r2') \<and> extends later r' r2'"
proof -
  from assms(1) obtain as a e buf seen where r: "r = TeeReader (BufioReader (NetConn as a e) buf None) seen"
    "r2 = TeeReader (BufioReader (NetConn (as @ later) a e) buf None) seen" by (auto simp: extends_def)
  from assms(2) r(1) obtain t where t: "io_Read n (BufioReader (NetConn as a e) buf None) = ((d, None), t)"
    "r' = TeeReader t (seen @ d)" by (auto split: prod.splits simp del: io_Read.simps(3))
  from bufio_read_extends [OF t(1), of later] t(2) r(2) show ?thesis
    by (auto simp: extends_def simp del: io_Read.simps(3))
qed

lemma io_Read_extends_error:
  "extends later r r2 \<Longrightarrow> io_Read n r = ((d, Some x), r') \<Longrightarrow> d = []"
  by (auto simp: extends_def split: prod.splits simp del: io_Read.simps(3) dest: bufio_error_data)

lemma read_full_loop_extends:
  "extends later r r2 \<Longrightarrow> read_full_loop n acc r = ((buf, x), r') \<Longrightarrow> n \<le> length buf \<Longrightarrow>
     \<exists>r2'. read_full_loop n acc r2 = ((buf, x), r2') \<and> extends later r' r2'"
proof (induction n acc r arbitrary: r2 rule: read_full_loop.induct)
  case (1 n acc r)
  note eq = 1(3) [unfolded read_full_loop.simps [of n acc r]]
  show ?case
  proof (cases "n \<le> length acc")
    case True
    with eq 1(2) show ?thesis by (auto simp: read_full_loop.simps [of n acc r2] read_full_loop.simps [of n buf r2])
  next
    case False
    obtain d y r1 where rd: "io_Read (n - length acc) r = ((d, y), r1)" by (metis surj_pair)
    show ?thesis
    proof (cases y)
      case None
      from io_Read_extends [OF 1(2) rd [unfolded None]] obtain r3 where
        r3: "io_Read (n - length acc) r2 = ((d, None), r3)" "extends later r1 r3" by blast
      have "read_full_loop n (acc @ d) r1 = ((buf, x), r')" using eq False rd None by simp
      from 1(1) [OF False rd [symmetric] _ None r3(2) this 1(4)] r3(1) False show ?thesis
        by (simp add: read_full_loop.simps [of n acc r2])
    next
      case (Some z)
      with io_Read_extends_error [OF 1(2)] rd have "d = []" by blast
      with eq False rd Some 1(4) show ?thesis by simp
    qed
  qed
qed

lemma ReadFull_extends:
  assumes "extends later r r2" "ReadFull n r = (Inr bs, r')" "length bs = n"
  shows "\<exists>r2'. ReadFull n r2 = (Inr bs, r2') \<and> extends later r' r2'"
proof -
  obtain buf x r1 where lp: "read_full_loop n [] r = ((buf, x), r1)" by (metis surj_pair)
  with assms(2,3) have b: "buf = bs" "r1 = r'" "n \<le> length buf"
    by (auto simp: ReadFull_def Let_def split: if_splits option.splits)
  from read_full_loop_extends [OF assms(1) lp b(3)] b show ?thesis
    by (auto simp: ReadFull_def)
qed

lemma ReadFull_Inr:
  assumes "reader_ok r" "ReadFull n r = (Inr bs, r')"
  shows "length bs = n \<and> reader_ok r'"
proof (cases "n \<le> length (reader_stream r)")
  case True
  obtain r1 where "ReadFull n r = (Inr (take n (reader_stream r)), r1)" "reader_ok r1"
    by (rule ReadFull_enough [OF assms(1) True])
  with assms(2) True show ?thesis by auto
next
  case False
  then have "length (reader_stream r) < n" by simp
  then obtain x r1 where "ReadFull n r = (Inl x, r1)"
    by (rule ReadFull_short [OF assms(1)])
  with assms(2) show ?thesis by simp
qed

lemma ReadFrame_extends:
  assumes "reader_ok r" "extends later r r2" "ReadFrame r = (Inr f, r')"
  shows "\<exists>r2'. ReadFrame r2 = (Inr f, r2') \<and> extends later r' r2'"
proof -
  from assms(3) obtain hdr r1 where h: "ReadFull HeaderSize r = (Inr hdr, r1)"
    by (auto simp: ReadFrame_def split: prod.splits sum.splits)
  note ok = ReadFull_Inr [OF assms(1) h]
  from ReadFull_extends [OF assms(2) h] ok obtain r3 where
    r3: "ReadFull HeaderSize r2 = (Inr hdr, r3)" "extends later r1 r3" by blast
  let ?n = "unat (Uint16 (take 2 (drop 1 hdr)))"
  show ?thesis
  proof (cases "?n > 0")
    case True
    from assms(3) h True obtain ct where ct: "ReadFull ?n r1 = (Inr ct, r')"
      by (auto simp: ReadFrame_def Let_def split: prod.splits sum.splits if_splits)
    from ReadFull_extends [OF r3(2) ct] ReadFull_Inr [OF _ ct] ok obtain r4 where
      "ReadFull ?n r3 = (Inr ct, r4)" "extends later r' r4" by blast
    with assms(3) h r3 True ct show ?thesis
      by (auto simp: ReadFrame_def Let_def split: if_splits)
  next
    case False
    with assms(3) h r3 show ?thesis
      by (auto simp: ReadFrame_def Let_def split: if_splits)
  qed
qed

lemma proof_packet_parse:
  "authKey s \<noteq> [] \<Longrightarrow> \<exists>f. parse_frame (proof_packet s @ rest) = Some (f, rest) \<and> Type f = TypeAuthResponse \<and>
     ClientProof (authKey s) = Inr (Ciphertext f) \<and> frame_packet f = proof_packet s"
  unfolding proof_packet_def
  by (subst parse_frame_packet)
    (simp_all add: sendable_def wf_frame_def zero_nonce_def IsValidType_def frame_size_defs ClientProof_def)

text \<open>
  The bytes that the buffer fetched beyond a proof: when the arrivals before the answer are just the
  proof, there are none.
\<close>

lemma ReadFrame_waiting:
  assumes "net_stream first True = proof_packet s" "authKey s \<noteq> []"
  shows "\<exists>f as' . ReadFrame (TeeReader (BufioReader (NetConn (first @ later) True e) [] None) []) =
      (Inr f, TeeReader (BufioReader (NetConn (as' @ later) True e) [] None) (proof_packet s)) \<and> net_stream as' True = []"
proof -
  let ?r = "TeeReader (BufioReader (NetConn first True e) [] None) []"
  have ok: "reader_ok ?r" by simp
  from proof_packet_parse [OF assms(2), of "[]"] assms(1) obtain f where
    f: "parse_frame (reader_stream ?r) = Some (f, [])" "frame_packet f = proof_packet s" by auto
  from ReadFrame_parses [OF ok f(1)] obtain r' where
    r': "ReadFrame ?r = (Inr f, r')" "reader_stream r' = []" by blast
  from ReadFrame_tee [OF r'(1)] obtain as' buf seen where
    t: "r' = TeeReader (BufioReader (NetConn as' True e) buf None) seen"
    "net_stream first True = seen @ buf @ net_stream as' True" .
  from r'(2) t(1) have nil: "buf = []" "net_stream as' True = []" by auto
  have "extends later ?r (TeeReader (BufioReader (NetConn (first @ later) True e) [] None) [])"
    by (auto simp: extends_def)
  from ReadFrame_extends [OF ok this r'(1)] t nil assms(1) show ?thesis
    by (auto simp: extends_def)
qed

text \<open>Once everything that arrived is in the buffer, reading only moves it out of the buffer.\<close>

lemma reads_buffered:
  assumes "reads io_Read (TeeReader (BufioReader (NetConn [] a e) buf None) seen) bs t"
  shows "\<exists>buf'. t = TeeReader (BufioReader (NetConn [] a e) buf' None) (seen @ bs)"
  using assms
proof (induction "TeeReader (BufioReader (NetConn [] a e) buf None) seen" bs t rule: reads.induct)
  case reads_none
  show ?case by simp
next
  case (reads_more bs s n d x t)
  then show ?case by (auto split: if_splits)
qed

lemma ReadFull_fetch:
  assumes "n \<le> length x" "length x \<le> bufio_size" "0 < n" "n < bufio_size"
  shows "ReadFull n (TeeReader (BufioReader (NetConn [Data x] a e) [] None) []) =
    (Inr (take n x), TeeReader (BufioReader (NetConn [] a e) (drop n x) None) (take n x))"
proof -
  have "io_Read n (TeeReader (BufioReader (NetConn [Data x] a e) [] None) []) =
      ((take n x, None), TeeReader (BufioReader (NetConn [] a e) (drop n x) None) (take n x))"
    using assms by auto
  then have "read_full_loop n [] (TeeReader (BufioReader (NetConn [Data x] a e) [] None) []) =
      ((take n x, None), TeeReader (BufioReader (NetConn [] a e) (drop n x) None) (take n x))"
    using assms by (subst read_full_loop.simps) (simp add: read_full_loop.simps [of n "take n x"] del: io_Read.simps)
  then show ?thesis using assms(1) by (simp add: ReadFull_def)
qed

lemma ReadFrame_pipelined:
  assumes "authKey s \<noteq> []" "length (proof_packet s @ extra) \<le> bufio_size"
  shows "\<exists>f. ReadFrame (TeeReader (BufioReader (NetConn (Data (proof_packet s @ extra) # later) True e) [] None) []) =
      (Inr f, TeeReader (BufioReader (NetConn later True e) extra None) (proof_packet s))"
proof -
  let ?x = "proof_packet s @ extra"
  let ?r = "TeeReader (BufioReader (NetConn [Data ?x] True e) [] None) []"
  have ok: "reader_ok ?r" by simp
  from proof_packet_parse [OF assms(1), of extra] obtain f where
    f: "parse_frame (reader_stream ?r) = Some (f, extra)" "frame_packet f = proof_packet s" by auto
  from ReadFrame_parses [OF ok f(1)] obtain r' where
    r': "ReadFrame ?r = (Inr f, r')" "reader_stream r' = extra" by blast
  from ReadFrame_tee [OF r'(1)] obtain as' buf seen where
    t1: "r' = TeeReader (BufioReader (NetConn as' True e) buf None) seen" and
    t2: "net_stream [Data ?x] True = seen @ buf @ net_stream as' True" .
  note t = t1 t2 [unfolded net_stream.simps append_Nil2]
  have len: "HeaderSize \<le> length ?x"
    by (simp add: proof_packet_def length_frame_packet wf_frame_def zero_nonce_def frame_size_defs)
  have hdr: "ReadFull HeaderSize ?r = (Inr (take HeaderSize ?x),
      TeeReader (BufioReader (NetConn [] True e) (drop HeaderSize ?x) None) (take HeaderSize ?x))"
    using ReadFull_fetch [OF len assms(2)] by (simp add: frame_size_defs bufio_size_def)
  have "as' = []"
  proof (cases "r' = TeeReader (BufioReader (NetConn [] True e) (drop HeaderSize ?x) None) (take HeaderSize ?x)")
    case True
    with t(1) show ?thesis by simp
  next
    case False
    with r'(1) hdr obtain m ct where
      ct: "ReadFull m (TeeReader (BufioReader (NetConn [] True e) (drop HeaderSize ?x) None) (take HeaderSize ?x)) = (Inr ct, r')"
      by (auto simp: ReadFrame_def Let_def split: prod.splits sum.splits if_splits)
    then obtain b x where
      "read_full_loop m [] (TeeReader (BufioReader (NetConn [] True e) (drop HeaderSize ?x) None) (take HeaderSize ?x)) = ((b, x), r')"
      by (auto simp: ReadFull_def Let_def split: prod.splits if_splits option.splits)
    from read_full_loop_reads [OF _ _ this] obtain bs where
      "reads io_Read (TeeReader (BufioReader (NetConn [] True e) (drop HeaderSize ?x) None) (take HeaderSize ?x)) bs r'"
      by auto
    from reads_buffered [OF this] t(1) show ?thesis by simp
  qed
  with t r'(2) have r'_eq: "r' = TeeReader (BufioReader (NetConn [] True e) extra None) (proof_packet s)" by auto
  have "extends later ?r (TeeReader (BufioReader (NetConn (Data ?x # later) True e) [] None) [])"
    by (auto simp: extends_def)
  from ReadFrame_extends [OF ok this r'(1)] r'_eq show ?thesis
    by (auto simp: extends_def)
qed

section \<open>Properties of the replay\<close>

theorem AuthenticateReplay_exact_witness:
  "\<exists>c'. AuthenticateReplay sample_session (sample_conn [Data (proof_packet sample_session)]) = ((None, None), c') \<and>
     sent (conn_out c') = [frame_packet success_frame]"
proof -
  let ?c = "sample_conn [Data (proof_packet sample_session)]"
  have h: "conn_in ?c = NetConn [Data (proof_packet sample_session)] False EOF" "conn_deadline_err ?c = None"
    "wplan (conn_out ?c) = []" by (simp_all add: sample_conn_def sample_writer_def)
  have "authKey sample_session \<noteq> []" by (simp add: sample_session_def)
  from proof_packet_parse [OF this, of "[]"] AuthenticateReplay_exact [OF h, of sample_session]
  show ?thesis
    by (auto simp: sample_conn_def sample_writer_def AuthenticateReplay_def Let_def split: prod.splits option.splits if_splits)
qed

text \<open>
  A failed authentication is invisible to the peer: the reader handed to the fallback delivers
  every byte the peer sent and will send, in order, from the very first, and ends the way the
  connection ends; this holds after a wrong proof, after garbage, after a connection that closes
  early and after a timeout in the middle of a frame.  Nothing is written unless the proof was valid.
\<close>

theorem AuthenticateReplay_replays:
  assumes "conn_in c = NetConn as b e" "conn_deadline_err c = None"
    and "AuthenticateReplay s c = ((replay, Some err), c')"
  shows "\<exists>r. replay = Some r \<and> reader_ok r \<and> reader_stream r = net_stream as False \<and> reader_fin r = e \<and>
    (err = ErrAuthFailed \<longrightarrow> conn_out c' = conn_out c)"
proof -
  obtain as' buf seen where wire: "net_stream as False = seen @ buf @ net_stream as' False" and
    eq: "AuthenticateReplay s c = auth_outcome s c (net_stream as True) seen buf (NetConn as' False e)"
    by (rule AuthenticateReplay_cases [OF assms(1,2)])
  let ?r = "MultiReader [BytesReader seen, BufioReader (NetConn as' False e) buf None]"
  have "replay = Some ?r" "err = ErrAuthFailed \<longrightarrow> conn_out c' = conn_out c"
    using eq assms(3) by (auto simp: auth_outcome_def Let_def split: if_splits prod.splits option.splits)
  with replay_stream [of seen as' e buf] wire show ?thesis by auto
qed

theorem AuthenticateReplay_replays_witness:
  "\<exists>r c'. AuthenticateReplay sample_session (sample_conn [Data [71, 69, 84], Quiet, Data [32, 47]]) = ((Some r, Some ErrAuthFailed), c') \<and>
     reader_stream r = [71, 69, 84, 32, 47]"
proof -
  let ?as = "[Data [71, 69, 84], Quiet, Data [32, 47]]"
  have h: "conn_in (sample_conn ?as) = NetConn ?as False EOF" "conn_deadline_err (sample_conn ?as) = None"
    by (simp_all add: sample_conn_def)
  have "\<not> valid_proof sample_session (net_stream ?as True)"
    by (simp add: valid_proof_def parse_frame_def frame_size_defs)
  moreover obtain seen buf as' where
    "AuthenticateReplay sample_session (sample_conn ?as) =
       auth_outcome sample_session (sample_conn ?as) (net_stream ?as True) seen buf (NetConn as' False EOF)"
    by (rule AuthenticateReplay_cases [OF h])
  ultimately obtain r c' where res: "AuthenticateReplay sample_session (sample_conn ?as) = ((Some r, Some ErrAuthFailed), c')"
    by (simp add: auth_outcome_def)
  with AuthenticateReplay_replays [OF h res] show ?thesis by auto
qed

text \<open>
  For a client that waits for the answer, nothing is lost: when the arrivals before the answer are its
  proof, the handshake succeeds and the connection then delivers exactly what follows the proof.
\<close>

lemma AuthenticateReplay_waits:
  assumes "conn_in c = NetConn (first @ later) b e" "conn_deadline_err c = None" "wplan (conn_out c) = []"
    and "authKey s \<noteq> []" "net_stream first True = proof_packet s"
  shows "\<exists>c'. AuthenticateReplay s c = ((None, None), c') \<and> reader_ok (conn_in c') \<and> reader_fin (conn_in c') = e \<and>
    net_stream (first @ later) False = proof_packet s @ reader_stream (conn_in c') \<and>
    conn_out c' = (conn_out c)\<lparr>sent := sent (conn_out c) @ [frame_packet success_frame]\<rparr>"
proof -
  from ReadFrame_waiting [OF assms(5,4), of later e] obtain f as' where
    rf: "ReadFrame (TeeReader (BufioReader (NetConn (first @ later) True e) [] None) []) =
      (Inr f, TeeReader (BufioReader (NetConn (as' @ later) True e) [] None) (proof_packet s))" by blast
  obtain rest where rest: "net_stream (first @ later) True = proof_packet s @ rest"
    and wire: "net_stream (first @ later) False = proof_packet s @ net_stream (as' @ later) False"
    using ReadFrame_tee [OF rf] by (metis append_Nil reader.inject(3,4) reader.inject(1))
  have valid: "valid_proof s (net_stream (first @ later) True)"
    using proof_packet_parse [OF assms(4), of rest] rest by (auto simp: valid_proof_def)
  obtain x buf seen where rf2: "ReadFrame (TeeReader (BufioReader (NetConn (first @ later) True e) [] None) []) =
       (fst (ReadFrame (TeeReader (BufioReader (NetConn (first @ later) True e) [] None) [])),
        TeeReader (BufioReader (NetConn x True e) buf None) seen)" and
    eq: "AuthenticateReplay s c = auth_outcome s c (net_stream (first @ later) True) seen buf (NetConn x False e)"
    by (rule AuthenticateReplay_cases [OF assms(1,2)])
  have "x = as' @ later" using rf rf2 by simp
  with eq valid WriteFrame_success [OF assms(3)] wire show ?thesis
    by (simp add: auth_outcome_def Let_def net_fin_def)
qed

text \<open>
  C36.  A client that does not wait loses data: bytes that arrive in the same read as the proof are
  taken into the \<^verbatim>\<open>bufio.Reader\<close>, which a successful handshake drops, so the tunnel never sees
  them.
\<close>

theorem AuthenticateReplay_drops_pipelined:
  assumes "conn_in c = NetConn (Data (proof_packet s @ extra) # later) b e" "conn_deadline_err c = None"
    and "wplan (conn_out c) = []" "authKey s \<noteq> []" "length extra \<le> 4049"
  shows "\<exists>c'. AuthenticateReplay s c = ((None, None), c') \<and> conn_in c' = NetConn later False e"
proof -
  have len: "length (proof_packet s @ extra) \<le> bufio_size"
    using assms(5) by (simp add: bufio_size_def proof_packet_def length_frame_packet wf_frame_def zero_nonce_def frame_size_defs)
  from ReadFrame_pipelined [OF assms(4) len, of later e] obtain f where
    rf: "ReadFrame (TeeReader (BufioReader (NetConn (Data (proof_packet s @ extra) # later) True e) [] None) []) =
      (Inr f, TeeReader (BufioReader (NetConn later True e) extra None) (proof_packet s))" by blast
  have valid: "valid_proof s (net_stream (Data (proof_packet s @ extra) # later) True)"
    using proof_packet_parse [OF assms(4), of "extra @ net_stream later True"] by (auto simp: valid_proof_def)
  obtain x buf seen where rf2: "ReadFrame (TeeReader (BufioReader (NetConn (Data (proof_packet s @ extra) # later) True e) [] None) []) =
       (fst (ReadFrame (TeeReader (BufioReader (NetConn (Data (proof_packet s @ extra) # later) True e) [] None) [])),
        TeeReader (BufioReader (NetConn x True e) buf None) seen)" and
    eq: "AuthenticateReplay s c = auth_outcome s c (net_stream (Data (proof_packet s @ extra) # later) True) seen buf (NetConn x False e)"
    by (rule AuthenticateReplay_cases [OF assms(1,2)])
  have "x = later" using rf rf2 by simp
  with eq valid WriteFrame_success [OF assms(3)] show ?thesis by (simp add: auth_outcome_def)
qed

theorem AuthenticateReplay_drops_pipelined_witness:
  "\<exists>c'. AuthenticateReplay sample_session (sample_conn [Data (proof_packet sample_session @ [1, 2]), Data [3]]) = ((None, None), c') \<and>
     reader_stream (conn_in c') = [3]"
  using AuthenticateReplay_drops_pipelined [of "sample_conn [Data (proof_packet sample_session @ [1, 2]), Data [3]]"
      sample_session "[1, 2]" "[Data [3]]" False EOF]
  by (auto simp: sample_conn_def sample_writer_def sample_session_def)

end
