(* ===== verification/Transport_TLS.thy ===== *)
theory Transport_TLS
  imports Go_IO
begin

text \<open>
  Package \<^verbatim>\<open>transport\<close>, the TLS layer (\<^verbatim>\<open>src/pkg/transport/tls.go\<close>,
  \<^verbatim>\<open>src/pkg/transport/server.go\<close>).  The uTLS package, the X.509 parser and the file system are
  parameters, collected in \<open>tls_lib\<close>; the model is the program's own logic around them: the
  configuration, the edited ClientHello profile, the order of the steps, the version checks, and
  who closes the connection when a step fails.
\<close>

section \<open>The TLS library as a parameter\<close>

datatype tls_extension = RenegotiationInfoExtension | OtherExtension nat

datatype renegotiation = RenegotiateNever | RenegotiateOnceAsClient | RenegotiateFreelyAsClient

definition VersionTLS13 :: uint16 where "VersionTLS13 = 0x0304"

record tls_config =
  cfg_ServerName :: string
  cfg_Certificates :: "nat list"
  cfg_MinVersion :: uint16
  cfg_MaxVersion :: uint16
  cfg_Renegotiation :: renegotiation
  cfg_NextProtos :: "string list"
  cfg_RootCAs :: "bytes option"

text \<open>The state of an established connection: its version, and the exporter.\<close>

record tls_state =
  tls_Version :: uint16
  tls_Export :: "string \<Rightarrow> nat \<Rightarrow> bytes option"

record tls_conn =
  tls_inner :: conn
  tls_ConnectionState :: tls_state

text \<open>
  \<open>lib_Client config exts raw\<close> is the outcome of the client handshake on \<open>raw\<close> with the given
  ClientHello extensions, \<open>lib_Server\<close> that of the server handshake; \<open>lib_Spec\<close> is the
  ClientHello profile, \<open>lib_Apply\<close> whether it can be applied.  On failure the connection is given
  back as the handshake left it.
\<close>

record tls_lib =
  lib_Spec :: "tls_extension list option"
  lib_Apply :: "tls_extension list \<Rightarrow> bool"
  lib_Client :: "tls_config \<Rightarrow> tls_extension list \<Rightarrow> conn \<Rightarrow> (conn, tls_conn) result"
  lib_Server :: "tls_config \<Rightarrow> conn \<Rightarrow> (conn, tls_conn) result"
  lib_KeyPair :: "string \<Rightarrow> string \<Rightarrow> nat option"
  lib_ReadFile :: "string \<Rightarrow> bytes option"
  lib_ParsePEM :: "bytes \<Rightarrow> bool"

datatype tls_error =
    ReadCAErr
  | ParseCAErr
  | NilUnderlyingConn
  | NilTLSConfig
  | ProfileErr
  | ApplyProfileErr
  | HandshakeErr
  | NotTLS13 uint16
  | NilTLSConn
  | ExportErr
  | NotUTLSConn
  | CertFileRequired
  | KeyFileRequired
  | LoadCertErr

section \<open>tls.go\<close>

definition ExporterLabel :: string where "ExporterLabel = ''ghost-proxy''"
definition ExporterLength :: nat where "ExporterLength = 32"

definition TLSConfig :: "string \<Rightarrow> tls_config" where
  "TLSConfig serverName =
     \<lparr>cfg_ServerName = serverName, cfg_Certificates = [], cfg_MinVersion = VersionTLS13, cfg_MaxVersion = VersionTLS13,
      cfg_Renegotiation = RenegotiateNever, cfg_NextProtos = [''http/1.1''], cfg_RootCAs = None\<rparr>"

text \<open>The \<^verbatim>\<open>VerifyConnection\<close> callback of both configurations.\<close>

definition VerifyConnection :: "tls_state \<Rightarrow> tls_error option" where
  "VerifyConnection st = (if tls_Version st \<noteq> VersionTLS13 then Some (NotTLS13 (tls_Version st)) else None)"

definition TLSConfigWithRootCA :: "tls_lib \<Rightarrow> string \<Rightarrow> string \<Rightarrow> (tls_error, tls_config) result" where
  "TLSConfigWithRootCA T serverName certFile =
     (let config = TLSConfig serverName
      in if certFile = '''' then Inr config
         else
           (case lib_ReadFile T certFile of
              None \<Rightarrow> Inl ReadCAErr
            | Some certPEM \<Rightarrow>
                if \<not> lib_ParsePEM T certPEM then Inl ParseCAErr
                else Inr (config\<lparr>cfg_RootCAs := Some certPEM\<rparr>)))"

fun removeRenegotiationExtension :: "tls_extension list \<Rightarrow> tls_extension list" where
  "removeRenegotiationExtension [] = []"
| "removeRenegotiationExtension (ext # exts) =
     (case ext of
        RenegotiationInfoExtension \<Rightarrow> removeRenegotiationExtension exts
      | OtherExtension n \<Rightarrow> ext # removeRenegotiationExtension exts)"

definition set_deadline :: "bool \<Rightarrow> conn \<Rightarrow> conn" where
  "set_deadline armed c = snd (conn_SetReadDeadline armed c)"

text \<open>The second component is the raw connection after the call, to show when it was closed.\<close>

definition dialUTLS :: "tls_lib \<Rightarrow> conn option \<Rightarrow> tls_config option \<Rightarrow> (tls_error, tls_conn) result \<times> conn option" where
  "dialUTLS T rawp configp =
     (case rawp of
        None \<Rightarrow> (Inl NilUnderlyingConn, None)
      | Some raw \<Rightarrow>
          (case configp of
             None \<Rightarrow> (Inl NilTLSConfig, Some (conn_Close raw))
           | Some config \<Rightarrow>
               (case lib_Spec T of
                  None \<Rightarrow> (Inl ProfileErr, Some (conn_Close raw))
                | Some spec \<Rightarrow>
                    (let exts = removeRenegotiationExtension spec
                     in if \<not> lib_Apply T exts then (Inl ApplyProfileErr, Some (conn_Close raw))
                        else
                          (case lib_Client T config exts (set_deadline True raw) of
                             Inl raw' \<Rightarrow> (Inl HandshakeErr, Some (conn_Close raw'))
                           | Inr uconn \<Rightarrow>
                               (let inner = set_deadline False (tls_inner uconn);
                                    version = tls_Version (tls_ConnectionState uconn)
                                in if version \<noteq> VersionTLS13 then (Inl (NotTLS13 version), Some (conn_Close inner))
                                   else (Inr (uconn\<lparr>tls_inner := inner\<rparr>), Some inner)))))))"

definition DialUTLS :: "tls_lib \<Rightarrow> conn option \<Rightarrow> string \<Rightarrow> (tls_error, tls_conn) result \<times> conn option" where
  "DialUTLS T rawp serverName = dialUTLS T rawp (Some (TLSConfig serverName))"

definition DialUTLSWithConfig :: "tls_lib \<Rightarrow> conn option \<Rightarrow> tls_config option \<Rightarrow> (tls_error, tls_conn) result \<times> conn option" where
  "DialUTLSWithConfig T rawp configp = dialUTLS T rawp configp"

definition ExportKeyingMaterial :: "tls_conn option \<Rightarrow> (tls_error, bytes) result" where
  "ExportKeyingMaterial connp =
     (case connp of
        None \<Rightarrow> Inl NilTLSConn
      | Some c \<Rightarrow>
          (case tls_Export (tls_ConnectionState c) ExporterLabel ExporterLength of
             None \<Rightarrow> Inl ExportErr
           | Some material \<Rightarrow> Inr material))"

text \<open>A \<^verbatim>\<open>net.Conn\<close> value: nil, some other connection, or a uTLS connection.\<close>

datatype net_conn = NilConn | PlainConn conn | UTLSConn tls_conn

definition VerifyTLS13Connection :: "net_conn \<Rightarrow> tls_error option" where
  "VerifyTLS13Connection c =
     (case c of
        NilConn \<Rightarrow> Some NilUnderlyingConn
      | PlainConn _ \<Rightarrow> Some NotUTLSConn
      | UTLSConn u \<Rightarrow>
          (let version = tls_Version (tls_ConnectionState u)
           in if version \<noteq> VersionTLS13 then Some (NotTLS13 version) else None))"

section \<open>server.go\<close>

definition TLSServerConfig :: "tls_lib \<Rightarrow> string \<Rightarrow> string \<Rightarrow> (tls_error, tls_config) result" where
  "TLSServerConfig T certFile keyFile =
     (if certFile = '''' then Inl CertFileRequired
      else if keyFile = '''' then Inl KeyFileRequired
      else
        (case lib_KeyPair T certFile keyFile of
           None \<Rightarrow> Inl LoadCertErr
         | Some cert \<Rightarrow>
             Inr \<lparr>cfg_ServerName = '''', cfg_Certificates = [cert], cfg_MinVersion = VersionTLS13,
                  cfg_MaxVersion = VersionTLS13, cfg_Renegotiation = RenegotiateNever,
                  cfg_NextProtos = [''http/1.1''], cfg_RootCAs = None\<rparr>))"

text \<open>A failed handshake leaves the raw connection open: the caller still has to serve the decoy on it.\<close>

definition TLSServer :: "tls_lib \<Rightarrow> conn option \<Rightarrow> tls_config option \<Rightarrow> (tls_error, tls_conn) result \<times> conn option" where
  "TLSServer T rawp configp =
     (case rawp of
        None \<Rightarrow> (Inl NilUnderlyingConn, None)
      | Some raw \<Rightarrow>
          (case configp of
             None \<Rightarrow> (Inl NilTLSConfig, Some (conn_Close raw))
           | Some config \<Rightarrow>
               (case lib_Server T config raw of
                  Inl raw' \<Rightarrow> (Inl HandshakeErr, Some raw')
                | Inr c \<Rightarrow>
                    (let version = tls_Version (tls_ConnectionState c)
                     in if version \<noteq> VersionTLS13 then (Inl (NotTLS13 version), Some (tls_inner c))
                        else (Inr c, Some (tls_inner c))))))"

definition ExportServerKeyingMaterial :: "tls_conn option \<Rightarrow> (tls_error, bytes) result" where
  "ExportServerKeyingMaterial connp =
     (case connp of
        None \<Rightarrow> Inl NilTLSConn
      | Some c \<Rightarrow>
          (let version = tls_Version (tls_ConnectionState c)
           in if version \<noteq> VersionTLS13 then Inl (NotTLS13 version)
              else
                (case tls_Export (tls_ConnectionState c) ExporterLabel ExporterLength of
                   None \<Rightarrow> Inl ExportErr
                 | Some material \<Rightarrow> Inr material)))"

section \<open>Lemmas\<close>

lemma removeRenegotiationExtension_filter:
  "removeRenegotiationExtension exts = filter (\<lambda>e. e \<noteq> RenegotiationInfoExtension) exts"
  by (induction exts) (auto split: tls_extension.splits)

lemma conn_closed_simps [simp]:
  "conn_closed (conn_Close c)" "conn_closed (set_deadline b c) = conn_closed c" "conn_out (set_deadline b c) = conn_out c"
  by (simp_all add: conn_Close_def set_deadline_def conn_SetReadDeadline_def split: option.split)

lemma dialUTLS_Inr:
  "dialUTLS T rawp configp = (Inr u, raw') \<longleftrightarrow>
     (\<exists>raw config spec v. rawp = Some raw \<and> configp = Some config \<and> lib_Spec T = Some spec \<and>
        lib_Apply T (removeRenegotiationExtension spec) \<and>
        lib_Client T config (removeRenegotiationExtension spec) (set_deadline True raw) = Inr v \<and>
        tls_Version (tls_ConnectionState v) = VersionTLS13 \<and> u = v\<lparr>tls_inner := set_deadline False (tls_inner v)\<rparr> \<and>
        raw' = Some (tls_inner u))"
  by (auto simp: dialUTLS_def Let_def split: option.splits sum.splits if_splits)

section \<open>Properties\<close>

text \<open>
  C26.  The client never uses a connection that is not TLS 1.3 and leaks none: the handshake is run
  with the profile's extensions in their order, less every renegotiation extension; a connection
  comes back only if its negotiated version is 1.3, with no deadline left on it, and then it passes
  \<open>VerifyTLS13Connection\<close> and \<open>VerifyConnection\<close>; in every other case the underlying connection
  has been closed.
\<close>

theorem dialUTLS_only_TLS13:
  assumes "\<And>config exts c u. lib_Client T config exts c = Inr u \<Longrightarrow> conn_deadline_err (tls_inner u) = None"
  shows "case dialUTLS T (Some raw) (Some config) of
      (Inr u, raw') \<Rightarrow> VerifyTLS13Connection (UTLSConn u) = None \<and> VerifyConnection (tls_ConnectionState u) = None \<and>
        (\<exists>spec v. lib_Spec T = Some spec \<and>
           lib_Client T config (filter (\<lambda>e. e \<noteq> RenegotiationInfoExtension) spec) (set_deadline True raw) = Inr v \<and>
           conn_in (tls_inner u) = arm_deadline False (conn_in (tls_inner v)) \<and> conn_out (tls_inner u) = conn_out (tls_inner v))
    | (Inl e, raw') \<Rightarrow> (\<exists>c. raw' = Some c \<and> conn_closed c)"
proof (cases "dialUTLS T (Some raw) (Some config)")
  case (Pair res raw')
  show ?thesis
  proof (cases res)
    case (Inl e)
    with Pair show ?thesis
      by (auto simp: dialUTLS_def Let_def split: option.splits sum.splits if_splits)
  next
    case (Inr u)
    from Pair [unfolded Inr dialUTLS_Inr] obtain spec v where
      h: "lib_Spec T = Some spec" "lib_Client T config (removeRenegotiationExtension spec) (set_deadline True raw) = Inr v"
      "tls_Version (tls_ConnectionState v) = VersionTLS13" "u = v\<lparr>tls_inner := set_deadline False (tls_inner v)\<rparr>" by auto
    have "conn_in (set_deadline False (tls_inner v)) = arm_deadline False (conn_in (tls_inner v))"
      using assms [OF h(2)] by (simp add: set_deadline_def conn_SetReadDeadline_def)
    with h Pair Inr show ?thesis
      by (simp add: VerifyTLS13Connection_def VerifyConnection_def flip: removeRenegotiationExtension_filter)
  qed
qed

definition sample_raw :: conn where
  "sample_raw = \<lparr>conn_in = NetConn [] False EOF, conn_out = \<lparr>sent = [], wplan = []\<rparr>, conn_closed = False, conn_deadline_err = None\<rparr>"

definition sample_tls :: tls_lib where
  "sample_tls =
     \<lparr>lib_Spec = Some [OtherExtension 0, RenegotiationInfoExtension, OtherExtension 16], lib_Apply = (\<lambda>exts. True),
      lib_Client = (\<lambda>config exts c. if conn_deadline_err c = None
        then Inr \<lparr>tls_inner = c, tls_ConnectionState = \<lparr>tls_Version = VersionTLS13, tls_Export = (\<lambda>label n. Some (replicate n 6))\<rparr>\<rparr> else Inl c),
      lib_Server = (\<lambda>config c. Inr \<lparr>tls_inner = c, tls_ConnectionState = \<lparr>tls_Version = VersionTLS13, tls_Export = (\<lambda>label n. Some (replicate n 6))\<rparr>\<rparr>),
      lib_KeyPair = (\<lambda>c k. Some 1), lib_ReadFile = (\<lambda>p. Some [1]), lib_ParsePEM = (\<lambda>b. True)\<rparr>"

theorem dialUTLS_only_TLS13_witness:
  "\<exists>u raw'. dialUTLS sample_tls (Some sample_raw) (Some (TLSConfig ''example.com'')) = (Inr u, raw') \<and>
     VerifyTLS13Connection (UTLSConn u) = None"
proof -
  have "dialUTLS sample_tls (Some sample_raw) (Some (TLSConfig ''example.com'')) \<noteq> (Inl e, raw')" for e raw'
    by (simp add: dialUTLS_def sample_tls_def sample_raw_def set_deadline_def conn_SetReadDeadline_def Let_def)
  moreover have "conn_deadline_err (tls_inner u) = None" if "lib_Client sample_tls config exts c = Inr u" for config exts c u
    using that by (auto simp: sample_tls_def split: if_splits)
  ultimately show ?thesis
    using dialUTLS_only_TLS13 [where T = sample_tls and raw = sample_raw and config = "TLSConfig ''example.com''"]
    by (cases "dialUTLS sample_tls (Some sample_raw) (Some (TLSConfig ''example.com''))") (auto split: sum.splits)
qed

end
