(* ===== verification/Ghost_Client.thy ===== *)
theory Ghost_Client
  imports Data_Channel Gateway_Auth Transport_TLS
begin

text \<open>
  Package \<^verbatim>\<open>client\<close> (\<^verbatim>\<open>src/pkg/client/client.go\<close>): the pre-shared key from the
  environment, the authentication from the client's side, \<^verbatim>\<open>Dial\<close>, and the connection that it
  returns.  The two mutexes of \<^verbatim>\<open>DataConn\<close> make each \<^verbatim>\<open>Read\<close> and each \<^verbatim>\<open>Write\<close>
  atomic among calls of the same kind, so an operation is one state transition here.
\<close>

section \<open>The client and its key\<close>

record Client =
  ServerAddress :: string
  ServerName :: string
  CAFile :: string
  client_PaddingEnabled :: "bool option"
  client_JitterMS :: int
  tlsConfig :: "(tls_error, tls_config) result option"
  PSK :: bytes

datatype hex_error = InvalidByteError char | HexErrLength

datatype client_error =
    PSKNotSet
  | PSKDecodeErr hex_error
  | PSKTooShort
  | ClientNil
  | ClientPSKEmpty
  | ConnectErr nat
  | ClientTLSErr tls_error
  | ClientDeriveErr crypto_error
  | AuthCryptoErr crypto_error
  | WriteAuthErr frame_error
  | ReadAuthErr frame_error
  | AuthRejected
  | ClientChannelErr transport_error
  | SendTargetErr transport_error

definition New :: "string \<Rightarrow> string \<Rightarrow> bytes \<Rightarrow> Client" where
  "New serverAddress serverName psk =
     \<lparr>ServerAddress = serverAddress, ServerName = serverName, CAFile = '''', client_PaddingEnabled = None,
      client_JitterMS = 0, tlsConfig = None, PSK = psk\<rparr>"

text \<open>\<^verbatim>\<open>encoding/hex\<close>: pairs of hexadecimal digits in either case.\<close>

definition fromHexChar :: "char \<Rightarrow> nat option" where
  "fromHexChar c =
     (let n = of_char c :: nat
      in if 48 \<le> n \<and> n \<le> 57 then Some (n - 48)
         else if 97 \<le> n \<and> n \<le> 102 then Some (n - 87)
         else if 65 \<le> n \<and> n \<le> 70 then Some (n - 55)
         else None)"

fun hex_DecodeString :: "string \<Rightarrow> (hex_error, bytes) result" where
  "hex_DecodeString [] = Inr []"
| "hex_DecodeString [a] = (case fromHexChar a of None \<Rightarrow> Inl (InvalidByteError a) | Some _ \<Rightarrow> Inl HexErrLength)"
| "hex_DecodeString (a # b # s) =
     (case fromHexChar a of
        None \<Rightarrow> Inl (InvalidByteError a)
      | Some x \<Rightarrow>
          (case fromHexChar b of
             None \<Rightarrow> Inl (InvalidByteError b)
           | Some y \<Rightarrow>
               (case hex_DecodeString s of
                  Inl e \<Rightarrow> Inl e
                | Inr bs \<Rightarrow> Inr (of_nat (16 * x + y) # bs))))"

text \<open>\<open>env\<close> is the value of \<^verbatim>\<open>GHOST_PSK\<close>, empty when it is not set.\<close>

definition FromEnvironment :: "string \<Rightarrow> string \<Rightarrow> string \<Rightarrow> (client_error, Client) result" where
  "FromEnvironment env serverAddress serverName =
     (if env = '''' then Inl PSKNotSet
      else
        (case hex_DecodeString env of
           Inl e \<Rightarrow> Inl (PSKDecodeErr e)
         | Inr psk \<Rightarrow>
             if length psk < 16 then Inl PSKTooShort else Inr (New serverAddress serverName psk)))"

section \<open>Dialling\<close>

definition authenticate :: "conn \<Rightarrow> bytes \<Rightarrow> client_error option \<times> conn" where
  "authenticate c key =
     (let c1 = set_deadline True c
      in case ClientProof key of
           Inl e \<Rightarrow> (Some (AuthCryptoErr e), set_deadline False c1)
         | Inr proof \<Rightarrow>
             (case WriteFrame (Some \<lparr>Type = TypeAuthResponse, Nonce = zero_nonce, Ciphertext = proof\<rparr>) (conn_out c1) of
                (Some e, w) \<Rightarrow> (Some (WriteAuthErr e), set_deadline False (c1\<lparr>conn_out := w\<rparr>))
              | (None, w) \<Rightarrow>
                  (let (res, r) = ReadFrame (conn_in c1);
                       c2 = c1\<lparr>conn_out := w, conn_in := r\<rparr>
                   in case res of
                        Inl e \<Rightarrow> (Some (ReadAuthErr e), set_deadline False c2)
                      | Inr ack \<Rightarrow>
                          if Type ack \<noteq> TypeAuthSuccess then (Some AuthRejected, set_deadline False c2)
                          else (None, set_deadline False c2))))"

record DataConn =
  dc_conn :: conn
  dc_channel :: DataChannel
  dc_target :: string
  readBuffer :: bytes

text \<open>
  \<open>dialTCP\<close> is the outcome of the TCP connection attempt.  The result carries the connection to the
  server as the call left it, to show when it was closed.  \<open>tlsConfigOnce\<close> keeps the first outcome of
  building the configuration.
\<close>

definition tlsConfigOnce :: "tls_lib \<Rightarrow> Client \<Rightarrow> Client" where
  "tlsConfigOnce T c =
     (case tlsConfig c of
        None \<Rightarrow> c\<lparr>tlsConfig := Some (TLSConfigWithRootCA T (ServerName c) (CAFile c))\<rparr>
      | Some _ \<Rightarrow> c)"

definition client_Dial ::
  "crypto_lib \<Rightarrow> tls_lib \<Rightarrow> (string \<Rightarrow> (nat, conn) result) \<Rightarrow> Client option \<Rightarrow> string \<Rightarrow> rng \<Rightarrow>
   (client_error, DataConn) result \<times> conn option \<times> Client option" where
  "client_Dial L T dialTCP cp address g =
     (case cp of
        None \<Rightarrow> (Inl ClientNil, None, None)
      | Some c \<Rightarrow>
          if length (PSK c) = 0 then (Inl ClientPSKEmpty, None, cp)
          else
            (case dialTCP (ServerAddress c) of
               Inl e \<Rightarrow> (Inl (ConnectErr e), None, cp)
             | Inr raw \<Rightarrow>
                 (let c' = tlsConfigOnce T c
                  in case the (tlsConfig c') of
                       Inl e \<Rightarrow> (Inl (ClientTLSErr e), Some (conn_Close raw), Some c')
                     | Inr config \<Rightarrow>
                         (case DialUTLSWithConfig T (Some raw) (Some config) of
                            (Inl e, raw') \<Rightarrow> (Inl (ClientTLSErr e), raw', Some c')
                          | (Inr u, _) \<Rightarrow>
                              (case ExportKeyingMaterial (Some u) of
                                 Inl e \<Rightarrow> (Inl (ClientTLSErr e), Some (conn_Close (tls_inner u)), Some c')
                               | Inr exporter \<Rightarrow>
                                   (case DeriveDirectionalKeys L (PSK c') exporter of
                                      Inl e \<Rightarrow> (Inl (ClientDeriveErr e), Some (conn_Close (tls_inner u)), Some c')
                                    | Inr (c2s, s2c, auth) \<Rightarrow>
                                        (case authenticate (tls_inner u) auth of
                                           (Some e, conn1) \<Rightarrow> (Inl e, Some (conn_Close conn1), Some c')
                                         | (None, conn1) \<Rightarrow>
                                             (case NewDirectionalDataChannel L c2s s2c 1 2 g of
                                                (Inl e, g') \<Rightarrow> (Inl (ClientChannelErr e), Some (conn_Close conn1), Some c')
                                              | (Inr d, g') \<Rightarrow>
                                                  (let pe = (case client_PaddingEnabled c' of None \<Rightarrow> True | Some b \<Rightarrow> b);
                                                       d1 = SetTrafficOptions (Some d) pe (client_JitterMS c')
                                                   in case WriteConnectFrame d1 (Some (conn_out conn1)) address g' of
                                                        (Some e, _, wp, _) \<Rightarrow>
                                                          (Inl (SendTargetErr e), Some (conn_Close (conn1\<lparr>conn_out := the wp\<rparr>)), Some c')
                                                      | (None, d2, wp, _) \<Rightarrow>
                                                          (let conn2 = conn1\<lparr>conn_out := the wp\<rparr>
                                                           in (Inr \<lparr>dc_conn = conn2, dc_channel = the d2, dc_target = address, readBuffer = []\<rparr>,
                                                               Some conn2, Some c')))))))))))"

section \<open>The data connection\<close>

lemma channel_receive_rank: "channel_receive t d r = (Inr p, d', r') \<Longrightarrow> reader_rank r' < reader_rank r"
  by (auto simp: channel_receive_def split: prod.splits sum.splits if_splits option.splits dest: ReadFrame_rank)

text \<open>Frames are read until one with a payload comes.\<close>

function fill_buffer :: "DataChannel \<Rightarrow> reader \<Rightarrow> bytes \<Rightarrow> (transport_error, bytes) result \<times> DataChannel \<times> reader" where
  "fill_buffer d r buf =
     (if buf \<noteq> [] then (Inr buf, d, r)
      else
        (case ReadDataFrame (Some d) (Some r) of
           (Inl e, d', r') \<Rightarrow> (Inl e, the d', the r')
         | (Inr payload, d', r') \<Rightarrow> fill_buffer (the d') (the r') payload))"
  by pat_completeness auto
termination
  by (relation "measure (\<lambda>(d, r, buf). reader_rank r)")
    (auto simp: ReadDataFrame_def split: if_splits prod.splits dest!: channel_receive_rank)

declare fill_buffer.simps [simp del]

definition DataConn_Read :: "nat \<Rightarrow> DataConn \<Rightarrow> (bytes \<times> transport_error option) \<times> DataConn" where
  "DataConn_Read n c =
     (case fill_buffer (dc_channel c) (conn_in (dc_conn c)) (readBuffer c) of
        (Inl e, d, r) \<Rightarrow> (([], Some e), c\<lparr>dc_channel := d, dc_conn := (dc_conn c)\<lparr>conn_in := r\<rparr>\<rparr>)
      | (Inr buf, d, r) \<Rightarrow>
          ((take n buf, None),
           c\<lparr>dc_channel := d, dc_conn := (dc_conn c)\<lparr>conn_in := r\<rparr>, readBuffer := drop n buf\<rparr>))"

definition maxChunk :: nat where "maxChunk = 1442"

function DataConn_write_loop ::
  "bytes \<Rightarrow> nat \<Rightarrow> DataConn \<Rightarrow> rng \<Rightarrow> (nat \<times> transport_error option) \<times> DataConn \<times> rng" where
  "DataConn_write_loop p ntotal c g =
     (if p = [] then ((ntotal, None), c, g)
      else
        (let chunk = (if length p > maxChunk then take maxChunk p else p)
         in case WriteDataFrame (Some (dc_channel c)) (Some (conn_out (dc_conn c))) chunk g of
              (err, d, w, g') \<Rightarrow>
                (let c' = c\<lparr>dc_channel := the d, dc_conn := (dc_conn c)\<lparr>conn_out := the w\<rparr>\<rparr>
                 in case err of
                      Some e \<Rightarrow> ((ntotal, Some e), c', g')
                    | None \<Rightarrow> DataConn_write_loop (drop (length chunk) p) (ntotal + length chunk) c' g')))"
  by pat_completeness auto
termination
  by (relation "measure (\<lambda>(p, t, c, g). length p)") (auto simp: maxChunk_def)

declare DataConn_write_loop.simps [simp del]

definition DataConn_Write :: "bytes \<Rightarrow> DataConn \<Rightarrow> rng \<Rightarrow> (nat \<times> transport_error option) \<times> DataConn \<times> rng" where
  "DataConn_Write p c g = DataConn_write_loop p 0 c g"

definition DataConn_Close :: "DataConn \<Rightarrow> DataConn" where
  "DataConn_Close c = c\<lparr>dc_conn := conn_Close (dc_conn c)\<rparr>"

definition DataConn_SetReadDeadline :: "bool \<Rightarrow> DataConn \<Rightarrow> io_error option \<times> DataConn" where
  "DataConn_SetReadDeadline armed c =
     (let (err, conn) = conn_SetReadDeadline armed (dc_conn c) in (err, c\<lparr>dc_conn := conn\<rparr>))"

section \<open>Writing in chunks\<close>

function chunks :: "bytes \<Rightarrow> bytes list" where
  "chunks p = (if p = [] then [] else take maxChunk p # chunks (drop maxChunk p))"
  by pat_completeness auto
termination
  by (relation "measure length") (auto simp: maxChunk_def)

declare chunks.simps [simp del]

lemma concat_chunks [simp]: "concat (chunks p) = p"
  by (induction p rule: chunks.induct) (subst chunks.simps, auto)

lemma chunks_size: "q \<in> set (chunks p) \<Longrightarrow> 1 \<le> length q \<and> length q \<le> 1442"
proof (induction p rule: chunks.induct)
  case (1 p)
  then show ?case
    by (subst (asm) (2) chunks.simps) (auto simp: maxChunk_def Suc_le_eq split: if_splits)
qed

text \<open>A write is the sending of its chunks on the channel.\<close>

lemma DataConn_write_loop_frames:
  assumes "channel_ok (dc_channel c)"
    and "send_frames (dc_send TypeDataPayload) (chunks p) (dc_channel c) (conn_out (dc_conn c)) g = (None, d', w', g')"
  shows "DataConn_write_loop p n c g =
    ((n + length p, None), c\<lparr>dc_channel := d', dc_conn := (dc_conn c)\<lparr>conn_out := w'\<rparr>\<rparr>, g')"
  using assms
proof (induction p arbitrary: n c g rule: chunks.induct)
  case (1 p)
  show ?case
  proof (cases "p = []")
    case True
    with 1(3) show ?thesis by (simp add: DataConn_write_loop.simps chunks.simps)
  next
    case False
    let ?chunk = "take maxChunk p"
    obtain err d1 w1 g1 where one: "dc_send TypeDataPayload (dc_channel c) ?chunk (conn_out (dc_conn c)) g = (err, d1, w1, g1)"
      by (metis surj_pair)
    have err: "err = None" and rest: "send_frames (dc_send TypeDataPayload) (chunks (drop maxChunk p)) d1 w1 g1 = (None, d', w', g')"
      using 1(3) one False by (auto simp: chunks.simps [of p] split: option.splits)
    let ?c1 = "c\<lparr>dc_channel := d1, dc_conn := (dc_conn c)\<lparr>conn_out := w1\<rparr>\<rparr>"
    have ok1: "channel_ok d1" using dcs.send_any [OF 1(2) one] by simp
    have wr: "WriteDataFrame (Some (dc_channel c)) (Some (conn_out (dc_conn c))) ?chunk g = (None, Some d1, Some w1, g1)"
      using one err by (simp add: WriteDataFrame_channel [OF 1(2)])
    have chunk: "(if length p > maxChunk then take maxChunk p else p) = ?chunk" by simp
    have "DataConn_write_loop p n c g = DataConn_write_loop (drop (length ?chunk) p) (n + length ?chunk) ?c1 g1"
      using False wr unfolding DataConn_write_loop.simps [of p] chunk Let_def by simp
    also have "drop (length ?chunk) p = drop maxChunk p" by (simp add: min_def)
    also have "DataConn_write_loop (drop maxChunk p) (n + length ?chunk) ?c1 g1 =
        ((n + length ?chunk + length (drop maxChunk p), None), ?c1\<lparr>dc_channel := d', dc_conn := (dc_conn ?c1)\<lparr>conn_out := w'\<rparr>\<rparr>, g')"
      using 1(1) [OF False, of ?c1 g1 "n + length ?chunk"] ok1 rest by simp
    also have "n + length ?chunk + length (drop maxChunk p) = n + length p" by simp
    finally show ?thesis by simp
  qed
qed

abbreviation up_frames :: "DataChannel \<Rightarrow> (bytes \<times> bytes) list \<Rightarrow> frame list" where
  "up_frames d xs \<equiv> sealed_seq (the (channel_AEAD d)) (sendDirection d) TypeDataPayload (salt (the (SendNonces d)))
     (counter (the (SendNonces d))) xs"

lemma DataConn_Write_ok:
  assumes "channel_ok (dc_channel c)" "wplan (conn_out (dc_conn c)) = []" "rng_fail g = None"
  obtains xs d' g' where "\<forall>x \<in> set xs. fits x \<and> 1 \<le> length (fst x) \<and> length (fst x) \<le> 1442" "concat (map fst xs) = p"
    "DataConn_Write p c g = ((length p, None), c\<lparr>dc_channel := d', dc_conn := (dc_conn c)\<lparr>conn_out :=
       (conn_out (dc_conn c))\<lparr>sent := sent (conn_out (dc_conn c)) @ map frame_packet (up_frames (dc_channel c) xs)\<rparr>\<rparr>\<rparr>, g')"
    "channel_ok d'" "rng_fail g' = None" "counter (the (SendNonces d')) = counter (the (SendNonces (dc_channel c))) + of_nat (length xs)"
    "salt (the (SendNonces d')) = salt (the (SendNonces (dc_channel c)))" "the (channel_AEAD d') = the (channel_AEAD (dc_channel c))"
    "sendDirection d' = sendDirection (dc_channel c)"
proof -
  let ?d = "dc_channel c" and ?w = "conn_out (dc_conn c)"
  have t: "IsValidType TypeDataPayload" by (simp add: IsValidType_def)
  have "\<forall>q \<in> set (chunks p). length q \<le> payload_limit (PaddingEnabled ?d)"
    using chunks_size by (force simp: payload_limit_def)
  from dcs.send_frames_ok [OF assms(1) t assms(2,3) this] obtain d' g' fills where
    len: "length fills = length (chunks p)" and fit: "\<forall>x \<in> set (zip (chunks p) fills). fits x" and
    snd: "send_frames (dc_send TypeDataPayload) (chunks p) ?d ?w g =
      (None, d', ?w\<lparr>sent := sent ?w @ map frame_packet (up_frames ?d (zip (chunks p) fills))\<rparr>, g')" and
    rest: "rng_fail g' = None" "channel_ok d'" "the (channel_AEAD d') = the (channel_AEAD ?d)" "sendDirection d' = sendDirection ?d"
    "salt (the (SendNonces d')) = salt (the (SendNonces ?d))"
    "counter (the (SendNonces d')) = counter (the (SendNonces ?d)) + of_nat (length (chunks p))"
    by blast
  show ?thesis
  proof (rule that [of "zip (chunks p) fills" d' g'])
    show "\<forall>x \<in> set (zip (chunks p) fills). fits x \<and> 1 \<le> length (fst x) \<and> length (fst x) \<le> 1442"
      using fit chunks_size [of _ p] by (auto dest!: set_zip_leftD)
    show "concat (map fst (zip (chunks p) fills)) = p" using len by simp
    show "DataConn_Write p c g = ((length p, None), c\<lparr>dc_channel := d', dc_conn := (dc_conn c)\<lparr>conn_out :=
       ?w\<lparr>sent := sent ?w @ map frame_packet (up_frames ?d (zip (chunks p) fills))\<rparr>\<rparr>\<rparr>, g')"
      using DataConn_write_loop_frames [OF assms(1) snd, of 0] by (simp add: DataConn_Write_def)
  qed (use rest len in simp_all)
qed

section \<open>Reading the plaintext\<close>

text \<open>
  \<open>incoming c s xs\<close>: what is still to come on the connection is the frames of the server with the
  payloads of \<open>xs\<close>; the plaintext that \<^verbatim>\<open>Read\<close> has yet to return is the buffer and those payloads.
\<close>

definition incoming :: "DataConn \<Rightarrow> bytes \<Rightarrow> (bytes \<times> bytes) list \<Rightarrow> bool" where
  "incoming c s xs \<longleftrightarrow> channel_ok (dc_channel c) \<and> reader_ok (conn_in (dc_conn c)) \<and> length s = 4 \<and> (\<forall>x \<in> set xs. fits x) \<and>
     reader_stream (conn_in (dc_conn c)) =
       concat (map frame_packet (sealed_seq (the (ReceiveAEAD (dc_channel c))) (receiveDirection (dc_channel c)) TypeDataPayload s
         (receiveSequence (dc_channel c)) xs))"

definition plaintext :: "DataConn \<Rightarrow> (bytes \<times> bytes) list \<Rightarrow> bytes" where
  "plaintext c xs = readBuffer c @ concat (map fst xs)"

lemma fill_buffer_step:
  assumes "incoming c s ((p, fill) # xs)"
  obtains r' where "ReadDataFrame (Some (dc_channel c)) (Some (conn_in (dc_conn c))) =
      (Inr p, Some ((dc_channel c)\<lparr>receiveSequence := receiveSequence (dc_channel c) + 1\<rparr>), Some r')"
    "reader_fin r' = reader_fin (conn_in (dc_conn c))"
    "incoming (c\<lparr>dc_channel := (dc_channel c)\<lparr>receiveSequence := receiveSequence (dc_channel c) + 1\<rparr>,
       dc_conn := (dc_conn c)\<lparr>conn_in := r'\<rparr>\<rparr>) s xs"
proof -
  let ?d = "dc_channel c" and ?r = "conn_in (dc_conn c)"
  have h: "channel_ok ?d" "reader_ok ?r" "length s = 4" "fits (p, fill)" "\<forall>x \<in> set xs. fits x"
    using assms by (auto simp: incoming_def)
  have t: "IsValidType TypeDataPayload" by (simp add: IsValidType_def)
  obtain b where b: "ReceiveAEAD ?d = Some b" using h(1) by (auto elim!: channel_okE)
  have str: "reader_stream ?r = frame_packet (sealed_frame b (receiveDirection ?d) TypeDataPayload s (receiveSequence ?d) (envelope p @ fill)) @
      concat (map frame_packet (sealed_seq b (receiveDirection ?d) TypeDataPayload s (receiveSequence ?d + 1) xs))"
    using assms b by (simp add: incoming_def)
  from channel_receive_accepts [OF h(1) b h(2) t h(3,4) str] obtain r' where
    rd: "channel_receive TypeDataPayload ?d ?r = (Inr p, ?d\<lparr>receiveSequence := receiveSequence ?d + 1\<rparr>, r')"
    "reader_stream r' = concat (map frame_packet (sealed_seq b (receiveDirection ?d) TypeDataPayload s (receiveSequence ?d + 1) xs))"
    by blast
  note only = channel_receive_only [OF h(1) b h(2) rd(1)]
  show ?thesis
  proof (rule that [of r'])
    show "ReadDataFrame (Some ?d) (Some ?r) = (Inr p, Some (?d\<lparr>receiveSequence := receiveSequence ?d + 1\<rparr>), Some r')"
      using rd(1) by (simp add: ReadDataFrame_channel [OF h(1)])
  qed (use only rd(2) h b in \<open>simp_all add: incoming_def channel_ok_received\<close>)
qed

lemma fill_buffer_ok:
  assumes "incoming c s xs" "readBuffer c = []" "concat (map fst xs) \<noteq> []"
  shows "\<exists>q xs' d' r'. fill_buffer (dc_channel c) (conn_in (dc_conn c)) [] = (Inr q, d', r') \<and> q \<noteq> [] \<and>
    concat (map fst xs) = q @ concat (map fst xs') \<and> incoming (c\<lparr>dc_channel := d', dc_conn := (dc_conn c)\<lparr>conn_in := r'\<rparr>\<rparr>) s xs' \<and>
    reader_fin r' = reader_fin (conn_in (dc_conn c))"
  using assms
proof (induction xs arbitrary: c)
  case Nil
  then show ?case by simp
next
  case (Cons x xs)
  obtain p fill where x: "x = (p, fill)" by (cases x)
  let ?d1 = "(dc_channel c)\<lparr>receiveSequence := receiveSequence (dc_channel c) + 1\<rparr>"
  obtain r1 where rd: "ReadDataFrame (Some (dc_channel c)) (Some (conn_in (dc_conn c))) = (Inr p, Some ?d1, Some r1)"
    and fin: "reader_fin r1 = reader_fin (conn_in (dc_conn c))"
    and inc: "incoming (c\<lparr>dc_channel := ?d1, dc_conn := (dc_conn c)\<lparr>conn_in := r1\<rparr>\<rparr>) s xs"
    by (rule fill_buffer_step [OF Cons.prems(1) [unfolded x]])
  have step: "fill_buffer (dc_channel c) (conn_in (dc_conn c)) [] = fill_buffer ?d1 r1 p"
    using rd by (subst fill_buffer.simps) simp
  show ?case
  proof (cases "p = []")
    case True
    let ?c1 = "c\<lparr>dc_channel := ?d1, dc_conn := (dc_conn c)\<lparr>conn_in := r1\<rparr>\<rparr>"
    from Cons.IH [OF inc] Cons.prems(2,3) x True step fin show ?thesis by simp
  next
    case False
    then have "fill_buffer ?d1 r1 p = (Inr p, ?d1, r1)" by (simp add: fill_buffer.simps)
    with step False x inc fin show ?thesis by auto
  qed
qed

lemma fill_buffer_end:
  assumes "incoming c s xs" "concat (map fst xs) = []"
  shows "\<exists>d' r'. fill_buffer (dc_channel c) (conn_in (dc_conn c)) [] =
      (Inl (ReadErr (ReadHeaderErr (reader_fin (conn_in (dc_conn c))))), d', r') \<and>
    incoming (c\<lparr>dc_channel := d', dc_conn := (dc_conn c)\<lparr>conn_in := r'\<rparr>\<rparr>) s [] \<and> reader_fin r' = reader_fin (conn_in (dc_conn c))"
  using assms
proof (induction xs arbitrary: c)
  case Nil
  let ?r = "conn_in (dc_conn c)"
  have h: "channel_ok (dc_channel c)" "reader_ok ?r" "reader_stream ?r = []" using Nil by (simp_all add: incoming_def)
  from ReadFrame_end [OF h(2,3)] obtain r' where rf: "ReadFrame ?r = (Inl (ReadHeaderErr (reader_fin ?r)), r')" by blast
  then have "channel_receive TypeDataPayload (dc_channel c) ?r = (Inl (ReadErr (ReadHeaderErr (reader_fin ?r))), dc_channel c, r')"
    by (simp add: channel_receive_def)
  then have "fill_buffer (dc_channel c) ?r [] = (Inl (ReadErr (ReadHeaderErr (reader_fin ?r))), dc_channel c, r')"
    by (subst fill_buffer.simps) (simp add: ReadDataFrame_channel [OF h(1)])
  with ReadFrame_reads [OF h(2) rf] h(3) Nil.prems(1) show ?case by (auto simp: incoming_def)
next
  case (Cons x xs)
  obtain fill where x: "x = ([], fill)" using Cons.prems(2) by (cases x) auto
  let ?d1 = "(dc_channel c)\<lparr>receiveSequence := receiveSequence (dc_channel c) + 1\<rparr>"
  obtain r1 where rd: "ReadDataFrame (Some (dc_channel c)) (Some (conn_in (dc_conn c))) = (Inr [], Some ?d1, Some r1)"
    and fin: "reader_fin r1 = reader_fin (conn_in (dc_conn c))"
    and inc: "incoming (c\<lparr>dc_channel := ?d1, dc_conn := (dc_conn c)\<lparr>conn_in := r1\<rparr>\<rparr>) s xs"
    by (rule fill_buffer_step [OF Cons.prems(1) [unfolded x]])
  have step: "fill_buffer (dc_channel c) (conn_in (dc_conn c)) [] = fill_buffer ?d1 r1 []"
    using rd by (subst fill_buffer.simps) simp
  from Cons.IH [OF inc] Cons.prems(2) x fin show ?case by (simp add: step)
qed

lemma DataConn_Read_ok:
  assumes "incoming c s xs" "plaintext c xs \<noteq> []" "0 < n"
  shows "\<exists>d c' xs'. DataConn_Read n c = ((d, None), c') \<and> d \<noteq> [] \<and> length d \<le> n \<and> incoming c' s xs' \<and>
    plaintext c xs = d @ plaintext c' xs' \<and> reader_fin (conn_in (dc_conn c')) = reader_fin (conn_in (dc_conn c)) \<and>
    conn_out (dc_conn c') = conn_out (dc_conn c)"
proof (cases "readBuffer c = []")
  case True
  from fill_buffer_ok [OF assms(1) True] assms(2) True obtain q xs' d' r' where
    f: "fill_buffer (dc_channel c) (conn_in (dc_conn c)) [] = (Inr q, d', r')" "q \<noteq> []"
    "concat (map fst xs) = q @ concat (map fst xs')" "incoming (c\<lparr>dc_channel := d', dc_conn := (dc_conn c)\<lparr>conn_in := r'\<rparr>\<rparr>) s xs'"
    "reader_fin r' = reader_fin (conn_in (dc_conn c))" by (auto simp: plaintext_def)
  let ?c = "c\<lparr>dc_channel := d', dc_conn := (dc_conn c)\<lparr>conn_in := r'\<rparr>, readBuffer := drop n q\<rparr>"
  have "DataConn_Read n c = ((take n q, None), ?c)" using f(1) True by (simp add: DataConn_Read_def)
  moreover have "incoming ?c s xs'" using f(4) by (simp add: incoming_def)
  moreover have "plaintext c xs = take n q @ plaintext ?c xs'" using f(3) True by (simp add: plaintext_def)
  ultimately show ?thesis using f(2,5) assms(3) by (intro exI [of _ "take n q"] exI [of _ ?c] exI [of _ xs']) auto
next
  case False
  let ?c = "c\<lparr>readBuffer := drop n (readBuffer c)\<rparr>"
  have "fill_buffer (dc_channel c) (conn_in (dc_conn c)) (readBuffer c) = (Inr (readBuffer c), dc_channel c, conn_in (dc_conn c))"
    using False by (simp add: fill_buffer.simps)
  then have "DataConn_Read n c = ((take n (readBuffer c), None), ?c)" by (simp add: DataConn_Read_def)
  moreover have "incoming ?c s xs" using assms(1) by (simp add: incoming_def)
  moreover have "plaintext c xs = take n (readBuffer c) @ plaintext ?c xs" by (simp add: plaintext_def)
  ultimately show ?thesis using False assms(3) by (intro exI [of _ "take n (readBuffer c)"] exI [of _ ?c] exI [of _ xs]) auto
qed

lemma DataConn_Read_end:
  assumes "incoming c s xs" "plaintext c xs = []"
  shows "\<exists>c'. DataConn_Read n c = (([], Some (ReadErr (ReadHeaderErr (reader_fin (conn_in (dc_conn c)))))), c') \<and>
    incoming c' s [] \<and> plaintext c' [] = [] \<and> reader_fin (conn_in (dc_conn c')) = reader_fin (conn_in (dc_conn c)) \<and>
    conn_out (dc_conn c') = conn_out (dc_conn c)"
proof -
  have nil: "readBuffer c = []" "concat (map fst xs) = []" using assms(2) by (simp_all add: plaintext_def)
  from fill_buffer_end [OF assms(1) nil(2)] obtain d' r' where
    "fill_buffer (dc_channel c) (conn_in (dc_conn c)) [] = (Inl (ReadErr (ReadHeaderErr (reader_fin (conn_in (dc_conn c))))), d', r')"
    "incoming (c\<lparr>dc_channel := d', dc_conn := (dc_conn c)\<lparr>conn_in := r'\<rparr>\<rparr>) s []" "reader_fin r' = reader_fin (conn_in (dc_conn c))"
    by blast
  with nil show ?thesis by (auto simp: DataConn_Read_def plaintext_def)
qed

text \<open>A read changes the receiving half of the connection only, a write the sending half.\<close>

lemma channel_receive_frame: "channel_receive t d r = (res, d', r') \<Longrightarrow> d' = d\<lparr>receiveSequence := receiveSequence d'\<rparr>"
  by (auto simp: channel_receive_def checkSequence_def Let_def split: prod.splits sum.splits if_splits option.splits)

lemma fill_buffer_frame: "fill_buffer d r buf = (res, d', r') \<Longrightarrow> d' = d\<lparr>receiveSequence := receiveSequence d'\<rparr>"
proof (induction d r buf rule: fill_buffer.induct)
  case (1 d r buf)
  obtain x dp rp where rd: "ReadDataFrame (Some d) (Some r) = (x, dp, rp)" by (metis surj_pair)
  have fr: "the dp = d\<lparr>receiveSequence := receiveSequence (the dp)\<rparr>"
    using rd by (auto simp: ReadDataFrame_def split: if_splits prod.splits dest: channel_receive_frame)
  show ?case
  proof (cases "buf \<noteq> [] \<or> (\<exists>e. x = Inl e)")
    case True
    then have "d' = d \<or> d' = the dp" using 1(2) rd by (auto simp: fill_buffer.simps [of d r buf] split: if_splits)
    then show ?thesis using fr by (elim disjE) simp_all
  next
    case False
    then obtain p where p: "buf = []" "x = Inr p" by (cases x) auto
    then have "fill_buffer (the dp) (the rp) p = (res, d', r')" using 1(2) rd by (simp add: fill_buffer.simps [of d r "[]"])
    with 1(1) p rd have "d' = (the dp)\<lparr>receiveSequence := receiveSequence d'\<rparr>" by auto
    with fr show ?thesis by (metis (no_types, lifting) DataChannel.surjective DataChannel.update_convs(6))
  qed
qed

lemma DataConn_Read_frame:
  "DataConn_Read n c = (res, c') \<Longrightarrow>
     dc_channel c' = (dc_channel c)\<lparr>receiveSequence := receiveSequence (dc_channel c')\<rparr> \<and> conn_out (dc_conn c') = conn_out (dc_conn c)"
  by (auto simp: DataConn_Read_def split: prod.splits sum.splits dest: fill_buffer_frame)

lemma WriteDataFrame_frame:
  "WriteDataFrame (Some d) (Some w) p g = (err, dp, wp, g') \<Longrightarrow> \<exists>d'. dp = Some d' \<and> d' = d\<lparr>SendNonces := SendNonces d'\<rparr>"
  by (auto simp: WriteDataFrame_def split: option.splits prod.splits dest!: channel_send_any)

lemma DataConn_write_loop_frame:
  "DataConn_write_loop p n c g = (res, c', g') \<Longrightarrow>
     dc_channel c' = (dc_channel c)\<lparr>SendNonces := SendNonces (dc_channel c')\<rparr> \<and> conn_in (dc_conn c') = conn_in (dc_conn c) \<and>
     readBuffer c' = readBuffer c"
proof (induction p n c g rule: DataConn_write_loop.induct)
  case (1 p n c g)
  let ?chunk = "if length p > maxChunk then take maxChunk p else p"
  obtain err dp wp g1 where wr: "WriteDataFrame (Some (dc_channel c)) (Some (conn_out (dc_conn c))) ?chunk g = (err, dp, wp, g1)"
    by (metis surj_pair)
  let ?c1 = "c\<lparr>dc_channel := the dp, dc_conn := (dc_conn c)\<lparr>conn_out := the wp\<rparr>\<rparr>"
  have fr: "the dp = (dc_channel c)\<lparr>SendNonces := SendNonces (the dp)\<rparr>" using WriteDataFrame_frame [OF wr] by auto
  show ?case
  proof (cases "p = [] \<or> err \<noteq> None")
    case True
    then have "c' = c \<or> c' = ?c1" using 1(2) wr by (auto simp: DataConn_write_loop.simps [of p] Let_def split: if_splits)
    then show ?thesis using fr by (elim disjE) simp_all
  next
    case False
    then have "DataConn_write_loop (drop (length ?chunk) p) (n + length ?chunk) ?c1 g1 = (res, c', g')"
      using 1(2) wr by (simp add: DataConn_write_loop.simps [of p] Let_def)
    from 1(1) [OF _ refl wr [symmetric] refl refl refl _ this] False have
      "dc_channel c' = (the dp)\<lparr>SendNonces := SendNonces (dc_channel c')\<rparr>" "conn_in (dc_conn c') = conn_in (dc_conn c)"
      "readBuffer c' = readBuffer c" by auto
    with fr show ?thesis by (metis (no_types, lifting) DataChannel.surjective DataChannel.update_convs(3))
  qed
qed

section \<open>Authentication from the client's side\<close>

lemma success_frame_sendable: "sendable success_frame"
  by (simp add: sendable_def success_frame_def wf_frame_def zero_nonce_def IsValidType_def frame_size_defs)

definition client_proof_frame :: "bytes \<Rightarrow> frame" where
  "client_proof_frame key = \<lparr>Type = TypeAuthResponse, Nonce = zero_nonce,
     Ciphertext = hmac_sha256 key (bytes_of_string ClientAuthContext)\<rparr>"

lemma client_proof_frame_packet: "frame_packet (client_proof_frame (authKey s)) = proof_packet s"
  by (simp add: client_proof_frame_def proof_packet_def)

lemma client_proof_frame_sendable: "sendable (client_proof_frame key)"
  by (simp add: sendable_def client_proof_frame_def wf_frame_def zero_nonce_def IsValidType_def frame_size_defs)

lemma authenticate_ok:
  assumes "conn_in c = NetConn as b e" "conn_deadline_err c = None" "wplan (conn_out c) = []" "key \<noteq> []"
    and "net_stream as True = frame_packet success_frame @ rest"
  obtains as' where "authenticate c key = (None, c\<lparr>conn_in := NetConn as' False e,
      conn_out := (conn_out c)\<lparr>sent := sent (conn_out c) @ [frame_packet (client_proof_frame key)]\<rparr>\<rparr>)"
    "net_stream as False = frame_packet success_frame @ net_stream as' False"
proof -
  let ?r = "NetConn as True e"
  have ok: "reader_ok ?r" and parse: "parse_frame (reader_stream ?r) = Some (success_frame, rest)"
    using assms(5) by (simp_all add: parse_frame_packet success_frame_sendable)
  from ReadFrame_parses [OF ok parse] obtain r' where
    rf: "ReadFrame ?r = (Inr success_frame, r')" "reads io_Read ?r (frame_packet success_frame) r'" by metis
  from reads_net [OF rf(2)] obtain as' where as': "r' = NetConn as' True e"
    "net_stream as False = frame_packet success_frame @ net_stream as' False" by blast
  have pf: "ClientProof key = Inr (Ciphertext (client_proof_frame key))"
    using assms(4) by (simp add: ClientProof_def client_proof_frame_def)
  have wf: "WriteFrame (Some \<lparr>Type = TypeAuthResponse, Nonce = zero_nonce, Ciphertext = Ciphertext (client_proof_frame key)\<rparr>) (conn_out c) =
      (None, (conn_out c)\<lparr>sent := sent (conn_out c) @ [frame_packet (client_proof_frame key)]\<rparr>)"
    using WriteFrame_ok [OF client_proof_frame_sendable assms(3), of key] by (simp add: client_proof_frame_def)
  have "Type success_frame = TypeAuthSuccess" by (simp add: success_frame_def)
  then have "authenticate c key = (None, c\<lparr>conn_in := NetConn as' False e,
      conn_out := (conn_out c)\<lparr>sent := sent (conn_out c) @ [frame_packet (client_proof_frame key)]\<rparr>\<rparr>)"
    using pf wf rf(1) as'(1) assms(1,2)
    by (simp add: authenticate_def set_deadline_def conn_SetReadDeadline_def Let_def)
  with as'(2) show ?thesis by (intro that)
qed

lemma authenticate_closed: "authenticate c key = (err, c') \<Longrightarrow> conn_closed c' = conn_closed c"
  by (auto simp: authenticate_def Let_def split: prod.splits sum.splits option.splits if_splits)

text \<open>A dial to a gateway that accepts the proof: both packets are sent and the channel is set up.\<close>

lemma client_Dial_connects:
  assumes "crypto_lib_ok L" "PSK cl \<noteq> []" "dialTCP (ServerAddress cl) = Inr raw" "the (tlsConfig (tlsConfigOnce T cl)) = Inr config"
    and "DialUTLSWithConfig T (Some raw) (Some config) = (Inr u, x)" "ExportKeyingMaterial (Some u) = Inr ex"
    and "DeriveDirectionalKeys L (PSK cl) ex = Inr (c2s, s2c, auth)" "length c2s = KeySize" "length s2c = KeySize" "length auth = KeySize"
    and "conn_in (tls_inner u) = NetConn as b e" "conn_deadline_err (tls_inner u) = None" "wplan (conn_out (tls_inner u)) = []"
    and "net_stream as True = frame_packet success_frame @ tail" "validateTarget target = None" "rng_fail g = None"
  obtains dc connp cp as' fill where "client_Dial L T dialTCP (Some cl) target g = (Inr dc, connp, cp)"
    "channel_ok (dc_channel dc)" "NewAEAD L c2s = Inr (the (channel_AEAD (dc_channel dc)))"
    "NewAEAD L s2c = Inr (the (ReceiveAEAD (dc_channel dc)))" "sendDirection (dc_channel dc) = 1" "receiveDirection (dc_channel dc) = 2"
    "counter (the (SendNonces (dc_channel dc))) = 1" "receiveSequence (dc_channel dc) = 0"
    "conn_in (dc_conn dc) = NetConn as' False e" "net_stream as False = frame_packet success_frame @ net_stream as' False"
    "wplan (conn_out (dc_conn dc)) = []" "fits (bytes_of_string target, fill)" "readBuffer dc = []"
    "sent (conn_out (dc_conn dc)) = sent (conn_out (tls_inner u)) @ [frame_packet (client_proof_frame auth),
       frame_packet (sealed_frame (the (channel_AEAD (dc_channel dc))) 1 TypeConnOpen (salt (the (SendNonces (dc_channel dc)))) 0
         (envelope (bytes_of_string target) @ fill))]"
proof -
  have "auth \<noteq> []" using assms(10) by (auto simp: KeySize_def)
  from authenticate_ok [OF assms(11-13) this assms(14)] obtain as' where
    au: "authenticate (tls_inner u) auth = (None, (tls_inner u)\<lparr>conn_in := NetConn as' False e,
      conn_out := (conn_out (tls_inner u))\<lparr>sent := sent (conn_out (tls_inner u)) @ [frame_packet (client_proof_frame auth)]\<rparr>\<rparr>)"
    "net_stream as False = frame_packet success_frame @ net_stream as' False" .
  from NewDirectionalDataChannel_works [OF assms(1,8,9,16)] obtain d g' where
    new: "NewDirectionalDataChannel L c2s s2c 1 2 g = (Inr d, g')" by blast
  note d = NewDirectionalDataChannel_Inr [OF assms(1) new]
  let ?w = "(conn_out (tls_inner u))\<lparr>sent := sent (conn_out (tls_inner u)) @ [frame_packet (client_proof_frame auth)]\<rparr>"
  obtain d1 where d1: "SetTrafficOptions (Some d) (case client_PaddingEnabled (tlsConfigOnce T cl) of None \<Rightarrow> True | Some b \<Rightarrow> b)
      (client_JitterMS (tlsConfigOnce T cl)) = Some d1" and d1d: "d1 = d\<lparr>PaddingEnabled := PaddingEnabled d1, JitterMS := JitterMS d1\<rparr>"
    by (auto simp: SetTrafficOptions_def Let_def)
  have keep: "channel_ok d1" "channel_AEAD d1 = channel_AEAD d" "ReceiveAEAD d1 = ReceiveAEAD d" "SendNonces d1 = SendNonces d"
    "sendDirection d1 = 1" "receiveDirection d1 = 2" "receiveSequence d1 = 0"
    using d by (subst d1d, simp add: channel_ok_def)+
  have t: "IsValidType TypeConnOpen" by (simp add: IsValidType_def)
  have lim: "length (bytes_of_string target) \<le> payload_limit (PaddingEnabled d1)"
    using validateTarget_length [OF assms(15)] by (simp add: payload_limit_def)
  have w: "wplan ?w = []" "rng_fail g' = None" using assms(13,16) d by simp_all
  from dcs.send_ok [OF keep(1) t w lim] obtain d2 g2 fill where
    snd: "dc_send TypeConnOpen d1 (bytes_of_string target) ?w g' = (None, d2, ?w\<lparr>sent := sent ?w @ [frame_packet
      (sealed_frame (the (channel_AEAD d1)) (sendDirection d1) TypeConnOpen (salt (the (SendNonces d1))) (counter (the (SendNonces d1)))
        (envelope (bytes_of_string target) @ fill))]\<rparr>, g2)"
    "fits (bytes_of_string target, fill)" and
    d2: "channel_ok d2" "the (channel_AEAD d2) = the (channel_AEAD d1)" "sendDirection d2 = sendDirection d1"
    "salt (the (SendNonces d2)) = salt (the (SendNonces d1))" "counter (the (SendNonces d2)) = counter (the (SendNonces d1)) + 1"
    by blast
  have "d2 = d1\<lparr>SendNonces := SendNonces d2\<rparr>"
    using channel_send_any [OF snd(1) [unfolded dc_send_def]] by auto
  then have rcv: "ReceiveAEAD d2 = ReceiveAEAD d1" "receiveDirection d2 = receiveDirection d1" "receiveSequence d2 = receiveSequence d1"
    by (metis DataChannel.select_convs(2,5,6) DataChannel.surjective DataChannel.update_convs(3))+
  have psk: "PSK (tlsConfigOnce T cl) = PSK cl" by (simp add: tlsConfigOnce_def split: option.splits)
  let ?conn = "(tls_inner u)\<lparr>conn_in := NetConn as' False e, conn_out := ?w\<lparr>sent := sent ?w @ [frame_packet
      (sealed_frame (the (channel_AEAD d1)) (sendDirection d1) TypeConnOpen (salt (the (SendNonces d1))) (counter (the (SendNonces d1)))
        (envelope (bytes_of_string target) @ fill))]\<rparr>\<rparr>"
  let ?dc = "\<lparr>dc_conn = ?conn, dc_channel = d2, dc_target = target, readBuffer = []\<rparr>"
  have "client_Dial L T dialTCP (Some cl) target g = (Inr ?dc, Some ?conn, Some (tlsConfigOnce T cl))"
    using assms(2-7) au(1) new d1 snd(1) psk
    by (simp add: client_Dial_def WriteConnectFrame_channel [OF keep(1) assms(15)] Let_def)
  then show ?thesis
    by (rule that [where as' = as' and fill = fill]) (use d keep d2 rcv au(2) snd(2) w in simp_all)
qed

section \<open>Hexadecimal keys\<close>

definition hex_digits :: string where "hex_digits = ''0123456789abcdef''"

definition hex_EncodeToString :: "bytes \<Rightarrow> string" where
  "hex_EncodeToString bs = concat (map (\<lambda>b. [hex_digits ! (unat b div 16), hex_digits ! (unat b mod 16)]) bs)"

lemma fromHexChar_digit: "n < 16 \<Longrightarrow> fromHexChar (hex_digits ! n) = Some n"
proof -
  have "list_all (\<lambda>n. fromHexChar (hex_digits ! n) = Some n) [0..<16]" by code_simp
  then show "n < 16 \<Longrightarrow> fromHexChar (hex_digits ! n) = Some n" by (simp add: list_all_iff)
qed

lemma hex_Decode_Encode: "hex_DecodeString (hex_EncodeToString bs) = Inr bs"
proof (induction bs)
  case Nil
  then show ?case by (simp add: hex_EncodeToString_def)
next
  case (Cons b bs)
  have "unat b div 16 < 16" "unat b mod 16 < 16" using unat_byte_bound [of b] by (simp_all add: less_mult_imp_div_less)
  then show ?case using Cons by (simp add: hex_EncodeToString_def fromHexChar_digit)
qed

lemma hex_DecodeString_length: "hex_DecodeString s = Inr bs \<Longrightarrow> length s = 2 * length bs"
  by (induction s arbitrary: bs rule: hex_DecodeString.induct) (auto split: option.splits sum.splits)

section \<open>Properties\<close>

text \<open>
  The key from the environment: the hexadecimal text of any key of at least 16 bytes gives a
  client with exactly that key; whatever is accepted is an even number of at least 32 characters that
  decodes to the client's key.
\<close>

theorem FromEnvironment_key:
  "(if 16 \<le> length key then FromEnvironment (hex_EncodeToString key) addr name = Inr (New addr name key)
    else \<exists>e. FromEnvironment (hex_EncodeToString key) addr name = Inl e) \<and>
   (case FromEnvironment env addr name of
      Inl e \<Rightarrow> True
    | Inr c \<Rightarrow> hex_DecodeString env = Inr (PSK c) \<and> length env = 2 * length (PSK c) \<and> 32 \<le> length env \<and> c = New addr name (PSK c))"
proof -
  have empty: "hex_EncodeToString key = '''' \<longleftrightarrow> key = []"
    by (cases key) (simp_all add: hex_EncodeToString_def)
  show ?thesis
    by (auto simp: FromEnvironment_def empty hex_Decode_Encode New_def dest: hex_DecodeString_length
        split: sum.splits if_splits)
qed

lemma dialUTLS_closed: "dialUTLS T (Some raw) (Some config) = (Inl e, raw') \<Longrightarrow> \<exists>c. raw' = Some c \<and> conn_closed c"
  by (auto simp: dialUTLS_def Let_def split: option.splits sum.splits if_splits)

text \<open>
  C33.  \<^verbatim>\<open>Dial\<close> leaks no connection: whenever it fails after the TCP connection was made, for any
  reason on the way (configuration, handshake, exporter, key derivation, authentication, channel,
  target), the connection to the server has been closed.
\<close>

theorem Dial_closes_on_failure:
  "case client_Dial L T dialTCP cp address g of
     (Inl e, connp, cp') \<Rightarrow> (case connp of None \<Rightarrow> e = ClientNil \<or> e = ClientPSKEmpty \<or> (\<exists>n. e = ConnectErr n) | Some c \<Rightarrow> conn_closed c)
   | (Inr dc, connp, cp') \<Rightarrow> connp = Some (dc_conn dc) \<and> dc_target dc = address \<and> readBuffer dc = []"
  by (auto simp: client_Dial_def DialUTLSWithConfig_def Let_def split: option.splits sum.splits prod.splits if_splits
      dest: dialUTLS_closed)

section \<open>Well-formed data connections\<close>

text \<open>
  A connection for the session keys \<open>a\<close> (to the server) and \<open>b\<close> (from it) with the nonce salt \<open>s\<close>: both
  ciphers are there, the direction bytes are those of the client, and the nonce counter is well formed.
\<close>

definition dc_typed :: "AEAD \<Rightarrow> AEAD \<Rightarrow> bytes \<Rightarrow> DataConn \<Rightarrow> bool" where
  "dc_typed a b s c \<longleftrightarrow> channel_ok (dc_channel c) \<and> channel_AEAD (dc_channel c) = Some a \<and> ReceiveAEAD (dc_channel c) = Some b \<and>
     sendDirection (dc_channel c) = 1 \<and> receiveDirection (dc_channel c) = 2 \<and> salt (the (SendNonces (dc_channel c))) = s"

lemma DataConn_Read_typed:
  assumes "dc_typed a b s c" "DataConn_Read n c = (res, c')"
  shows "dc_typed a b s c'"
proof -
  have "dc_channel c' = (dc_channel c)\<lparr>receiveSequence := receiveSequence (dc_channel c')\<rparr>" using DataConn_Read_frame [OF assms(2)] by simp
  with assms(1) show ?thesis
    unfolding dc_typed_def by (metis DataChannel.select_convs(1-5) DataChannel.surjective DataChannel.update_convs(6) channel_ok_received)
qed

lemma DataConn_write_loop_typed: "dc_typed a b s c \<Longrightarrow> DataConn_write_loop p n c g = (res, c', g') \<Longrightarrow> dc_typed a b s c'"
proof (induction p n c g rule: DataConn_write_loop.induct)
  case (1 p n c g)
  let ?chunk = "if length p > maxChunk then take maxChunk p else p"
  have ok: "channel_ok (dc_channel c)" using 1(2) by (simp add: dc_typed_def)
  obtain err d w g1 where one: "dc_send TypeDataPayload (dc_channel c) ?chunk (conn_out (dc_conn c)) g = (err, d, w, g1)" by (metis surj_pair)
  have wr: "WriteDataFrame (Some (dc_channel c)) (Some (conn_out (dc_conn c))) ?chunk g = (err, Some d, Some w, g1)"
    using one by (simp add: WriteDataFrame_channel [OF ok])
  let ?c1 = "c\<lparr>dc_channel := d, dc_conn := (dc_conn c)\<lparr>conn_out := w\<rparr>\<rparr>"
  have fr: "d = (dc_channel c)\<lparr>SendNonces := SendNonces d\<rparr>" using WriteDataFrame_frame [OF wr] by auto
  have "channel_ok d" "salt (the (SendNonces d)) = salt (the (SendNonces (dc_channel c)))" using dcs.send_any [OF ok one] by simp_all
  moreover have "channel_AEAD d = channel_AEAD (dc_channel c)" "ReceiveAEAD d = ReceiveAEAD (dc_channel c)"
    "sendDirection d = sendDirection (dc_channel c)" "receiveDirection d = receiveDirection (dc_channel c)" by (subst fr, simp)+
  ultimately have typed: "dc_typed a b s ?c1" using 1(2) by (simp add: dc_typed_def)
  show ?case
  proof (cases "p = [] \<or> err \<noteq> None")
    case True
    then have "c' = c \<or> c' = ?c1" using 1(3) wr by (auto simp: DataConn_write_loop.simps [of p] Let_def split: if_splits)
    then show ?thesis using 1(2) typed by blast
  next
    case False
    then have "DataConn_write_loop (drop (length ?chunk) p) (n + length ?chunk)
        (c\<lparr>dc_channel := the (Some d), dc_conn := (dc_conn c)\<lparr>conn_out := the (Some w)\<rparr>\<rparr>) g1 = (res, c', g')"
      using 1(3) wr by (simp add: DataConn_write_loop.simps [of p] Let_def)
    from 1(1) [OF _ refl wr [symmetric] refl refl refl _ _ this] False typed show ?thesis by simp
  qed
qed

text \<open>What a successful \<^verbatim>\<open>Dial\<close> went through.\<close>

lemma client_Dial_typed:
  assumes "crypto_lib_ok L" "client_Dial L T dialTCP cp address g = (Inr c, connp, cp')"
  obtains cl ex c2s s2c auth a b where "cp = Some cl" "DeriveDirectionalKeys L (PSK cl) ex = Inr (c2s, s2c, auth)"
    "NewAEAD L c2s = Inr a" "NewAEAD L s2c = Inr b" "dc_typed a b (salt (the (SendNonces (dc_channel c)))) c" "validateTarget address = None"
proof -
  obtain cl ex c2s s2c auth d g1 d2 wp g2 pe j w where
    k: "cp = Some cl" "DeriveDirectionalKeys L (PSK cl) ex = Inr (c2s, s2c, auth)" and
    new: "NewDirectionalDataChannel L c2s s2c 1 2 g = (Inr d, g1)" and
    wr: "WriteConnectFrame (SetTrafficOptions (Some d) pe j) (Some w) address g1 = (None, d2, wp, g2)" and c: "dc_channel c = the d2"
    using assms(2)
    by (auto simp: client_Dial_def tlsConfigOnce_def Let_def split: option.splits sum.splits prod.splits if_splits)
  note d = NewDirectionalDataChannel_Inr [OF assms(1) new]
  obtain d1 where d1: "SetTrafficOptions (Some d) pe j = Some d1" "d1 = d\<lparr>PaddingEnabled := PaddingEnabled d1, JitterMS := JitterMS d1\<rparr>"
    by (auto simp: SetTrafficOptions_def Let_def)
  have keep: "channel_ok d1" "channel_AEAD d1 = channel_AEAD d" "ReceiveAEAD d1 = ReceiveAEAD d" "sendDirection d1 = 1" "receiveDirection d1 = 2"
    using d by (subst d1(2), simp add: channel_ok_def)+
  have valid: "validateTarget address = None"
    using wr d1(1) keep(1) by (auto simp: WriteConnectFrame_def elim!: channel_okE split: option.splits)
  obtain w' where snd: "dc_send TypeConnOpen d1 (bytes_of_string address) w g1 = (None, the d2, w', g2)"
    using wr d1(1) WriteConnectFrame_channel [OF keep(1) valid, of w g1] by (auto split: prod.splits)
  have ok: "channel_ok (the d2)" using dcs.send_any [OF keep(1) snd] by simp
  have "the d2 = d1 \<or> (\<exists>x. the d2 = d1\<lparr>SendNonces := x\<rparr>)" using channel_send_any [OF snd [unfolded dc_send_def]] by auto
  then have "channel_AEAD (the d2) = channel_AEAD d1" "ReceiveAEAD (the d2) = ReceiveAEAD d1"
    "sendDirection (the d2) = 1" "receiveDirection (the d2) = 2" using keep by auto
  moreover obtain a b where "channel_AEAD d = Some a" "ReceiveAEAD d = Some b" using d by (auto elim!: channel_okE)
  ultimately show ?thesis using that [OF k] c ok valid d keep(2,3) by (auto simp: dc_typed_def)
qed

text \<open>
  C32.  A data connection keeps its type: whatever \<^verbatim>\<open>Dial\<close> returns successfully is a well-formed
  connection for the two keys derived from the pre-shared key, with the client's direction bytes and for a
  valid target; and no operation on it, successful or not, ever changes its keys, its direction bytes or
  the salt of its nonces, or leaves it without one of them.
\<close>

theorem DataConn_typed:
  assumes "crypto_lib_ok L"
  shows "(client_Dial L T dialTCP cp address g = (Inr c, connp, cp') \<longrightarrow>
      validateTarget address = None \<and>
      (\<exists>cl ex c2s s2c auth a b s. cp = Some cl \<and> DeriveDirectionalKeys L (PSK cl) ex = Inr (c2s, s2c, auth) \<and>
         NewAEAD L c2s = Inr a \<and> NewAEAD L s2c = Inr b \<and> dc_typed a b s c)) \<and>
    (dc_typed a b s c \<longrightarrow>
      (\<forall>n res c'. DataConn_Read n c = (res, c') \<longrightarrow> dc_typed a b s c') \<and>
      (\<forall>p g res c' g'. DataConn_Write p c g = (res, c', g') \<longrightarrow> dc_typed a b s c') \<and>
      (\<forall>armed res c'. DataConn_SetReadDeadline armed c = (res, c') \<longrightarrow> dc_typed a b s c') \<and> dc_typed a b s (DataConn_Close c))"
proof (intro conjI impI allI)
  assume "client_Dial L T dialTCP cp address g = (Inr c, connp, cp')"
  from client_Dial_typed [OF assms this] show "validateTarget address = None"
    "\<exists>cl ex c2s s2c auth a b s. cp = Some cl \<and> DeriveDirectionalKeys L (PSK cl) ex = Inr (c2s, s2c, auth) \<and>
       NewAEAD L c2s = Inr a \<and> NewAEAD L s2c = Inr b \<and> dc_typed a b s c" by metis+
next
  fix n res c' assume "dc_typed a b s c" "DataConn_Read n c = (res, c')"
  then show "dc_typed a b s c'" by (rule DataConn_Read_typed)
next
  fix p g res c' g' assume "dc_typed a b s c" "DataConn_Write p c g = (res, c', g')"
  then show "dc_typed a b s c'" unfolding DataConn_Write_def by (rule DataConn_write_loop_typed)
qed (auto simp: DataConn_SetReadDeadline_def DataConn_Close_def dc_typed_def split: prod.splits)

text \<open>A server that answers with the success frame, on a TLS 1.3 connection.\<close>

definition sample_ready_conn :: conn where
  "sample_ready_conn = sample_conn [Data (frame_packet success_frame)]"

definition sample_tls_conn :: tls_conn where
  "sample_tls_conn = \<lparr>tls_inner = sample_ready_conn,
     tls_ConnectionState = \<lparr>tls_Version = VersionTLS13, tls_Export = (\<lambda>label n. Some (replicate n 6))\<rparr>\<rparr>"

lemma sample_dial:
  "the (tlsConfig (tlsConfigOnce sample_tls (New ''gw:443'' ''gw'' psk))) = Inr (TLSConfig ''gw'')"
  "DialUTLSWithConfig sample_tls (Some sample_ready_conn) (Some (TLSConfig ''gw'')) = (Inr sample_tls_conn, Some sample_ready_conn)"
  "ExportKeyingMaterial (Some sample_tls_conn) = Inr (replicate 32 6)"
  "conn_in (tls_inner sample_tls_conn) = NetConn [Data (frame_packet success_frame)] False EOF"
  "conn_deadline_err (tls_inner sample_tls_conn) = None" "wplan (conn_out (tls_inner sample_tls_conn)) = []"
  "net_stream [Data (frame_packet success_frame)] True = frame_packet success_frame @ []"
  "rng_fail sample_rng = None" "PSK (New ''gw:443'' ''gw'' psk) = psk"
  by (simp_all add: DialUTLSWithConfig_def dialUTLS_def sample_tls_def sample_tls_conn_def sample_ready_conn_def sample_conn_def
      set_deadline_def conn_SetReadDeadline_def Let_def tlsConfigOnce_def New_def TLSConfigWithRootCA_def ExportKeyingMaterial_def
      ExporterLength_def sample_writer_def sample_rng_def)

theorem DataConn_typed_witness:
  "\<exists>c connp cp a b s. client_Dial sample_lib sample_tls (\<lambda>a. Inr sample_ready_conn) (Some (New ''gw:443'' ''gw'' (replicate 16 7)))
       ''example.com:80'' sample_rng = (Inr c, connp, cp) \<and> dc_typed a b s (DataConn_Close c)"
proof -
  let ?cl = "New ''gw:443'' ''gw'' (replicate 16 7)" and ?dialTCP = "\<lambda>a. Inr sample_ready_conn"
  have psk: "PSK ?cl \<noteq> []" by (simp add: sample_dial(9))
  obtain s where "NewAuthSession sample_lib (PSK ?cl) (replicate 32 6) = Inr s"
    and s: "DeriveDirectionalKeys sample_lib (PSK ?cl) (replicate 32 6) = Inr (c2sKey s, s2cKey s, authKey s)"
    "length (c2sKey s) = KeySize" "length (s2cKey s) = KeySize" "length (authKey s) = KeySize"
    by (rule NewAuthSession_works [OF sample_lib_ok psk])
  have target: "validateTarget ''example.com:80'' = None" by code_simp
  obtain c connp cp where dial: "client_Dial sample_lib sample_tls ?dialTCP (Some ?cl) ''example.com:80'' sample_rng = (Inr c, connp, cp)"
    by (rule client_Dial_connects [where dialTCP = ?dialTCP, OF sample_lib_ok psk refl sample_dial(1-3) s sample_dial(4-7) target sample_dial(8)])
  from DataConn_typed [OF sample_lib_ok, THEN conjunct1, THEN mp, OF dial] obtain a b s where "dc_typed a b s c" by blast
  from DataConn_typed [OF sample_lib_ok, THEN conjunct2, THEN mp, OF this] have "dc_typed a b s (DataConn_Close c)" by blast
  with dial show ?thesis by blast
qed

end
