(* ===== verification/Go_IP.thy ===== *)
theory Go_IP
  imports Go_Net
begin

text \<open>
  IP addresses of the Go standard library (packages \<^verbatim>\<open>net\<close> and \<^verbatim>\<open>net/netip\<close>): the address
  classes that the destination policy and the profiling check ask for, printing, parsing, and
  CIDR networks.
\<close>

type_synonym IP = bytes

definition IPv4len :: nat where "IPv4len = 4"
definition IPv6len :: nat where "IPv6len = 16"

definition v4InV6Prefix :: bytes where
  "v4InV6Prefix = [0, 0, 0, 0, 0, 0, 0, 0, 0, 0, 0xff, 0xff]"

definition To4 :: "IP \<Rightarrow> IP option" where
  "To4 ip =
     (if length ip = IPv4len then Some ip
      else if length ip = IPv6len \<and> take 12 ip = v4InV6Prefix then Some (drop 12 ip)
      else None)"

definition To16 :: "IP \<Rightarrow> IP option" where
  "To16 ip =
     (if length ip = IPv4len then Some (v4InV6Prefix @ ip)
      else if length ip = IPv6len then Some ip
      else None)"

definition IP_Equal :: "IP \<Rightarrow> IP \<Rightarrow> bool" where
  "IP_Equal ip x =
     (if length ip = length x then ip = x
      else if length ip = IPv4len \<and> length x = IPv6len then take 12 x = v4InV6Prefix \<and> ip = drop 12 x
      else if length ip = IPv6len \<and> length x = IPv4len then take 12 ip = v4InV6Prefix \<and> drop 12 ip = x
      else False)"

section \<open>Address classes\<close>

definition IPv6loopback :: IP where "IPv6loopback = replicate 15 0 @ [1]"
definition IPv6unspecified :: IP where "IPv6unspecified = replicate 16 0"
definition IPv4zero :: IP where "IPv4zero = v4InV6Prefix @ [0, 0, 0, 0]"

definition IsUnspecified :: "IP \<Rightarrow> bool" where
  "IsUnspecified ip \<longleftrightarrow> IP_Equal ip IPv4zero \<or> IP_Equal ip IPv6unspecified"

definition IsLoopback :: "IP \<Rightarrow> bool" where
  "IsLoopback ip =
     (case To4 ip of
        Some ip4 \<Rightarrow> ip4 ! 0 = 127
      | None \<Rightarrow> IP_Equal ip IPv6loopback)"

definition IsPrivate :: "IP \<Rightarrow> bool" where
  "IsPrivate ip =
     (case To4 ip of
        Some ip4 \<Rightarrow>
          ip4 ! 0 = 10 \<or> (ip4 ! 0 = 172 \<and> ip4 ! 1 AND 0xf0 = 16) \<or> (ip4 ! 0 = 192 \<and> ip4 ! 1 = 168)
      | None \<Rightarrow> length ip = IPv6len \<and> ip ! 0 AND 0xfe = 0xfc)"

definition IsMulticast :: "IP \<Rightarrow> bool" where
  "IsMulticast ip =
     (case To4 ip of
        Some ip4 \<Rightarrow> ip4 ! 0 AND 0xf0 = 0xe0
      | None \<Rightarrow> length ip = IPv6len \<and> ip ! 0 = 0xff)"

definition IsLinkLocalMulticast :: "IP \<Rightarrow> bool" where
  "IsLinkLocalMulticast ip =
     (case To4 ip of
        Some ip4 \<Rightarrow> ip4 ! 0 = 224 \<and> ip4 ! 1 = 0 \<and> ip4 ! 2 = 0
      | None \<Rightarrow> length ip = IPv6len \<and> ip ! 0 = 0xff \<and> ip ! 1 AND 0x0f = 0x02)"

definition IsLinkLocalUnicast :: "IP \<Rightarrow> bool" where
  "IsLinkLocalUnicast ip =
     (case To4 ip of
        Some ip4 \<Rightarrow> ip4 ! 0 = 169 \<and> ip4 ! 1 = 254
      | None \<Rightarrow> length ip = IPv6len \<and> ip ! 0 = 0xfe \<and> ip ! 1 AND 0xc0 = 0x80)"

lemmas ip_defs = To4_def IPv4len_def IPv6len_def v4InV6Prefix_def IP_Equal_def IPv6loopback_def
  IPv6unspecified_def IPv4zero_def

lemmas ip_class_defs = IsUnspecified_def IsLoopback_def IsPrivate_def IsMulticast_def
  IsLinkLocalMulticast_def IsLinkLocalUnicast_def

section \<open>Printing\<close>

definition hex_char :: "nat \<Rightarrow> char" where
  "hex_char d = (if d < 10 then char_of (48 + d) else char_of (87 + d))"

fun hex_string :: "nat \<Rightarrow> string" where
  "hex_string n = (if n < 16 then [hex_char n] else hex_string (n div 16) @ [hex_char (n mod 16)])"

declare hex_string.simps [simp del]

fun join_with :: "string \<Rightarrow> string list \<Rightarrow> string" where
  "join_with sep [] = []"
| "join_with sep [x] = x"
| "join_with sep (x # y # xs) = x @ sep @ join_with sep (y # xs)"

text \<open>
  The 16-bit groups of an IPv6 address, and the longest run of at least two zero groups, the first
  one where several are equally long.
\<close>

fun ip_groups :: "bytes \<Rightarrow> nat list" where
  "ip_groups (a # b # rest) = (unat a * 256 + unat b) # ip_groups rest"
| "ip_groups _ = []"

definition zero_run :: "nat list \<Rightarrow> (nat \<times> nat) option" where
  "zero_run gs =
     fold (\<lambda>i best.
         let l = length (takeWhile (\<lambda>g. g = 0) (drop i gs))
         in if l \<ge> 2 \<and> l > (case best of None \<Rightarrow> 0 | Some (a, b) \<Rightarrow> b - a) then Some (i, i + l) else best)
       [0..<length gs] None"

definition IP6_String :: "IP \<Rightarrow> string" where
  "IP6_String ip =
     (let gs = ip_groups ip in
      case zero_run gs of
        None \<Rightarrow> join_with '':'' (map hex_string gs)
      | Some (a, b) \<Rightarrow>
          join_with '':'' (map hex_string (take a gs)) @ ''::'' @ join_with '':'' (map hex_string (drop b gs)))"

definition IP4_String :: "IP \<Rightarrow> string" where
  "IP4_String ip = join_with ''.'' (map (\<lambda>b. Itoa (unat b)) ip)"

definition IP_String :: "IP \<Rightarrow> string" where
  "IP_String ip =
     (if length ip = 0 then ''<nil>''
      else if length ip \<noteq> IPv4len \<and> length ip \<noteq> IPv6len
      then ''?'' @ concat (map (\<lambda>b. [hex_char (unat b div 16), hex_char (unat b mod 16)]) ip)
      else (case To4 ip of
              Some p4 \<Rightarrow> IP4_String p4
            | None \<Rightarrow> IP6_String ip))"

section \<open>Parsing\<close>

text \<open>
  \<open>v4_fields s val digLen fields\<close> is \<^verbatim>\<open>netip.parseIPv4Fields\<close> on the rest \<open>s\<close>: the value and
  the number of digits of the current octet, and the octets before it.
\<close>

fun v4_fields :: "string \<Rightarrow> nat \<Rightarrow> nat \<Rightarrow> nat list \<Rightarrow> nat list option" where
  "v4_fields [] val digLen fields = (if length fields < 3 then None else Some (fields @ [val]))"
| "v4_fields (c # s) val digLen fields =
     (if is_digit c then
        (if digLen = 1 \<and> val = 0 then None
         else
           (let val' = val * 10 + digit_value c
            in if val' > 255 then None else v4_fields s val' (digLen + 1) fields))
      else if c = CHR ''.'' then
        (if digLen = 0 \<or> s = [] then None
         else if length fields = 3 then None
         else v4_fields s 0 0 (fields @ [val]))
      else None)"

definition hex_value :: "char \<Rightarrow> nat option" where
  "hex_value c =
     (let n = of_char c in
      if 48 \<le> n \<and> n \<le> 57 then Some (n - 48)
      else if 97 \<le> n \<and> n \<le> 102 then Some (n - 87)
      else if 65 \<le> n \<and> n \<le> 70 then Some (n - 55)
      else None)"

definition is_hex :: "char \<Rightarrow> bool" where
  "is_hex c \<longleftrightarrow> hex_value c \<noteq> None"

text \<open>
  The loop of \<^verbatim>\<open>netip.parseIPv6\<close>: the rest of the string, the bytes so far, and the position of
  the ellipsis; it returns the bytes, the ellipsis, and what of the string was not used.
\<close>

function v6_loop :: "string \<Rightarrow> bytes \<Rightarrow> nat option \<Rightarrow> (bytes \<times> nat option \<times> string) option" where
  "v6_loop s ip ellipsis =
     (let hs = takeWhile is_hex s;
          acc = foldl (\<lambda>a c. 16 * a + the (hex_value c)) 0 hs;
          rest = drop (length hs) s
      in if length hs > 4 \<or> hs = [] then None
         else if rest \<noteq> [] \<and> hd rest = CHR ''.'' then
           (if ellipsis = None \<and> length ip \<noteq> 12 then None
            else if length ip + 4 > 16 then None
            else (case v4_fields s 0 0 [] of
                    None \<Rightarrow> None
                  | Some f \<Rightarrow> Some (ip @ map of_nat f, ellipsis, [])))
         else
           (let ip' = ip @ [of_nat (acc div 256), of_nat (acc mod 256)]
            in if rest = [] then Some (ip', ellipsis, [])
               else if hd rest \<noteq> CHR '':'' then None
               else if length rest = 1 then None
               else
                 (let s' = tl rest
                  in if hd s' = CHR '':'' then
                       (if ellipsis \<noteq> None then None
                        else if tl s' = [] then Some (ip', Some (length ip'), [])
                        else if length ip' < 16 then v6_loop (tl s') ip' (Some (length ip'))
                        else Some (ip', Some (length ip'), tl s'))
                     else if length ip' < 16 then v6_loop s' ip' ellipsis
                     else Some (ip', ellipsis, s'))))"
  by pat_completeness auto
termination
  by (relation "measure (\<lambda>(s, ip, e). length s)") (auto simp: neq_Nil_conv length_drop)

declare v6_loop.simps [simp del]

definition parseIPv6 :: "string \<Rightarrow> IP option" where
  "parseIPv6 s =
     (let lead = (take 2 s = ''::'');
          s' = (if lead then drop 2 s else s);
          ellipsis = (if lead then Some 0 else None)
      in if lead \<and> s' = [] then Some IPv6unspecified
         else (case v6_loop s' [] ellipsis of
                 None \<Rightarrow> None
               | Some (ip, ell, rest) \<Rightarrow>
                   if rest \<noteq> [] then None
                   else if length ip < 16 then
                     (case ell of
                        None \<Rightarrow> None
                      | Some e \<Rightarrow> Some (take e ip @ replicate (16 - length ip) 0 @ drop e ip))
                   else if ell \<noteq> None then None
                   else Some ip))"

text \<open>
  \<^verbatim>\<open>netip.ParseAddr\<close> looks for the first \<^verbatim>\<open>.\<close>, \<^verbatim>\<open>:\<close> or \<^verbatim>\<open>%\<close>; an address with a zone is no
  \<^verbatim>\<open>net.IP\<close>.  The result is \<open>Inl\<close> of the four bytes of an IPv4 address, \<open>Inr\<close> of an IPv6 one.
\<close>

definition ParseAddr :: "string \<Rightarrow> (IP + IP) option" where
  "ParseAddr s =
     (if CHR ''%'' \<in> set s then None
      else (case dropWhile (\<lambda>c. c \<noteq> CHR ''.'' \<and> c \<noteq> CHR '':'') s of
              [] \<Rightarrow> None
            | c # _ \<Rightarrow>
                if c = CHR ''.'' then map_option (\<lambda>f. Inl (map of_nat f)) (v4_fields s 0 0 [])
                else map_option Inr (parseIPv6 s)))"

definition ParseIP :: "string \<Rightarrow> IP option" where
  "ParseIP s =
     (case ParseAddr s of
        None \<Rightarrow> None
      | Some (Inl ip4) \<Rightarrow> Some (v4InV6Prefix @ ip4)
      | Some (Inr ip6) \<Rightarrow> Some ip6)"

section \<open>CIDR networks\<close>

record IPNet =
  net_IP :: IP
  net_Mask :: bytes

text \<open>\<^verbatim>\<open>net.CIDRMask\<close>: \<open>ones\<close> leading one bits in a mask of \<open>len\<close> bytes.\<close>

fun CIDRMask :: "nat \<Rightarrow> nat \<Rightarrow> bytes" where
  "CIDRMask ones 0 = []"
| "CIDRMask ones (Suc len) =
     (if ones \<ge> 8 then 0xff # CIDRMask (ones - 8) len
      else NOT (drop_bit ones 0xff) # CIDRMask 0 len)"

definition apply_mask :: "bytes \<Rightarrow> bytes \<Rightarrow> bytes" where
  "apply_mask ip m = map2 (\<lambda>a b. a AND b) ip m"

text \<open>
  The prefix length is read by \<^verbatim>\<open>dtoi\<close>: decimal digits only, below \<^verbatim>\<open>0xFFFFFF\<close>.  An IPv4
  network keeps a 4-byte address and mask.
\<close>

definition ParseCIDR :: "string \<Rightarrow> IPNet option" where
  "ParseCIDR s =
     (case IndexByte (CHR ''/'') s of
        None \<Rightarrow> None
      | Some k \<Rightarrow>
          let addr = take k s; mask = drop (k + 1) s in
          (case ParseAddr addr of
             None \<Rightarrow> None
           | Some a \<Rightarrow>
               let ip = (case a of Inl x \<Rightarrow> x | Inr x \<Rightarrow> x);
                   n = foldl (\<lambda>acc c. 10 * acc + digit_value c) 0 mask
               in if mask = [] \<or> \<not> list_all is_digit mask \<or> n > 8 * length ip then None
                  else Some \<lparr>net_IP = apply_mask ip (CIDRMask n (length ip)), net_Mask = CIDRMask n (length ip)\<rparr>))"

text \<open>
  \<^verbatim>\<open>networkNumberAndMask\<close>: an IPv4-mapped network address is reduced to its four bytes, with the
  last four bytes of the mask.
\<close>

definition networkNumberAndMask :: "IPNet \<Rightarrow> (IP \<times> bytes) option" where
  "networkNumberAndMask n =
     (let ip = (case To4 (net_IP n) of Some x \<Rightarrow> x | None \<Rightarrow> net_IP n); m = net_Mask n
      in if To4 (net_IP n) = None \<and> length ip \<noteq> IPv6len then None
         else if length m = IPv4len then (if length ip \<noteq> IPv4len then None else Some (ip, m))
         else if length m = IPv6len then Some (ip, if length ip = IPv4len then drop 12 m else m)
         else None)"

definition IPNet_Contains :: "IPNet \<Rightarrow> IP \<Rightarrow> bool" where
  "IPNet_Contains n ip =
     (case networkNumberAndMask n of
        None \<Rightarrow> False
      | Some (nn, m) \<Rightarrow>
          let x = (case To4 ip of Some x \<Rightarrow> x | None \<Rightarrow> ip)
          in length x = length nn \<and> apply_mask nn m = apply_mask x m)"

end
