(* ===== verification/Socks5.thy ===== *)
theory Socks5
  imports Ghost_Client Go_IP
begin

text \<open>
  Package \<^verbatim>\<open>socks5\<close> (\<^verbatim>\<open>server.go\<close>, \<^verbatim>\<open>request.go\<close>, \<^verbatim>\<open>connect.go\<close>,
  \<^verbatim>\<open>reply.go\<close>, \<^verbatim>\<open>relay.go\<close> under \<^verbatim>\<open>src/pkg/socks5\<close>): the local SOCKS5 server of the
  client.  The connection to the target comes from a \<^verbatim>\<open>DialFunc\<close>, which is a parameter up to the
  relay; the relay is modelled for the connection that the program installs, \<^verbatim>\<open>client.DataConn\<close>.
\<close>

section \<open>Greeting\<close>

definition socks5Version :: byte where "socks5Version = 0x05"
definition noAuthentication :: byte where "noAuthentication = 0x00"

datatype socks_error =
    SocksDeadlineErr io_error
  | GreetingHeaderErr io_error
  | UnsupportedVersion byte
  | NoMethodsOffered
  | GreetingMethodsErr io_error
  | MethodSelectionErr io_error
  | NoAcceptableMethodsErr io_error
  | NoSupportedMethod
  | RequestHeaderErr io_error
  | UnsupportedCommand byte
  | InvalidReserved byte
  | ReadIPv4Err io_error
  | ReadDomainLengthErr io_error
  | DomainLengthZero
  | ReadDomainErr io_error
  | ReadIPv6Err io_error
  | UnsupportedAddressType byte
  | ReadPortErr io_error
  | RequestNil
  | ConnectUnsupportedCommand byte
  | ConnectTargetErr nat
  | InvalidBoundIP string
  | UnableToEncodeBound
  | SendReplyErr io_error
  | ConnectFailedReplyFailed socks_error socks_error
  | SuccessReplyErr socks_error

definition handleGreeting :: "conn \<Rightarrow> socks_error option \<times> conn" where
  "handleGreeting conn =
     (case ReadFull 2 (conn_in conn) of
        (Inl e, r1) \<Rightarrow> (Some (GreetingHeaderErr e), conn\<lparr>conn_in := r1\<rparr>)
      | (Inr header, r1) \<Rightarrow>
          let version = header ! 0; methodCount = unat (header ! 1); conn1 = conn\<lparr>conn_in := r1\<rparr> in
          if version \<noteq> socks5Version then (Some (UnsupportedVersion version), conn1)
          else if methodCount = 0 then (Some NoMethodsOffered, conn1)
          else
            (case ReadFull methodCount r1 of
               (Inl e, r2) \<Rightarrow> (Some (GreetingMethodsErr e), conn\<lparr>conn_in := r2\<rparr>)
             | (Inr methods, r2) \<Rightarrow>
                 if list_ex (\<lambda>m. m = noAuthentication) methods then
                   (let ((n, err), w) = io_Write [socks5Version, noAuthentication] (conn_out conn)
                    in (map_option MethodSelectionErr err, conn\<lparr>conn_in := r2, conn_out := w\<rparr>))
                 else
                   (let ((n, err), w) = io_Write [socks5Version, 0xff] (conn_out conn);
                        conn2 = conn\<lparr>conn_in := r2, conn_out := w\<rparr>
                    in case err of
                         Some e \<Rightarrow> (Some (NoAcceptableMethodsErr e), conn2)
                       | None \<Rightarrow> (Some NoSupportedMethod, conn2))))"

section \<open>Request\<close>

definition cmdConnect :: byte where "cmdConnect = 0x01"
definition atypIPv4 :: byte where "atypIPv4 = 0x01"
definition atypDomain :: byte where "atypDomain = 0x03"
definition atypIPv6 :: byte where "atypIPv6 = 0x04"

lemmas socks_consts = socks5Version_def noAuthentication_def cmdConnect_def atypIPv4_def atypDomain_def atypIPv6_def

record Request =
  Command :: byte
  Address :: string

text \<open>The host of the \<^verbatim>\<open>switch\<close> over the address type.\<close>

definition readHost :: "byte \<Rightarrow> reader \<Rightarrow> (socks_error, string) result \<times> reader" where
  "readHost atyp r =
     (if atyp = atypIPv4 then
        (case ReadFull IPv4len r of
           (Inl e, r') \<Rightarrow> (Inl (ReadIPv4Err e), r')
         | (Inr addr, r') \<Rightarrow> (Inr (IP_String addr), r'))
      else if atyp = atypDomain then
        (case ReadFull 1 r of
           (Inl e, r') \<Rightarrow> (Inl (ReadDomainLengthErr e), r')
         | (Inr len, r') \<Rightarrow>
             if len ! 0 = 0 then (Inl DomainLengthZero, r')
             else
               (case ReadFull (unat (len ! 0)) r' of
                  (Inl e, r'') \<Rightarrow> (Inl (ReadDomainErr e), r'')
                | (Inr domain, r'') \<Rightarrow> (Inr (string_of_bytes domain), r'')))
      else if atyp = atypIPv6 then
        (case ReadFull IPv6len r of
           (Inl e, r') \<Rightarrow> (Inl (ReadIPv6Err e), r')
         | (Inr addr, r') \<Rightarrow> (Inr (IP_String addr), r'))
      else (Inl (UnsupportedAddressType atyp), r))"

definition readRequest :: "reader \<Rightarrow> (socks_error, Request) result \<times> reader" where
  "readRequest r =
     (case ReadFull 4 r of
        (Inl e, r1) \<Rightarrow> (Inl (RequestHeaderErr e), r1)
      | (Inr header, r1) \<Rightarrow>
          if header ! 0 \<noteq> socks5Version then (Inl (UnsupportedVersion (header ! 0)), r1)
          else if header ! 1 \<noteq> cmdConnect then (Inl (UnsupportedCommand (header ! 1)), r1)
          else if header ! 2 \<noteq> 0 then (Inl (InvalidReserved (header ! 2)), r1)
          else
            (case readHost (header ! 3) r1 of
               (Inl e, r2) \<Rightarrow> (Inl e, r2)
             | (Inr host, r2) \<Rightarrow>
                 (case ReadFull 2 r2 of
                    (Inl e, r3) \<Rightarrow> (Inl (ReadPortErr e), r3)
                  | (Inr portBytes, r3) \<Rightarrow>
                      (let port = unat (portBytes ! 0) * 256 + unat (portBytes ! 1)
                       in (Inr \<lparr>Command = header ! 1, Address = JoinHostPort host (Itoa port)\<rparr>, r3)))))"

section \<open>Connect and reply\<close>

definition connectToTarget ::
  "Request option \<Rightarrow> (string \<Rightarrow> (nat, 'c) result) \<Rightarrow> (socks_error, 'c) result" where
  "connectToTarget request dial =
     (case request of
        None \<Rightarrow> Inl RequestNil
      | Some rq \<Rightarrow>
          if Command rq \<noteq> cmdConnect then Inl (ConnectUnsupportedCommand (Command rq))
          else (case dial (Address rq) of Inl e \<Rightarrow> Inl (ConnectTargetErr e) | Inr c \<Rightarrow> Inr c))"

definition replySucceeded :: byte where "replySucceeded = 0x00"
definition replyConnectionRefused :: byte where "replyConnectionRefused = 0x05"

text \<open>A bound address: a TCP address with an IP that may be nil and a port, or another kind of address.\<close>

datatype net_addr = TCPAddr "IP option" int | OtherAddr

definition sendReply :: "writer \<Rightarrow> byte \<Rightarrow> net_addr \<Rightarrow> socks_error option \<times> writer" where
  "sendReply w reply boundAddr =
     (let (ip, port) =
            (case boundAddr of
               TCPAddr (Some a) p \<Rightarrow> (IP_String a, p)
             | TCPAddr None p \<Rightarrow> (''0.0.0.0'', p)
             | OtherAddr \<Rightarrow> (''0.0.0.0'', 0))
      in case ParseIP ip of
           None \<Rightarrow> (Some (InvalidBoundIP ip), w)
         | Some parsedIP \<Rightarrow>
             let (addressType, address) =
                   (case To4 parsedIP of
                      Some ipv4 \<Rightarrow> (atypIPv4, Some ipv4)
                    | None \<Rightarrow> (atypIPv6, To16 parsedIP))
             in (case address of
                   None \<Rightarrow> (Some UnableToEncodeBound, w)
                 | Some a \<Rightarrow>
                     (let response = [socks5Version, reply, 0x00, addressType] @ a @ [word_of_int (port div 256), word_of_int port];
                          ((n, err), w') = io_Write response w
                      in (map_option SendReplyErr err, w'))))"

section \<open>One connection up to the relay\<close>

text \<open>
  \<open>SocksRelay conn target\<close>: the success reply was sent and \<^verbatim>\<open>relay\<close> is called.  The deadline is
  cleared before the target is dialled, and by the deferred call at the end.
\<close>

datatype 'c socks_outcome = SocksFailed socks_error conn | SocksRelay conn 'c

definition handleConnection ::
  "(string \<Rightarrow> (nat, 'c) result) \<Rightarrow> ('c \<Rightarrow> net_addr) \<Rightarrow> conn \<Rightarrow> 'c socks_outcome" where
  "handleConnection dial LocalAddr conn =
     (case conn_SetReadDeadline True conn of
        (Some e, conn1) \<Rightarrow> SocksFailed (SocksDeadlineErr e) conn1
      | (None, conn1) \<Rightarrow>
          (case handleGreeting conn1 of
             (Some e, conn2) \<Rightarrow> SocksFailed e (clear_deadline conn2)
           | (None, conn2) \<Rightarrow>
               (case readRequest (conn_in conn2) of
                  (Inl e, r) \<Rightarrow> SocksFailed e (clear_deadline (conn2\<lparr>conn_in := r\<rparr>))
                | (Inr request, r) \<Rightarrow>
                    (case conn_SetReadDeadline False (conn2\<lparr>conn_in := r\<rparr>) of
                       (Some e, conn3) \<Rightarrow> SocksFailed (SocksDeadlineErr e) (clear_deadline conn3)
                     | (None, conn3) \<Rightarrow>
                         (case connectToTarget (Some request) dial of
                            Inl e \<Rightarrow>
                              (case sendReply (conn_out conn3) replyConnectionRefused (TCPAddr None 0) of
                                 (Some re, w) \<Rightarrow> SocksFailed (ConnectFailedReplyFailed e re) (clear_deadline (conn3\<lparr>conn_out := w\<rparr>))
                               | (None, w) \<Rightarrow> SocksFailed e (clear_deadline (conn3\<lparr>conn_out := w\<rparr>)))
                          | Inr target \<Rightarrow>
                              (case sendReply (conn_out conn3) replySucceeded (LocalAddr target) of
                                 (Some e, w) \<Rightarrow> SocksFailed (SuccessReplyErr e) (clear_deadline (conn3\<lparr>conn_out := w\<rparr>))
                               | (None, w) \<Rightarrow> SocksRelay (conn3\<lparr>conn_out := w\<rparr>) target))))))"

section \<open>The server\<close>

record 'c socks_Server =
  Addr :: string
  Dial :: "(string \<Rightarrow> (nat, 'c) result) option"

text \<open>
  The accept loop: a closed listener ends it without an error, another accept error is skipped after
  a pause, and every accepted connection is handled by a goroutine of its own and closed afterwards.
\<close>

fun socks_accept :: "(conn \<Rightarrow> 'c socks_outcome) \<Rightarrow> accept_result list \<Rightarrow> 'c socks_outcome list \<times> bool" where
  "socks_accept handle [] = ([], False)"
| "socks_accept handle (ListenerClosed # as) = ([], True)"
| "socks_accept handle (AcceptFailed # as) = socks_accept handle as"
| "socks_accept handle (Accepted c # as) = (let (os, fin) = socks_accept handle as in (handle c # os, fin))"

text \<open>\<open>netListen\<close> is the outcome of opening the listener, \<open>netDial\<close> a direct TCP connection.\<close>

definition Start ::
  "(string \<Rightarrow> nat option) \<Rightarrow> (string \<Rightarrow> (nat, 'c) result) \<Rightarrow> ('c \<Rightarrow> net_addr) \<Rightarrow> 'c socks_Server \<Rightarrow> accept_result list \<Rightarrow>
   (string \<times> nat, 'c socks_outcome list \<times> bool) result \<times> 'c socks_Server" where
  "Start netListen netDial LocalAddr s accepts =
     (let s' = (if Addr s = [] then s\<lparr>Addr := ''127.0.0.1:1080''\<rparr> else s)
      in case netListen (Addr s') of
           Some e \<Rightarrow> (Inl (Addr s', e), s')
         | None \<Rightarrow>
             (let dial = (case Dial s' of None \<Rightarrow> netDial | Some d \<Rightarrow> d)
              in (Inr (socks_accept (handleConnection dial LocalAddr) accepts), s')))"

section \<open>What the parsers accept\<close>

lemma ReadFull_takes:
  assumes "reader_ok r" "reader_stream r = bs @ rest" "n = length bs"
  obtains r' where "ReadFull n r = (Inr bs, r')" "reads io_Read r bs r'" "reader_ok r'" "reader_stream r' = rest"
proof -
  have "n \<le> length (reader_stream r)" using assms(2,3) by simp
  from ReadFull_enough [OF assms(1) this] obtain r' where "ReadFull n r = (Inr (take n (reader_stream r)), r')"
    "reads io_Read r (take n (reader_stream r)) r'" "reader_ok r'" "reader_stream r' = drop n (reader_stream r)" .
  with assms(2,3) show ?thesis by (intro that) simp_all
qed

lemma ReadFull_took:
  assumes "reader_ok r" "ReadFull n r = (Inr bs, r')"
  shows "length bs = n \<and> reads io_Read r bs r' \<and> reader_ok r' \<and> reader_stream r = bs @ reader_stream r'"
proof (cases "n \<le> length (reader_stream r)")
  case True
  obtain r1 where "ReadFull n r = (Inr (take n (reader_stream r)), r1)" "reads io_Read r (take n (reader_stream r)) r1"
    "reader_ok r1" "reader_stream r1 = drop n (reader_stream r)"
    by (rule ReadFull_enough [OF assms(1) True])
  with assms(2) True show ?thesis by auto
next
  case False
  then have short: "length (reader_stream r) < n" by simp
  obtain r1 where "ReadFull n r = (Inl (short_error (reader_stream r) (reader_fin r)), r1)"
    by (rule ReadFull_short [OF assms(1) short])
  with assms(2) show ?thesis by simp
qed

text \<open>The three kinds of destination of a request, with their encoding and the name they stand for.\<close>

datatype socks_host = HostIPv4 bytes | HostDomain bytes | HostIPv6 bytes

fun host_ok :: "socks_host \<Rightarrow> bool" where
  "host_ok (HostIPv4 b) = (length b = 4)"
| "host_ok (HostDomain b) = (1 \<le> length b \<and> length b \<le> 255)"
| "host_ok (HostIPv6 b) = (length b = 16)"

fun host_atyp :: "socks_host \<Rightarrow> byte" where
  "host_atyp (HostIPv4 b) = 1"
| "host_atyp (HostDomain b) = 3"
| "host_atyp (HostIPv6 b) = 4"

fun host_bytes :: "socks_host \<Rightarrow> bytes" where
  "host_bytes (HostIPv4 b) = b"
| "host_bytes (HostDomain b) = of_nat (length b) # b"
| "host_bytes (HostIPv6 b) = b"

fun host_name :: "socks_host \<Rightarrow> string" where
  "host_name (HostIPv4 b) = IP_String b"
| "host_name (HostDomain b) = string_of_bytes b"
| "host_name (HostIPv6 b) = IP_String b"

definition encode_request :: "socks_host \<Rightarrow> nat \<Rightarrow> bytes" where
  "encode_request h port =
     [0x05, 0x01, 0x00, host_atyp h] @ host_bytes h @ [of_nat (port div 256), of_nat (port mod 256)]"

definition request_of :: "socks_host \<Rightarrow> nat \<Rightarrow> Request" where
  "request_of h port = \<lparr>Command = 0x01, Address = JoinHostPort (host_name h) (Itoa port)\<rparr>"

lemma unat_of_nat_byte: "n < 256 \<Longrightarrow> unat (of_nat n :: byte) = n"
  by (simp add: unat_of_nat take_bit_nat_def)

lemma readHost_ok:
  assumes "host_ok h" "reader_ok r" "reader_stream r = host_bytes h @ rest"
  shows "\<exists>r'. readHost (host_atyp h) r = (Inr (host_name h), r') \<and> reads io_Read r (host_bytes h) r' \<and> reader_ok r' \<and>
    reader_stream r' = rest"
proof (cases h)
  case (HostIPv4 b)
  then obtain r' where "ReadFull IPv4len r = (Inr b, r')" "reads io_Read r b r'" "reader_ok r'" "reader_stream r' = rest"
    using ReadFull_takes [OF assms(2), of b rest IPv4len] assms by (auto simp: IPv4len_def)
  with HostIPv4 show ?thesis by (simp add: readHost_def atypIPv4_def)
next
  case (HostDomain b)
  let ?n = "of_nat (length b) :: byte"
  have n: "unat ?n = length b" "?n \<noteq> 0" using HostDomain assms(1) unat_of_nat_byte [of "length b"] by auto
  obtain r1 where r1: "ReadFull 1 r = (Inr [?n], r1)" "reads io_Read r [?n] r1" "reader_ok r1" "reader_stream r1 = b @ rest"
    using ReadFull_takes [OF assms(2), of "[?n]" "b @ rest" 1] assms(3) HostDomain by auto
  obtain r2 where r2: "ReadFull (length b) r1 = (Inr b, r2)" "reads io_Read r1 b r2" "reader_ok r2" "reader_stream r2 = rest"
    using ReadFull_takes [OF r1(3,4)] by auto
  from r1 r2 n reads_trans [OF r2(2) r1(2)] HostDomain show ?thesis
    by (simp add: readHost_def atypIPv4_def atypDomain_def)
next
  case (HostIPv6 b)
  then obtain r' where "ReadFull IPv6len r = (Inr b, r')" "reads io_Read r b r'" "reader_ok r'" "reader_stream r' = rest"
    using ReadFull_takes [OF assms(2), of b rest IPv6len] assms by (auto simp: IPv6len_def)
  with HostIPv6 show ?thesis by (simp add: readHost_def atypIPv4_def atypDomain_def atypIPv6_def)
qed

lemma readHost_only:
  assumes "reader_ok r" "readHost a r = (Inr name, r')"
  shows "\<exists>h. host_ok h \<and> a = host_atyp h \<and> name = host_name h \<and> reader_stream r = host_bytes h @ reader_stream r' \<and> reader_ok r'"
proof -
  consider (v4) b where "a = 1" "ReadFull 4 r = (Inr b, r')" "name = IP_String b"
    | (dom) len b r1 where "a = 3" "ReadFull 1 r = (Inr len, r1)" "len ! 0 \<noteq> 0"
        "ReadFull (unat (len ! 0)) r1 = (Inr b, r')" "name = string_of_bytes b"
    | (v6) b where "a = 4" "ReadFull 16 r = (Inr b, r')" "name = IP_String b"
    using assms(2) by (auto simp: readHost_def atypIPv4_def atypDomain_def atypIPv6_def IPv4len_def IPv6len_def
        split: if_splits prod.splits sum.splits)
  then show ?thesis
  proof cases
    case v4
    with ReadFull_took [OF assms(1) v4(2)] show ?thesis by (intro exI [of _ "HostIPv4 b"]) simp
  next
    case dom
    note len = ReadFull_took [OF assms(1) dom(2)]
    then obtain n where n: "len = [n]" by (auto simp: length_Suc_conv)
    note b = ReadFull_took [OF _ dom(4)]
    have "0 < unat n" using dom(3) n by (simp add: unat_gt_0)
    moreover have "unat n \<le> 255" using unat_byte_bound [of n] by linarith
    ultimately show ?thesis using len b n dom by (intro exI [of _ "HostDomain b"]) auto
  next
    case v6
    with ReadFull_took [OF assms(1) v6(2)] show ?thesis by (intro exI [of _ "HostIPv6 b"]) simp
  qed
qed

lemma port_bytes: "port < 65536 \<Longrightarrow> unat (of_nat (port div 256) :: byte) * 256 + unat (of_nat (port mod 256) :: byte) = port"
  by (simp add: unat_of_nat_byte less_mult_imp_div_less)

lemma readRequest_ok:
  assumes "host_ok h" "port < 65536" "reader_ok r" "reader_stream r = encode_request h port @ rest"
  shows "\<exists>r'. readRequest r = (Inr (request_of h port), r') \<and> reads io_Read r (encode_request h port) r' \<and> reader_ok r' \<and>
    reader_stream r' = rest"
proof -
  let ?hd = "[0x05, 0x01, 0x00, host_atyp h] :: bytes" and ?pt = "[of_nat (port div 256), of_nat (port mod 256)] :: bytes"
  obtain r1 where r1: "ReadFull 4 r = (Inr ?hd, r1)" "reads io_Read r ?hd r1" "reader_ok r1"
    "reader_stream r1 = host_bytes h @ ?pt @ rest"
    using ReadFull_takes [OF assms(3), of ?hd "host_bytes h @ ?pt @ rest" 4] assms(4) by (auto simp: encode_request_def)
  from readHost_ok [OF assms(1) r1(3,4)] obtain r2 where r2: "readHost (host_atyp h) r1 = (Inr (host_name h), r2)"
    "reads io_Read r1 (host_bytes h) r2" "reader_ok r2" "reader_stream r2 = ?pt @ rest" by blast
  obtain r3 where r3: "ReadFull 2 r2 = (Inr ?pt, r3)" "reads io_Read r2 ?pt r3" "reader_ok r3" "reader_stream r3 = rest"
    using ReadFull_takes [OF r2(3,4), of 2] by auto
  have "reads io_Read r (encode_request h port) r3"
    using reads_trans [OF r3(2) reads_trans [OF r2(2) r1(2)]] by (simp add: encode_request_def)
  moreover have "readRequest r = (Inr (request_of h port), r3)"
    using r1(1) r2(1) r3(1) port_bytes [OF assms(2)]
    by (simp add: readRequest_def socks5Version_def cmdConnect_def request_of_def Let_def)
  ultimately show ?thesis using r3 by blast
qed

lemma readRequest_only:
  assumes "reader_ok r" "readRequest r = (Inr rq, r')"
  shows "\<exists>h port. host_ok h \<and> port < 65536 \<and> rq = request_of h port \<and> reader_stream r = encode_request h port @ reader_stream r'"
proof -
  from assms(2) obtain hd r1 name r2 pt where
    a: "ReadFull 4 r = (Inr hd, r1)" and hd: "hd ! 0 = 5" "hd ! 1 = 1" "hd ! 2 = 0" and
    b: "readHost (hd ! 3) r1 = (Inr name, r2)" and c: "ReadFull 2 r2 = (Inr pt, r')" and
    rq: "rq = \<lparr>Command = 1, Address = JoinHostPort name (Itoa (unat (pt ! 0) * 256 + unat (pt ! 1)))\<rparr>"
    by (auto simp: readRequest_def socks5Version_def cmdConnect_def Let_def split: prod.splits sum.splits if_splits)
  note a' = ReadFull_took [OF assms(1) a]
  from readHost_only [OF _ b] a' obtain h where h: "host_ok h" "hd ! 3 = host_atyp h" "name = host_name h"
    "reader_stream r1 = host_bytes h @ reader_stream r2" "reader_ok r2" by blast
  note c' = ReadFull_took [OF h(5) c]
  then obtain x y where pt: "pt = [x, y]" by (auto simp: numeral_eq_Suc length_Suc_conv)
  have hd4: "hd = [5, 1, 0, host_atyp h]"
    using a' hd h(2) by (auto simp: numeral_eq_Suc length_Suc_conv)
  let ?port = "unat x * 256 + unat y"
  have lt: "unat x < 256" "unat y < 256" by (rule unat_byte_bound)+
  then have "?port < 65536" by linarith
  moreover have "?port div 256 = unat x" "?port mod 256 = unat y" using lt by simp_all
  ultimately show ?thesis
    using a' h c' hd4 pt rq
    by (intro exI [of _ h] exI [of _ ?port]) (simp add: encode_request_def request_of_def del: of_nat_add of_nat_mult)
qed

definition encode_greeting :: "bytes \<Rightarrow> bytes" where
  "encode_greeting methods = [0x05, of_nat (length methods)] @ methods"

text \<open>What a greeting that was read in full leads to.\<close>

lemma handleGreeting_read:
  assumes "1 \<le> length methods" "length methods \<le> 255" "reader_ok (conn_in c)" "wplan (conn_out c) = []"
    and "reader_stream (conn_in c) = encode_greeting methods @ rest"
  shows "\<exists>r'. handleGreeting c =
      (if 0 \<in> set methods then None else Some NoSupportedMethod,
       c\<lparr>conn_in := r', conn_out := (conn_out c)\<lparr>sent := sent (conn_out c) @ [[0x05, if 0 \<in> set methods then 0 else 0xff]]\<rparr>\<rparr>) \<and>
    reads io_Read (conn_in c) (encode_greeting methods) r' \<and> reader_ok r' \<and> reader_stream r' = rest"
proof -
  let ?n = "of_nat (length methods) :: byte"
  have n: "unat ?n = length methods" using unat_of_nat_byte [of "length methods"] assms(2) by simp
  obtain r1 where r1: "ReadFull 2 (conn_in c) = (Inr [5, ?n], r1)" "reads io_Read (conn_in c) [5, ?n] r1" "reader_ok r1"
    "reader_stream r1 = methods @ rest"
    using ReadFull_takes [OF assms(3), of "[5, ?n]" "methods @ rest" 2] assms(5) by (auto simp: encode_greeting_def)
  obtain r2 where r2: "ReadFull (length methods) r1 = (Inr methods, r2)" "reads io_Read r1 methods r2" "reader_ok r2" "reader_stream r2 = rest"
    using ReadFull_takes [OF r1(3,4), of "length methods"] by auto
  have "list_ex (\<lambda>m. m = noAuthentication) methods \<longleftrightarrow> 0 \<in> set methods" by (auto simp: list_ex_iff noAuthentication_def)
  moreover have "methods \<noteq> []" using assms(1) by auto
  ultimately show ?thesis
    using r1 r2 n assms(4) reads_trans [OF r2(2) r1(2)]
    by (intro exI [of _ r2]) (simp add: handleGreeting_def Let_def socks5Version_def noAuthentication_def encode_greeting_def)
qed

text \<open>When the input does not start with a greeting in full, nothing is answered.\<close>

lemma handleGreeting_partial:
  assumes "reader_ok (conn_in c)" "\<nexists>methods rest. 1 \<le> length methods \<and> length methods \<le> 255 \<and>
    reader_stream (conn_in c) = encode_greeting methods @ rest"
  shows "\<exists>e r'. handleGreeting c = (Some e, c\<lparr>conn_in := r'\<rparr>) \<and> e \<noteq> NoSupportedMethod"
proof -
  obtain res1 r1 where rd1: "ReadFull 2 (conn_in c) = (res1, r1)" by (metis surj_pair)
  show ?thesis
  proof (cases res1)
    case (Inl e)
    with rd1 show ?thesis by (auto simp: handleGreeting_def)
  next
    case (Inr hd)
    note t1 = ReadFull_took [OF assms(1) rd1 [unfolded Inr]]
    then obtain v n where hd: "hd = [v, n]" by (auto simp: numeral_eq_Suc length_Suc_conv)
    obtain res2 r2 where rd2: "ReadFull (unat n) r1 = (res2, r2)" by (metis surj_pair)
    have "v \<noteq> 5 \<or> n = 0 \<or> (\<exists>e. res2 = Inl e)"
    proof (rule ccontr)
      assume "\<not> ?thesis"
      then obtain ms where h: "v = 5" "n \<noteq> 0" "res2 = Inr ms" by (cases res2) auto
      have r1: "reader_ok r1" using t1 by simp
      note t2 = ReadFull_took [OF r1 rd2 [unfolded h(3)]]
      have "reader_stream (conn_in c) = encode_greeting ms @ reader_stream r2"
        using t1 t2 h(1) hd by (auto simp: encode_greeting_def)
      moreover have "1 \<le> length ms" using h(2) t2 by (simp add: Suc_le_eq unat_gt_0)
      moreover have "length ms \<le> 255" using t2 unat_byte_bound [of n] by linarith
      ultimately show False using assms(2) by blast
    qed
    then show ?thesis
      using rd1 rd2 Inr hd by (auto simp: handleGreeting_def Let_def socks5Version_def unat_eq_zero)
  qed
qed

lemma v4_octet:
  assumes "n < 256" "s = [] \<or> hd s = CHR ''.''"
  shows "v4_fields (Itoa n @ s) 0 0 fs = v4_fields s n (length (Itoa n)) fs"
proof -
  have step: "v4_fields (char_of (48 + d) # t) v k fs = v4_fields t (v * 10 + d) (k + 1) fs"
    if "d < 10" "k \<noteq> 1 \<or> v \<noteq> 0" "v * 10 + d < 256" for d t v k
    using that by (auto simp: Let_def)
  consider "n < 10" | "10 \<le> n" "n < 100" | "100 \<le> n" by linarith
  then show ?thesis
  proof cases
    case 1
    then show ?thesis using step [of n 0 0 s] by (simp add: Itoa.simps [of n])
  next
    case 2
    then have d: "n div 10 < 10" "n div 10 \<noteq> 0" "n div 10 * 10 + n mod 10 = n" by (linarith, linarith, simp)
    then have "Itoa (n div 10) = [char_of (48 + n div 10)]" by (subst Itoa.simps) (rule if_P)
    then have "Itoa n = [char_of (48 + n div 10), char_of (48 + n mod 10)]"
      using 2 by (simp add: Itoa.simps [of n])
    then show ?thesis
      using step [of "n div 10" 0 0 "char_of (48 + n mod 10) # s"] step [of "n mod 10" 1 "n div 10" s] d assms(1)
      by (simp del: v4_fields.simps)
  next
    case 3
    let ?a = "n div 10 div 10" and ?b = "n div 10 mod 10" and ?c = "n mod 10"
    have e: "?a * 10 + ?b = n div 10" "n div 10 * 10 + ?c = n" "?a < 10" "?a \<noteq> 0" "10 \<le> n div 10" "n div 10 < 26"
      using 3 assms(1) by (simp, simp, linarith, linarith, linarith, linarith)
    then have "Itoa n = [char_of (48 + ?a), char_of (48 + ?b), char_of (48 + ?c)]"
      using 3 by (simp add: Itoa.simps [of n] Itoa.simps [of "n div 10"] Itoa.simps [of ?a])
    then show ?thesis
      using assms(1) e step [of ?a 0 0 "char_of (48 + ?b) # char_of (48 + ?c) # s"]
        step [of ?b 1 ?a "char_of (48 + ?c) # s"] step [of ?c "Suc (Suc 0)" "n div 10" s]
      by (simp del: v4_fields.simps)
  qed
qed

lemma ParseIP_IP4_String:
  assumes "length b = 4"
  shows "ParseIP (IP4_String b) = Some (v4InV6Prefix @ b)"
proof -
  obtain b0 b1 b2 b3 where b: "b = [b0, b1, b2, b3]" using assms by (auto simp: numeral_eq_Suc length_Suc_conv)
  let ?s = "IP4_String b"
  have s: "?s = Itoa (unat b0) @ ''.'' @ Itoa (unat b1) @ ''.'' @ Itoa (unat b2) @ ''.'' @ Itoa (unat b3)"
    by (simp add: b IP4_String_def)
  have nonempty: "Itoa n \<noteq> []" for n using Itoa_digits by blast
  have punct: "CHR ''.'' \<notin> set (Itoa n)" "CHR '':'' \<notin> set (Itoa n)" "CHR ''%'' \<notin> set (Itoa n)" for n
    using digit_not_punct [OF conjunct1 [OF Itoa_digits]] by simp_all
  have dot: "v4_fields (CHR ''.'' # Itoa m @ t) v (length (Itoa n)) fs = v4_fields (Itoa m @ t) 0 0 (fs @ [v])"
    if "length fs < 3" for m t v n fs
    using that nonempty [of m] nonempty [of n] by (simp add: is_digit_def)
  have "v4_fields ?s 0 0 [] = Some [unat b0, unat b1, unat b2, unat b3]"
    unfolding s using v4_octet [of "unat b3" "[]"] dot [of _ "unat b3" "[]"]
    by (simp add: v4_octet dot del: v4_fields.simps(2))
  moreover have "CHR ''%'' \<notin> set ?s" by (simp add: s punct)
  moreover have "dropWhile (\<lambda>c. c \<noteq> CHR ''.'' \<and> c \<noteq> CHR '':'') ?s =
      CHR ''.'' # Itoa (unat b1) @ ''.'' @ Itoa (unat b2) @ ''.'' @ Itoa (unat b3)"
    unfolding s using punct by (subst dropWhile_append2) auto
  ultimately show ?thesis by (simp add: ParseIP_def ParseAddr_def b)
qed

lemma IP_String_v4: "length b = 4 \<Longrightarrow> IP_String b = IP4_String b"
  by (simp add: IP_String_def To4_def IPv4len_def)

text \<open>The reply to the SOCKS5 client for an IPv4 address and a port.\<close>

definition encode_reply :: "byte \<Rightarrow> bytes \<Rightarrow> nat \<Rightarrow> bytes" where
  "encode_reply code addr port = [0x05, code, 0x00, 0x01] @ addr @ [of_nat (port div 256), of_nat (port mod 256)]"

lemma word_of_int_byte: "(word_of_int (int n) :: byte) = of_nat (n mod 256)"
  by (simp add: word_unat_eq_iff unat_of_nat take_bit_nat_def)

lemma sendReply_IPv4:
  assumes "length b = 4" "wplan w = []" "port < 65536"
  shows "sendReply w code (TCPAddr (Some b) (int port)) = (None, w\<lparr>sent := sent w @ [encode_reply code b port]\<rparr>)"
proof -
  have "To4 (v4InV6Prefix @ b) = Some b" using assms(1) by (simp add: To4_def IPv4len_def IPv6len_def v4InV6Prefix_def)
  moreover have "(word_of_int (int port div 256) :: byte) = of_nat (port div 256)" "(word_of_int (int port) :: byte) = of_nat (port mod 256)"
    using word_of_int_byte [of port] word_of_int_byte [of "port div 256"] assms(3)
    by (simp_all add: zdiv_int less_mult_imp_div_less)
  ultimately show ?thesis
    using assms ParseIP_IP4_String [OF assms(1)]
    by (simp add: sendReply_def IP_String_v4 encode_reply_def socks5Version_def atypIPv4_def Let_def)
qed

lemma sendReply_refused:
  assumes "wplan w = []"
  shows "sendReply w code (TCPAddr None 0) = (None, w\<lparr>sent := sent w @ [encode_reply code [0, 0, 0, 0] 0]\<rparr>)"
proof -
  have "ParseIP ''0.0.0.0'' = Some (v4InV6Prefix @ [0, 0, 0, 0])" by code_simp
  moreover have "To4 (v4InV6Prefix @ [0, 0, 0, 0]) = Some [0, 0, 0, 0]" by (simp add: To4_def IPv4len_def IPv6len_def v4InV6Prefix_def)
  ultimately show ?thesis using assms
    by (simp add: sendReply_def encode_reply_def socks5Version_def atypIPv4_def Let_def)
qed

section \<open>Properties\<close>



text \<open>
  C19.  Requests are parsed exactly: \<open>readRequest\<close> accepts precisely the CONNECT requests of version 5
  for an IPv4 address, a domain name of 1 to 255 bytes or an IPv6 address, takes just the bytes of the
  request from the connection, and yields the destination they name.
\<close>

theorem readRequest_exact:
  assumes "reader_ok r"
  shows "case readRequest r of
      (Inr rq, r') \<Rightarrow> \<exists>h port. host_ok h \<and> port < 65536 \<and> rq = request_of h port \<and>
        reader_stream r = encode_request h port @ reader_stream r'
    | (Inl e, r') \<Rightarrow> \<nexists>h port rest. host_ok h \<and> port < 65536 \<and> reader_stream r = encode_request h port @ rest"
proof -
  obtain res r' where rd: "readRequest r = (res, r')" by (metis surj_pair)
  show ?thesis
  proof (cases res)
    case (Inl e)
    with rd readRequest_ok [OF _ _ assms] show ?thesis by fastforce
  next
    case (Inr rq)
    with rd readRequest_only [OF assms, of rq r'] show ?thesis by simp
  qed
qed

theorem readRequest_exact_witness:
  "\<exists>h port. request_of h port = \<lparr>Command = 1, Address = ''1.2.3.4:80''\<rparr> \<and>
     encode_request h port = [5, 1, 0, 1, 1, 2, 3, 4, 0, 80]"
proof -
  have run: "readRequest (BytesReader [5, 1, 0, 1, 1, 2, 3, 4, 0, 80]) = (Inr \<lparr>Command = 1, Address = ''1.2.3.4:80''\<rparr>, BytesReader [])"
    by code_simp
  show ?thesis using readRequest_exact [of "BytesReader [5, 1, 0, 1, 1, 2, 3, 4, 0, 80]"] unfolding run
    by (simp, metis)
qed

text \<open>A client that sends its greeting and its request before the deadline gets as far as the dialling.\<close>

lemma handleConnection_asked:
  assumes "conn_in c = NetConn as armed e" "conn_deadline_err c = None" "wplan (conn_out c) = []"
    and "length methods \<le> 255" "0 \<in> set methods" "host_ok h" "port < 65536"
    and "net_stream as True = encode_greeting methods @ encode_request h port @ rest"
  obtains r2 as' where "handleGreeting (c\<lparr>conn_in := NetConn as True e\<rparr>) =
      (None, c\<lparr>conn_in := r2, conn_out := (conn_out c)\<lparr>sent := sent (conn_out c) @ [[5, 0]]\<rparr>\<rparr>)"
    "readRequest r2 = (Inr (request_of h port), NetConn as' True e)"
    "net_stream as False = encode_greeting methods @ encode_request h port @ net_stream as' False"
proof -
  let ?c1 = "c\<lparr>conn_in := NetConn as True e\<rparr>"
  have m: "1 \<le> length methods" using assms(5) by (cases methods) auto
  have c1: "reader_ok (conn_in ?c1)" "wplan (conn_out ?c1) = []"
    "reader_stream (conn_in ?c1) = encode_greeting methods @ encode_request h port @ rest" using assms(3,8) by simp_all
  from handleGreeting_read [OF m assms(4) c1] assms(5) obtain r2 where
    gr: "handleGreeting ?c1 = (None, c\<lparr>conn_in := r2, conn_out := (conn_out c)\<lparr>sent := sent (conn_out c) @ [[5, 0]]\<rparr>\<rparr>)"
    "reads io_Read (NetConn as True e) (encode_greeting methods) r2" "reader_ok r2" "reader_stream r2 = encode_request h port @ rest" by auto
  from readRequest_ok [OF assms(6,7) gr(3,4)] obtain r3 where
    rq: "readRequest r2 = (Inr (request_of h port), r3)" "reads io_Read r2 (encode_request h port) r3" by blast
  from reads_net [OF reads_trans [OF rq(2) gr(2)]] obtain as' where "r3 = NetConn as' True e"
    "net_stream as False = encode_greeting methods @ encode_request h port @ net_stream as' False" by auto
  with gr(1) rq(1) show ?thesis by (intro that) simp_all
qed

lemma handleConnection_relays:
  assumes "conn_in c = NetConn as armed e" "conn_deadline_err c = None" "wplan (conn_out c) = []"
    and "length methods \<le> 255" "0 \<in> set methods" "host_ok h" "port < 65536"
    and "net_stream as True = encode_greeting methods @ encode_request h port @ rest"
    and "\<And>t. LocalAddr t = TCPAddr (Some ip) (int lport)" "length ip = 4" "lport < 65536"
    and "dial (JoinHostPort (host_name h) (Itoa port)) = Inr target"
  obtains as' where "handleConnection dial LocalAddr c =
      SocksRelay (c\<lparr>conn_in := NetConn as' False e, conn_out := (conn_out c)\<lparr>sent := sent (conn_out c) @
        [[0x05, 0x00], encode_reply 0x00 ip lport]\<rparr>\<rparr>) target"
    "net_stream as False = encode_greeting methods @ encode_request h port @ net_stream as' False"
proof -
  obtain r2 as' where h: "handleGreeting (c\<lparr>conn_in := NetConn as True e\<rparr>) =
      (None, c\<lparr>conn_in := r2, conn_out := (conn_out c)\<lparr>sent := sent (conn_out c) @ [[5, 0]]\<rparr>\<rparr>)"
    "readRequest r2 = (Inr (request_of h port), NetConn as' True e)"
    "net_stream as False = encode_greeting methods @ encode_request h port @ net_stream as' False"
    by (rule handleConnection_asked [OF assms(1-8)])
  have dl: "conn_SetReadDeadline True c = (None, c\<lparr>conn_in := NetConn as True e\<rparr>)"
    using assms(1,2) by (simp add: conn_SetReadDeadline_def)
  have w: "wplan ((conn_out c)\<lparr>sent := sent (conn_out c) @ [[5, 0]]\<rparr>) = []" using assms(3) by simp
  show ?thesis
    by (rule that [OF _ h(3)])
      (use dl h(1,2) sendReply_IPv4 [OF assms(10) w assms(11)] assms(9,12) in
        \<open>simp add: handleConnection_def connectToTarget_def request_of_def cmdConnect_def replySucceeded_def conn_SetReadDeadline_def assms(2)\<close>)
qed



end
