(* ===== verification/Socks5_Relay.thy ===== *)
theory Socks5_Relay
  imports Socks5
begin

text \<open>
  The relay of a SOCKS5 connection (\<^verbatim>\<open>src/pkg/socks5/relay.go\<close>) with the connection that
  \<^verbatim>\<open>cmd/client\<close> installs as its target, \<^verbatim>\<open>client.DataConn\<close>: two goroutines run
  \<^verbatim>\<open>io.Copy\<close> in the two directions, and the call returns when both have reported.

  The locale \<open>copy_loop\<close> states what a source and a sink have to keep for \<^verbatim>\<open>io.Copy\<close> to move
  the bytes unchanged; it is interpreted once for each direction.  A run of the relay is a sequence of
  \<open>relay_step\<close>s, each one iteration of one of the copies.
\<close>

section \<open>io.Copy\<close>

text \<open>
  One iteration of the loop of \<^verbatim>\<open>io.Copy\<close> with its buffer of 32 KiB: read, write what was read,
  stop at a write error, at a short write, or at a read error; \<open>EOF\<close> is no error.  \<open>Some\<close> ends the
  loop.  (The special paths of \<^verbatim>\<open>*net.TCPConn\<close> fall back to this loop for other connections.)
\<close>

definition copy_iteration ::
  "(nat \<Rightarrow> 's \<Rightarrow> (bytes \<times> 'e option) \<times> 's) \<Rightarrow> (bytes \<Rightarrow> 's \<Rightarrow> (nat \<times> 'e option) \<times> 's) \<Rightarrow> 'e \<Rightarrow> 'e \<Rightarrow> 's \<Rightarrow>
   'e option option \<times> 's" where
  "copy_iteration rd wr eof short s =
     (let ((data, er), s1) = rd (32 * 1024) s;
          (stop, s2) =
            (if data = [] then (None, s1)
             else (case wr data s1 of
                     ((nw, Some ew), s2) \<Rightarrow> (Some (Some ew), s2)
                   | ((nw, None), s2) \<Rightarrow> (if nw \<noteq> length data then Some (Some short) else None, s2)))
      in case stop of
           Some r \<Rightarrow> (Some r, s2)
         | None \<Rightarrow>
             (case er of
                None \<Rightarrow> (None, s2)
              | Some e \<Rightarrow> (Some (if e = eof then None else Some e), s2)))"

text \<open>
  \<open>source s b\<close>: the source still has \<open>b\<close> to deliver and then fails with \<open>fin s\<close>; \<open>sink s k\<close>: the
  sink has taken \<open>k\<close>.
\<close>

locale copy_loop =
  fixes rd :: "nat \<Rightarrow> 's \<Rightarrow> (bytes \<times> 'e option) \<times> 's"
    and wr :: "bytes \<Rightarrow> 's \<Rightarrow> (nat \<times> 'e option) \<times> 's"
    and source :: "'s \<Rightarrow> bytes \<Rightarrow> bool"
    and sink :: "'s \<Rightarrow> bytes \<Rightarrow> bool"
    and fin :: "'s \<Rightarrow> 'e"
  assumes rd_source: "source s b \<Longrightarrow> sink s k \<Longrightarrow> rd (32 * 1024) s = ((d, e), s') \<Longrightarrow>
      sink s' k \<and> fin s' = fin s \<and> (\<exists>b'. b = d @ b' \<and> source s' b' \<and> (\<forall>x. e = Some x \<longrightarrow> b' = [] \<and> x = fin s))"
    and wr_sink: "source s b \<Longrightarrow> sink s k \<Longrightarrow> d \<noteq> [] \<Longrightarrow>
      \<exists>s'. wr d s = ((length d, None), s') \<and> source s' b \<and> sink s' (k @ d) \<and> fin s' = fin s"
begin

lemma copy_step:
  assumes "source s b" "sink s k" "copy_iteration rd wr eof short s = (res, s')"
  shows "\<exists>d b'. b = d @ b' \<and> source s' b' \<and> sink s' (k @ d) \<and> fin s' = fin s \<and>
    (\<forall>x. res = Some x \<longrightarrow> b' = [] \<and> x = (if fin s = eof then None else Some (fin s)))"
proof -
  obtain d e s1 where rd: "rd (32 * 1024) s = ((d, e), s1)" by (metis surj_pair)
  from rd_source [OF assms(1,2) rd] obtain b' where s1: "sink s1 k" "fin s1 = fin s" "b = d @ b'" "source s1 b'"
    "\<forall>x. e = Some x \<longrightarrow> b' = [] \<and> x = fin s" by blast
  obtain s2 where s2: "source s2 b'" "sink s2 (k @ d)" "fin s2 = fin s"
    "(if d = [] then (None, s1)
      else (case wr d s1 of ((nw, Some ew), s2) \<Rightarrow> (Some (Some ew), s2)
            | ((nw, None), s2) \<Rightarrow> (if nw \<noteq> length d then Some (Some short) else None, s2))) = (None, s2)"
  proof (cases "d = []")
    case True
    with s1 show ?thesis by (intro that [of s1]) simp_all
  next
    case False
    from wr_sink [OF s1(4,1) False] s1(2) False show ?thesis by (auto intro: that)
  qed
  have "res = map_option (\<lambda>x. if x = eof then None else Some x) e \<and> s' = s2"
    using assms(3) unfolding copy_iteration_def rd Let_def prod.case s2(4) by (cases e) simp_all
  then have "\<forall>x. res = Some x \<longrightarrow> b' = [] \<and> x = (if fin s = eof then None else Some (fin s))" and s': "s' = s2"
    using s1(5) by (cases e; simp)+
  with s1(3) s2(1-3) show ?thesis by blast
qed

end

section \<open>The two goroutines\<close>

datatype relay_error = RelayIO io_error | RelayTransport transport_error

text \<open>
  \<open>rl_client\<close> is the SOCKS5 client's connection, a \<^verbatim>\<open>*net.TCPConn\<close>, which is half-closed when the
  copy to it ends; the target is a \<^verbatim>\<open>*client.DataConn\<close>, for which the source has no half-close.
\<close>

record relay_state =
  rl_client_in :: reader
  rl_client_out :: writer
  rl_target :: DataConn
  rl_rng :: rng
  rl_up_done :: bool
  rl_down_done :: bool
  rl_write_closed :: bool
  rl_errs :: "relay_error option list"

definition relay_start :: "conn \<Rightarrow> DataConn \<Rightarrow> rng \<Rightarrow> relay_state" where
  "relay_start conn target g =
     \<lparr>rl_client_in = conn_in conn, rl_client_out = conn_out conn, rl_target = target, rl_rng = g,
      rl_up_done = False, rl_down_done = False, rl_write_closed = False, rl_errs = []\<rparr>"

definition client_read :: "nat \<Rightarrow> relay_state \<Rightarrow> (bytes \<times> relay_error option) \<times> relay_state" where
  "client_read n st = (let ((d, e), r') = io_Read n (rl_client_in st) in ((d, map_option RelayIO e), st\<lparr>rl_client_in := r'\<rparr>))"

definition client_write :: "bytes \<Rightarrow> relay_state \<Rightarrow> (nat \<times> relay_error option) \<times> relay_state" where
  "client_write p st = (let ((n, e), w') = io_Write p (rl_client_out st) in ((n, map_option RelayIO e), st\<lparr>rl_client_out := w'\<rparr>))"

definition target_read :: "nat \<Rightarrow> relay_state \<Rightarrow> (bytes \<times> relay_error option) \<times> relay_state" where
  "target_read n st = (let ((d, e), c') = DataConn_Read n (rl_target st) in ((d, map_option RelayTransport e), st\<lparr>rl_target := c'\<rparr>))"

definition target_write :: "bytes \<Rightarrow> relay_state \<Rightarrow> (nat \<times> relay_error option) \<times> relay_state" where
  "target_write p st =
     (let ((n, e), c', g') = DataConn_Write p (rl_target st) (rl_rng st)
      in ((n, map_option RelayTransport e), st\<lparr>rl_target := c', rl_rng := g'\<rparr>))"

definition up_copy :: "relay_state \<Rightarrow> relay_error option option \<times> relay_state" where
  "up_copy = copy_iteration client_read target_write (RelayIO EOF) (RelayIO ErrShortWrite)"

definition down_copy :: "relay_state \<Rightarrow> relay_error option option \<times> relay_state" where
  "down_copy = copy_iteration target_read client_write (RelayIO EOF) (RelayIO ErrShortWrite)"

inductive relay_step :: "relay_state \<Rightarrow> relay_state \<Rightarrow> bool" where
  rl_up: "\<not> rl_up_done st \<Longrightarrow> up_copy st = (res, st1) \<Longrightarrow>
     relay_step st (st1\<lparr>rl_up_done := res \<noteq> None, rl_errs := rl_errs st @ (case res of None \<Rightarrow> [] | Some e \<Rightarrow> [e])\<rparr>)"
| rl_down: "\<not> rl_down_done st \<Longrightarrow> down_copy st = (res, st1) \<Longrightarrow>
     relay_step st (st1\<lparr>rl_down_done := res \<noteq> None, rl_write_closed := res \<noteq> None,
       rl_errs := rl_errs st @ (case res of None \<Rightarrow> [] | Some e \<Rightarrow> [e])\<rparr>)"

inductive_cases relay_stepE: "relay_step st st'"

abbreviation relay_run :: "relay_state \<Rightarrow> relay_state \<Rightarrow> bool" where
  "relay_run \<equiv> relay_step\<^sup>*\<^sup>*"

text \<open>The call takes both reports and returns the first one that is an error.\<close>

definition relay :: "relay_state \<Rightarrow> relay_error option option" where
  "relay st =
     (case rl_errs st of
        [first, second] \<Rightarrow> Some (case first of Some e \<Rightarrow> Some e | None \<Rightarrow> second)
      | _ \<Rightarrow> None)"

section \<open>Each direction is a copy loop\<close>

abbreviation rl_conn :: "relay_state \<Rightarrow> conn" where
  "rl_conn st \<equiv> dc_conn (rl_target st)"

abbreviation rl_chan :: "relay_state \<Rightarrow> DataChannel" where
  "rl_chan st \<equiv> dc_channel (rl_target st)"

definition up_source :: "relay_state \<Rightarrow> bytes \<Rightarrow> bool" where
  "up_source st b \<longleftrightarrow> reader_ok (rl_client_in st) \<and> reader_stream (rl_client_in st) = b"

text \<open>The frames that carry \<open>k\<close> have been sent since the channel was \<open>d0\<close> and the writer \<open>w0\<close>.\<close>

definition up_sink :: "DataChannel \<Rightarrow> writer \<Rightarrow> relay_state \<Rightarrow> bytes \<Rightarrow> bool" where
  "up_sink d0 w0 st k \<longleftrightarrow> channel_ok (rl_chan st) \<and> wplan (conn_out (rl_conn st)) = [] \<and> rng_fail (rl_rng st) = None \<and>
     the (channel_AEAD (rl_chan st)) = the (channel_AEAD d0) \<and> sendDirection (rl_chan st) = sendDirection d0 \<and>
     salt (the (SendNonces (rl_chan st))) = salt (the (SendNonces d0)) \<and>
     (\<exists>xs. (\<forall>x \<in> set xs. fits x \<and> fst x \<noteq> []) \<and> concat (map fst xs) = k \<and>
        sent (conn_out (rl_conn st)) = sent w0 @ map frame_packet (up_frames d0 xs) \<and>
        counter (the (SendNonces (rl_chan st))) = counter (the (SendNonces d0)) + of_nat (length xs))"

definition up_fin :: "relay_state \<Rightarrow> relay_error" where
  "up_fin st = RelayIO (reader_fin (rl_client_in st))"

definition down_source :: "relay_state \<Rightarrow> bytes \<Rightarrow> bool" where
  "down_source st b \<longleftrightarrow> (\<exists>s ys. incoming (rl_target st) s ys \<and> plaintext (rl_target st) ys = b)"

definition down_sink :: "relay_state \<Rightarrow> bytes \<Rightarrow> bool" where
  "down_sink st k \<longleftrightarrow> wplan (rl_client_out st) = [] \<and> written (rl_client_out st) = k"

definition down_fin :: "relay_state \<Rightarrow> relay_error" where
  "down_fin st = RelayTransport (ReadErr (ReadHeaderErr (reader_fin (conn_in (rl_conn st)))))"

lemma target_write_sink:
  assumes "up_sink d0 w0 st k"
  shows "\<exists>st'. target_write p st = ((length p, None), st') \<and> up_sink d0 w0 st' (k @ p) \<and> rl_client_in st' = rl_client_in st"
proof -
  let ?d = "rl_chan st" and ?w = "conn_out (rl_conn st)"
  from assms obtain ys where h: "channel_ok ?d" "wplan ?w = []" "rng_fail (rl_rng st) = None"
    "the (channel_AEAD ?d) = the (channel_AEAD d0)" "sendDirection ?d = sendDirection d0"
    "salt (the (SendNonces ?d)) = salt (the (SendNonces d0))" and
    ys: "\<forall>x \<in> set ys. fits x \<and> fst x \<noteq> []" "concat (map fst ys) = k" "sent ?w = sent w0 @ map frame_packet (up_frames d0 ys)"
    "counter (the (SendNonces ?d)) = counter (the (SendNonces d0)) + of_nat (length ys)" by (auto simp: up_sink_def)
  obtain xs d' g' where xs: "\<forall>x \<in> set xs. fits x \<and> 1 \<le> length (fst x) \<and> length (fst x) \<le> 1442" "concat (map fst xs) = p"
    and wr: "DataConn_Write p (rl_target st) (rl_rng st) = ((length p, None), (rl_target st)\<lparr>dc_channel := d', dc_conn := (rl_conn st)\<lparr>conn_out :=
       ?w\<lparr>sent := sent ?w @ map frame_packet (up_frames ?d xs)\<rparr>\<rparr>\<rparr>, g')"
    and d': "channel_ok d'" "rng_fail g' = None" "counter (the (SendNonces d')) = counter (the (SendNonces ?d)) + of_nat (length xs)"
    "salt (the (SendNonces d')) = salt (the (SendNonces ?d))" "the (channel_AEAD d') = the (channel_AEAD ?d)"
    "sendDirection d' = sendDirection ?d"
    by (rule DataConn_Write_ok [OF h(1-3)])
  have "sent ?w @ map frame_packet (up_frames ?d xs) = sent w0 @ map frame_packet (up_frames d0 (ys @ xs))"
    using h ys by (simp add: sealed_seq_append)
  moreover have all: "\<forall>x \<in> set (ys @ xs). fits x \<and> fst x \<noteq> []" using ys(1) xs(1) by (metis One_nat_def Un_iff list.size(3) not_one_le_zero set_append)
  ultimately have "up_sink d0 w0 (st\<lparr>rl_target := (rl_target st)\<lparr>dc_channel := d', dc_conn := (rl_conn st)\<lparr>conn_out :=
       ?w\<lparr>sent := sent ?w @ map frame_packet (up_frames ?d xs)\<rparr>\<rparr>\<rparr>, rl_rng := g'\<rparr>) (k @ p)"
    unfolding up_sink_def using h ys(2-4) xs(2) d' all by (intro conjI exI [of _ "ys @ xs"]) (simp_all add: add.assoc)
  with wr show ?thesis by (simp add: target_write_def)
qed

interpretation upl: copy_loop client_read target_write up_source "up_sink d0 w0" up_fin for d0 w0
proof
  fix s b k d e s'
  assume h: "up_source s b" "up_sink d0 w0 s k" "client_read (32 * 1024) s = ((d, e), s')"
  obtain d1 x r1 where rd: "io_Read (32 * 1024) (rl_client_in s) = ((d1, x), r1)" by (metis surj_pair)
  have ok: "reader_ok (rl_client_in s)" using h(1) by (simp add: up_source_def)
  have eqs: "d = d1" "e = map_option RelayIO x" "s' = s\<lparr>rl_client_in := r1\<rparr>" using h(3) rd by (auto simp: client_read_def)
  note r = rdr.rd_ok [OF ok rd] rdr.rd_stream [OF ok rd] rdr.rd_fin [OF ok rd] rdr.rd_error [OF ok, of "32 * 1024" d1]
  show "up_sink d0 w0 s' k \<and> up_fin s' = up_fin s \<and>
      (\<exists>b'. b = d @ b' \<and> up_source s' b' \<and> (\<forall>x. e = Some x \<longrightarrow> b' = [] \<and> x = up_fin s))"
    using h(1,2) rd r unfolding eqs by (auto simp: up_source_def up_sink_def up_fin_def)
next
  fix s b k and d :: bytes
  assume h: "up_source s b" "up_sink d0 w0 s k" "d \<noteq> []"
  from target_write_sink [OF h(2), of d] h(1) show "\<exists>s'. target_write d s = ((length d, None), s') \<and> up_source s' b \<and>
      up_sink d0 w0 s' (k @ d) \<and> up_fin s' = up_fin s"
    by (auto simp: up_source_def up_fin_def)
qed

interpretation downl: copy_loop target_read client_write down_source down_sink down_fin
proof
  fix s b k d e s'
  assume h: "down_source s b" "down_sink s k" "target_read (32 * 1024) s = ((d, e), s')"
  from h(1) obtain t ys where inc: "incoming (rl_target s) t ys" "plaintext (rl_target s) ys = b" by (auto simp: down_source_def)
  show "down_sink s' k \<and> down_fin s' = down_fin s \<and>
      (\<exists>b'. b = d @ b' \<and> down_source s' b' \<and> (\<forall>x. e = Some x \<longrightarrow> b' = [] \<and> x = down_fin s))"
  proof (cases "b = []")
    case True
    from DataConn_Read_end [OF inc(1), of "32 * 1024"] True inc(2) h(2,3) show ?thesis
      by (fastforce simp: target_read_def down_sink_def down_fin_def down_source_def)
  next
    case False
    from DataConn_Read_ok [OF inc(1), of "32 * 1024"] False inc(2) h(2,3) show ?thesis
      by (fastforce simp: target_read_def down_sink_def down_fin_def down_source_def)
  qed
next
  fix s b k and d :: bytes
  assume "down_source s b" "down_sink s k" "d \<noteq> []"
  then show "\<exists>s'. client_write d s = ((length d, None), s') \<and> down_source s' b \<and> down_sink s' (k @ d) \<and> down_fin s' = down_fin s"
    by (simp add: client_write_def down_sink_def down_source_def down_fin_def)
qed

text \<open>Each direction leaves the other's half of the state alone.\<close>

definition same_up :: "relay_state \<Rightarrow> relay_state \<Rightarrow> bool" where
  "same_up st st' \<longleftrightarrow> rl_client_in st' = rl_client_in st \<and> conn_out (rl_conn st') = conn_out (rl_conn st) \<and> rl_rng st' = rl_rng st \<and>
     rl_chan st' = (rl_chan st)\<lparr>receiveSequence := receiveSequence (rl_chan st')\<rparr> \<and> rl_up_done st' = rl_up_done st"

definition same_down :: "relay_state \<Rightarrow> relay_state \<Rightarrow> bool" where
  "same_down st st' \<longleftrightarrow> rl_client_out st' = rl_client_out st \<and> conn_in (rl_conn st') = conn_in (rl_conn st) \<and>
     readBuffer (rl_target st') = readBuffer (rl_target st) \<and>
     rl_chan st' = (rl_chan st)\<lparr>SendNonces := SendNonces (rl_chan st')\<rparr> \<and> rl_down_done st' = rl_down_done st"

lemma up_copy_same_down:
  assumes "up_copy st = (res, st')"
  shows "same_down st st' \<and> rl_errs st' = rl_errs st"
proof -
  obtain d e r1 where rd: "io_Read (32 * 1024) (rl_client_in st) = ((d, e), r1)" by (metis surj_pair)
  obtain n x c' g' where wr: "DataConn_Write d (rl_target st) (rl_rng st) = ((n, x), c', g')" by (metis surj_pair)
  let ?st1 = "st\<lparr>rl_client_in := r1\<rparr>"
  have "st' = ?st1 \<or> st' = ?st1\<lparr>rl_target := c', rl_rng := g'\<rparr>"
    using assms rd wr by (auto simp: up_copy_def copy_iteration_def client_read_def target_write_def Let_def split: if_splits option.splits prod.splits)
  with DataConn_write_loop_frame [OF wr [unfolded DataConn_Write_def]] show ?thesis
    by (elim disjE) (simp_all add: same_down_def)
qed

lemma down_copy_same_up:
  assumes "down_copy st = (res, st')"
  shows "same_up st st' \<and> rl_errs st' = rl_errs st"
proof -
  obtain d e c' where rd: "DataConn_Read (32 * 1024) (rl_target st) = ((d, e), c')" by (metis surj_pair)
  obtain n x w' where wr: "io_Write d (rl_client_out st) = ((n, x), w')" by (metis surj_pair)
  let ?st1 = "st\<lparr>rl_target := c'\<rparr>"
  have "st' = ?st1 \<or> st' = ?st1\<lparr>rl_client_out := w'\<rparr>"
    using assms rd wr by (auto simp: down_copy_def copy_iteration_def target_read_def client_write_def Let_def split: if_splits option.splits prod.splits)
  with DataConn_Read_frame [OF rd] show ?thesis
    by (elim disjE) (simp_all add: same_up_def)
qed

lemma same_down_receives:
  assumes "same_down st st'"
  shows "ReceiveAEAD (rl_chan st') = ReceiveAEAD (rl_chan st)" "receiveDirection (rl_chan st') = receiveDirection (rl_chan st)"
    "receiveSequence (rl_chan st') = receiveSequence (rl_chan st)"
  using assms unfolding same_down_def
  by (metis DataChannel.select_convs(2,5,6) DataChannel.surjective DataChannel.update_convs(3))+

lemma same_down_source:
  assumes "same_down st st'" "channel_ok (rl_chan st')" "down_source st b"
  shows "down_source st' b \<and> down_fin st' = down_fin st"
  using assms same_down_receives [OF assms(1)]
  by (auto simp: same_down_def down_source_def down_fin_def incoming_def plaintext_def)

lemma same_up_sink:
  assumes "same_up st st'" "up_source st b" "up_sink d0 w0 st k"
  shows "up_source st' b \<and> up_sink d0 w0 st' k \<and> up_fin st' = up_fin st"
proof -
  have "channel_ok (rl_chan st')" "channel_AEAD (rl_chan st') = channel_AEAD (rl_chan st)" "SendNonces (rl_chan st') = SendNonces (rl_chan st)"
    "sendDirection (rl_chan st') = sendDirection (rl_chan st)"
    using assms unfolding same_up_def up_sink_def
    by (metis channel_ok_received, metis DataChannel.select_convs(1,3,4) DataChannel.surjective DataChannel.update_convs(6),
        metis DataChannel.select_convs(1,3,4) DataChannel.surjective DataChannel.update_convs(6),
        metis DataChannel.select_convs(1,3,4) DataChannel.surjective DataChannel.update_convs(6))
  with assms show ?thesis by (auto simp: same_up_def up_source_def up_sink_def up_fin_def)
qed

section \<open>What a run of the relay has moved\<close>

text \<open>
  \<open>up\<close> and \<open>down\<close> are what the two sources had to deliver when the relay started in \<open>st0\<close>.
\<close>

definition moved_up :: "relay_state \<Rightarrow> bytes \<Rightarrow> relay_state \<Rightarrow> bool" where
  "moved_up st0 up st \<longleftrightarrow>
     (\<exists>b k. up = k @ b \<and> up_source st b \<and> up_sink (rl_chan st0) (conn_out (rl_conn st0)) st k \<and> up_fin st = up_fin st0 \<and>
        (rl_up_done st \<longrightarrow> b = [] \<and> (if up_fin st0 = RelayIO EOF then None else Some (up_fin st0)) \<in> set (rl_errs st)))"

definition moved_down :: "relay_state \<Rightarrow> bytes \<Rightarrow> relay_state \<Rightarrow> bool" where
  "moved_down st0 down st \<longleftrightarrow>
     (\<exists>b k. down = k @ b \<and> down_source st b \<and> down_sink st (written (rl_client_out st0) @ k) \<and> down_fin st = down_fin st0 \<and>
        (rl_down_done st \<longrightarrow> b = [] \<and> Some (down_fin st0) \<in> set (rl_errs st)))"

definition relay_inv :: "relay_state \<Rightarrow> bytes \<Rightarrow> bytes \<Rightarrow> relay_state \<Rightarrow> bool" where
  "relay_inv st0 up down st \<longleftrightarrow> moved_up st0 up st \<and> moved_down st0 down st"

lemma up_flags:
  "up_source (st\<lparr>rl_up_done := a, rl_errs := es\<rparr>) b = up_source st b"
  "up_sink d0 w0 (st\<lparr>rl_up_done := a, rl_errs := es\<rparr>) k = up_sink d0 w0 st k" "up_fin (st\<lparr>rl_up_done := a, rl_errs := es\<rparr>) = up_fin st"
  "down_source (st\<lparr>rl_up_done := a, rl_errs := es\<rparr>) b = down_source st b"
  "down_sink (st\<lparr>rl_up_done := a, rl_errs := es\<rparr>) k = down_sink st k" "down_fin (st\<lparr>rl_up_done := a, rl_errs := es\<rparr>) = down_fin st"
  by (simp_all add: up_source_def up_sink_def up_fin_def down_source_def down_sink_def down_fin_def)

lemma down_flags:
  "up_source (st\<lparr>rl_down_done := a, rl_write_closed := c, rl_errs := es\<rparr>) b = up_source st b"
  "up_sink d0 w0 (st\<lparr>rl_down_done := a, rl_write_closed := c, rl_errs := es\<rparr>) k = up_sink d0 w0 st k"
  "up_fin (st\<lparr>rl_down_done := a, rl_write_closed := c, rl_errs := es\<rparr>) = up_fin st"
  "down_source (st\<lparr>rl_down_done := a, rl_write_closed := c, rl_errs := es\<rparr>) b = down_source st b"
  "down_sink (st\<lparr>rl_down_done := a, rl_write_closed := c, rl_errs := es\<rparr>) k = down_sink st k"
  "down_fin (st\<lparr>rl_down_done := a, rl_write_closed := c, rl_errs := es\<rparr>) = down_fin st"
  by (simp_all add: up_source_def up_sink_def up_fin_def down_source_def down_sink_def down_fin_def)

lemma moved_up_step:
  assumes "moved_up st0 up st" "up_copy st = (res, st1)" "rl_errs st1 = rl_errs st"
  shows "moved_up st0 up (st1\<lparr>rl_up_done := res \<noteq> None, rl_errs := rl_errs st @ (case res of None \<Rightarrow> [] | Some e \<Rightarrow> [e])\<rparr>)"
    "channel_ok (rl_chan st1)"
proof -
  from assms(1) obtain b k where
    u: "up = k @ b" "up_source st b" "up_sink (rl_chan st0) (conn_out (rl_conn st0)) st k" "up_fin st = up_fin st0"
    by (auto simp: moved_up_def)
  from upl.copy_step [OF u(2,3) assms(2) [unfolded up_copy_def]] obtain q c where
    s: "b = q @ c" "up_source st1 c" "up_sink (rl_chan st0) (conn_out (rl_conn st0)) st1 (k @ q)" "up_fin st1 = up_fin st"
    "\<forall>x. res = Some x \<longrightarrow> c = [] \<and> x = (if up_fin st = RelayIO EOF then None else Some (up_fin st))" by blast
  show "moved_up st0 up (st1\<lparr>rl_up_done := res \<noteq> None, rl_errs := rl_errs st @ (case res of None \<Rightarrow> [] | Some e \<Rightarrow> [e])\<rparr>)"
    unfolding moved_up_def up_flags
    by (rule exI [of _ c], rule exI [of _ "k @ q"], cases res) (use u s in simp_all)
  show "channel_ok (rl_chan st1)" using s(3) by (simp add: up_sink_def)
qed

lemma moved_down_step:
  assumes "moved_down st0 down st" "down_copy st = (res, st1)"
  shows "moved_down st0 down (st1\<lparr>rl_down_done := res \<noteq> None, rl_write_closed := cl,
    rl_errs := rl_errs st @ (case res of None \<Rightarrow> [] | Some e \<Rightarrow> [e])\<rparr>)"
proof -
  from assms(1) obtain b k where
    d: "down = k @ b" "down_source st b" "down_sink st (written (rl_client_out st0) @ k)" "down_fin st = down_fin st0"
    by (auto simp: moved_down_def)
  from downl.copy_step [OF d(2,3) assms(2) [unfolded down_copy_def]] obtain q c where
    s: "b = q @ c" "down_source st1 c" "down_sink st1 ((written (rl_client_out st0) @ k) @ q)" "down_fin st1 = down_fin st"
    "\<forall>x. res = Some x \<longrightarrow> c = [] \<and> x = (if down_fin st = RelayIO EOF then None else Some (down_fin st))" by blast
  have "down_fin st \<noteq> RelayIO EOF" by (simp add: down_fin_def)
  then show ?thesis
    unfolding moved_down_def down_flags
    by (intro exI [of _ c] exI [of _ "k @ q"], cases res) (use d s in simp_all)
qed

lemma moved_up_other:
  assumes "moved_up st0 up st" "same_up st st1"
  shows "moved_up st0 up (st1\<lparr>rl_down_done := a, rl_write_closed := cl, rl_errs := rl_errs st @ es\<rparr>)"
proof -
  from assms(1) obtain b k where
    u: "up = k @ b" "up_source st b" "up_sink (rl_chan st0) (conn_out (rl_conn st0)) st k" "up_fin st = up_fin st0"
      "rl_up_done st \<longrightarrow> b = [] \<and> (if up_fin st0 = RelayIO EOF then None else Some (up_fin st0)) \<in> set (rl_errs st)"
    unfolding moved_up_def by blast
  have "rl_up_done st1 = rl_up_done st" using assms(2) by (simp add: same_up_def)
  with same_up_sink [OF assms(2) u(2,3)] u show ?thesis
    unfolding moved_up_def down_flags by (intro exI [of _ b] exI [of _ k]) simp
qed

lemma moved_down_other:
  assumes "moved_down st0 down st" "same_down st st1" "channel_ok (rl_chan st1)"
  shows "moved_down st0 down (st1\<lparr>rl_up_done := a, rl_errs := rl_errs st @ es\<rparr>)"
proof -
  from assms(1) obtain b k where
    d: "down = k @ b" "down_source st b" "down_sink st (written (rl_client_out st0) @ k)" "down_fin st = down_fin st0"
      "rl_down_done st \<longrightarrow> b = [] \<and> Some (down_fin st0) \<in> set (rl_errs st)"
    unfolding moved_down_def by blast
  have "rl_down_done st1 = rl_down_done st" "down_sink st1 (written (rl_client_out st0) @ k)"
    using assms(2) d(3) by (simp_all add: same_down_def down_sink_def)
  with same_down_source [OF assms(2,3) d(2)] d show ?thesis
    unfolding moved_down_def up_flags by (intro exI [of _ b] exI [of _ k]) simp
qed

lemma relay_step_inv:
  assumes "relay_step st st'" "relay_inv st0 up down st"
  shows "relay_inv st0 up down st'"
  using assms(1)
proof cases
  case (rl_up res st1)
  note same = up_copy_same_down [OF rl_up(3)] and inv = assms(2) [unfolded relay_inv_def]
  note own = moved_up_step [OF conjunct1 [OF inv] rl_up(3) conjunct2 [OF same]]
  from own(1) moved_down_other [OF conjunct2 [OF inv] conjunct1 [OF same] own(2)] show ?thesis
    unfolding rl_up(1) relay_inv_def by blast
next
  case (rl_down res st1)
  note same = down_copy_same_up [OF rl_down(3)] and inv = assms(2) [unfolded relay_inv_def]
  from moved_down_step [OF conjunct2 [OF inv] rl_down(3)] moved_up_other [OF conjunct1 [OF inv] conjunct1 [OF same]]
  show ?thesis unfolding rl_down(1) relay_inv_def by blast
qed

definition relay_ready :: "conn \<Rightarrow> DataConn \<Rightarrow> rng \<Rightarrow> bool" where
  "relay_ready conn target g \<longleftrightarrow> reader_ok (conn_in conn) \<and> wplan (conn_out conn) = [] \<and> channel_ok (dc_channel target) \<and>
     wplan (conn_out (dc_conn target)) = [] \<and> rng_fail g = None"

text \<open>The way up does not depend on what comes down.\<close>

lemma relay_step_up:
  assumes "relay_step st st'" "moved_up st0 up st"
  shows "moved_up st0 up st'"
  using assms(1)
proof cases
  case (rl_up res st1)
  from moved_up_step(1) [OF assms(2) rl_up(3) conjunct2 [OF up_copy_same_down [OF rl_up(3)]]] show ?thesis unfolding rl_up(1) .
next
  case (rl_down res st1)
  from moved_up_other [OF assms(2) conjunct1 [OF down_copy_same_up [OF rl_down(3)]]] show ?thesis unfolding rl_down(1) .
qed

lemma relay_run_up:
  assumes "relay_run st0 st" "moved_up st0 up st0"
  shows "moved_up st0 up st"
  using assms by (induction rule: rtranclp_induct) (auto intro: relay_step_up)

lemma relay_start_up:
  assumes "relay_ready conn target g"
  shows "moved_up (relay_start conn target g) (reader_stream (conn_in conn)) (relay_start conn target g)"
proof -
  let ?st = "relay_start conn target g"
  have "up_source ?st (reader_stream (conn_in conn))"
    using assms by (simp add: up_source_def relay_ready_def relay_start_def)
  moreover have "up_sink (rl_chan ?st) (conn_out (rl_conn ?st)) ?st []"
    using assms by (auto simp: up_sink_def relay_ready_def relay_start_def intro!: exI [of _ "[]"])
  moreover have "\<not> rl_up_done ?st" by (simp add: relay_start_def)
  ultimately show ?thesis unfolding moved_up_def by (metis append_Nil)
qed

lemma relay_start_inv:
  assumes "relay_ready conn target g" "incoming target s ys"
  shows "relay_inv (relay_start conn target g) (reader_stream (conn_in conn)) (plaintext target ys) (relay_start conn target g)"
proof -
  let ?st = "relay_start conn target g"
  have idle: "\<not> rl_down_done ?st" by (simp add: relay_start_def)
  have "down_source ?st (plaintext target ys)" using assms(2) by (auto simp: down_source_def relay_start_def)
  moreover have "down_sink ?st (written (rl_client_out ?st) @ [])" using assms(1) by (simp add: down_sink_def relay_ready_def relay_start_def)
  ultimately have "moved_down ?st (plaintext target ys) ?st"
    unfolding moved_down_def using idle by (metis append_Nil)
  with relay_start_up [OF assms(1)] show ?thesis unfolding relay_inv_def by blast
qed

lemma relay_run_inv:
  assumes "relay_run st0 st" "relay_inv st0 up down st0"
  shows "relay_inv st0 up down st"
  using assms by (induction rule: rtranclp_induct) (auto intro: relay_step_inv)

lemma relay_errs_count:
  assumes "relay_run st0 st" "length (rl_errs st0) = of_bool (rl_up_done st0) + of_bool (rl_down_done st0)"
  shows "length (rl_errs st) = of_bool (rl_up_done st) + of_bool (rl_down_done st)"
  using assms
proof (induction rule: rtranclp_induct)
  case (step st st')
  from step(2) show ?case
  proof cases
    case (rl_up res st1)
    with up_copy_same_down [OF rl_up(3)] step(3) [OF step(4)] show ?thesis
      by (cases res) (simp_all add: same_down_def)
  next
    case (rl_down res st1)
    with down_copy_same_up [OF rl_down(3)] step(3) [OF step(4)] show ?thesis
      by (cases res) (simp_all add: same_up_def)
  qed
qed simp

section \<open>The relay returns\<close>

lemma fill_buffer_rank:
  "fill_buffer d r buf = (Inr q, d', r') \<Longrightarrow> q = buf \<and> r' = r \<or> reader_rank r' < reader_rank r"
proof (induction d r buf rule: fill_buffer.induct)
  case (1 d r buf)
  obtain x dp rp where rd: "ReadDataFrame (Some d) (Some r) = (x, dp, rp)" by (metis surj_pair)
  show ?case
  proof (cases "buf \<noteq> [] \<or> (\<exists>e. x = Inl e)")
    case True
    with 1(2) rd show ?thesis by (auto simp: fill_buffer.simps [of d r buf] split: if_splits)
  next
    case False
    then obtain p where p: "buf = []" "x = Inr p" by (cases x) auto
    then have "reader_rank (the rp) < reader_rank r"
      using rd by (auto simp: ReadDataFrame_def split: if_splits prod.splits dest: channel_receive_rank)
    moreover have "fill_buffer (the dp) (the rp) p = (Inr q, d', r')" using 1(2) rd p by (simp add: fill_buffer.simps [of d r "[]"])
    ultimately show ?thesis using 1(1) p rd by fastforce
  qed
qed

lemma fill_buffer_nonempty: "fill_buffer d r buf = (Inr q, d', r') \<Longrightarrow> q \<noteq> []"
proof (induction d r buf rule: fill_buffer.induct)
  case (1 d r buf)
  obtain x dp rp where rd: "ReadDataFrame (Some d) (Some r) = (x, dp, rp)" by (metis surj_pair)
  from 1(2) show ?case
    using 1(1) [OF _ rd [symmetric]] rd
    by (cases x; cases "buf = []") (auto simp: fill_buffer.simps [of d r "[]"] fill_buffer.simps [of d r buf])
qed

lemma DataConn_Read_rank:
  assumes "DataConn_Read n c = ((d, None), c')" "0 < n"
  shows "reader_rank (conn_in (dc_conn c')) < reader_rank (conn_in (dc_conn c)) \<or>
    reader_rank (conn_in (dc_conn c')) = reader_rank (conn_in (dc_conn c)) \<and> length (readBuffer c') < length (readBuffer c)"
proof -
  from assms(1) obtain q dd r where f: "fill_buffer (dc_channel c) (conn_in (dc_conn c)) (readBuffer c) = (Inr q, dd, r)"
    "c' = c\<lparr>dc_channel := dd, dc_conn := (dc_conn c)\<lparr>conn_in := r\<rparr>, readBuffer := drop n q\<rparr>"
    by (auto simp: DataConn_Read_def split: prod.splits sum.splits)
  with fill_buffer_rank [OF f(1)] fill_buffer_nonempty [OF f(1)] assms(2) show ?thesis by auto
qed

definition relay_rank :: "relay_state \<Rightarrow> nat \<times> nat" where
  "relay_rank st =
     ((if rl_up_done st then 0 else Suc (reader_rank (rl_client_in st))) +
      (if rl_down_done st then 0 else Suc (reader_rank (conn_in (rl_conn st)))), length (readBuffer (rl_target st)))"

lemma up_copy_rank: "up_copy st = (None, st') \<Longrightarrow> reader_rank (rl_client_in st') < reader_rank (rl_client_in st)"
  by (auto simp: up_copy_def copy_iteration_def client_read_def target_write_def Let_def
      split: prod.splits option.splits if_splits dest!: rdr.rd_rank)

lemma down_copy_rank:
  "down_copy st = (None, st') \<Longrightarrow> reader_rank (conn_in (rl_conn st')) < reader_rank (conn_in (rl_conn st)) \<or>
     reader_rank (conn_in (rl_conn st')) = reader_rank (conn_in (rl_conn st)) \<and>
     length (readBuffer (rl_target st')) < length (readBuffer (rl_target st))"
  by (auto simp: down_copy_def copy_iteration_def target_read_def client_write_def Let_def
      split: prod.splits option.splits if_splits dest!: DataConn_Read_rank)

lemma relay_step_rank:
  assumes "relay_step st st'"
  shows "(relay_rank st', relay_rank st) \<in> less_than <*lex*> less_than"
  using assms
proof cases
  case (rl_up res st1)
  note same = up_copy_same_down [OF rl_up(3)]
  show ?thesis
    using rl_up same up_copy_rank [of st st1] by (cases res) (auto simp: relay_rank_def same_down_def)
next
  case (rl_down res st1)
  note same = down_copy_same_up [OF rl_down(3)]
  show ?thesis
    using rl_down same down_copy_rank [of st st1] by (cases res) (auto simp: relay_rank_def same_up_def)
qed

lemma relay_step_wf: "wf {(st', st). relay_step st st'}"
  by (rule wf_subset [OF wf_inv_image [of "less_than <*lex*> less_than" relay_rank]])
    (auto dest!: relay_step_rank)

lemma relay_progress: "\<not> (rl_up_done st \<and> rl_down_done st) \<Longrightarrow> \<exists>st'. relay_step st st'"
  by (metis surj_pair relay_step.rl_up relay_step.rl_down)

lemma relay_finishes: "\<exists>st'. relay_run st st' \<and> rl_up_done st' \<and> rl_down_done st'"
proof (induction st rule: wf_induct_rule [OF relay_step_wf])
  case (1 st)
  show ?case
  proof (cases "rl_up_done st \<and> rl_down_done st")
    case True
    then show ?thesis by blast
  next
    case False
    with relay_progress obtain st1 where "relay_step st st1" by blast
    with 1 show ?thesis by (blast intro: converse_rtranclp_into_rtranclp)
  qed
qed

section \<open>Properties\<close>

text \<open>
  C15.  The relay moves both byte streams unchanged, however its two goroutines are interleaved: at any
  moment the frames sent up the tunnel carry, in order, a prefix of what the SOCKS5 client sent, and
  the client has been given a prefix of the plaintext that came down; when a direction has ended, it
  has moved everything.
\<close>

theorem relay_faithful:
  assumes "relay_ready conn target g" "incoming target s ys" "relay_run (relay_start conn target g) st"
  shows "(\<exists>xs. (\<forall>x \<in> set xs. fits x) \<and>
      sent (conn_out (rl_conn st)) = sent (conn_out (dc_conn target)) @ map frame_packet (up_frames (dc_channel target) xs) \<and>
      reader_stream (conn_in conn) = concat (map fst xs) @ reader_stream (rl_client_in st) \<and>
      (rl_up_done st \<longrightarrow> reader_stream (rl_client_in st) = [])) \<and>
    (\<exists>b. written (conn_out conn) @ plaintext target ys = written (rl_client_out st) @ b \<and> (rl_down_done st \<longrightarrow> b = []))"
proof -
  let ?st = "relay_start conn target g"
  have start: "rl_chan ?st = dc_channel target" "conn_out (rl_conn ?st) = conn_out (dc_conn target)" "rl_client_out ?st = conn_out conn"
    by (simp_all add: relay_start_def)
  from relay_run_inv [OF assms(3) relay_start_inv [OF assms(1,2)]] have
    u: "moved_up ?st (reader_stream (conn_in conn)) st" and d: "moved_down ?st (plaintext target ys) st"
    by (simp_all add: relay_inv_def)
  from u show ?thesis
    using d unfolding moved_up_def moved_down_def up_source_def up_sink_def down_sink_def start by fastforce
qed

definition sample_target :: DataConn where
  "sample_target = \<lparr>dc_conn = sample_conn [], dc_channel = sample_channel, dc_target = ''example.com:80'', readBuffer = [104, 105]\<rparr>"

lemma sample_relay_ready: "relay_ready (sample_conn [Data [1, 2], Data [3]]) sample_target sample_rng"
  by (simp add: relay_ready_def sample_conn_def sample_target_def sample_channel_ok sample_writer_def sample_rng_def)

lemma sample_incoming: "incoming sample_target [9, 9, 9, 9] []"
  by (simp add: incoming_def sample_target_def sample_channel_ok sample_conn_def)

theorem relay_faithful_witness:
  "\<exists>st xs. relay_run (relay_start (sample_conn [Data [1, 2], Data [3]]) sample_target sample_rng) st \<and>
     concat (map fst xs) = [1, 2, 3] \<and> sent (conn_out (rl_conn st)) = map frame_packet (up_frames sample_channel xs) \<and>
     written (rl_client_out st) = [104, 105]"
proof -
  let ?c = "sample_conn [Data [1, 2], Data [3]]"
  from relay_finishes [of "relay_start ?c sample_target sample_rng"] obtain st where
    st: "relay_run (relay_start ?c sample_target sample_rng) st" "rl_up_done st" "rl_down_done st" by blast
  from relay_faithful [OF sample_relay_ready sample_incoming st(1)] st(2,3) obtain xs where
    "reader_stream (conn_in ?c) = concat (map fst xs)"
    "sent (conn_out (rl_conn st)) = sent (conn_out (dc_conn sample_target)) @ map frame_packet (up_frames (dc_channel sample_target) xs)"
    "written (conn_out ?c) @ plaintext sample_target [] = written (rl_client_out st)" by auto
  with st(1) show ?thesis
    by (auto simp: sample_conn_def sample_target_def sample_writer_def plaintext_def)
qed

text \<open>
  C31.  The relay always returns: no run is infinite, as long as a goroutine is running there is a
  step, and from every state both goroutines can run to their reports.
\<close>

theorem relay_returns:
  "wf {(st', st). relay_step st st'} \<and> ((\<exists>st'. relay_step st st') \<longleftrightarrow> \<not> (rl_up_done st \<and> rl_down_done st)) \<and>
   (\<exists>st'. relay_run st st' \<and> rl_up_done st' \<and> rl_down_done st')"
proof -
  have "\<not> (rl_up_done st \<and> rl_down_done st)" if "relay_step st st'" for st' using that by cases auto
  then show ?thesis using relay_step_wf relay_progress relay_finishes by blast
qed

text \<open>
  C38.  The relay reports an error even when both sides end in order: \<^verbatim>\<open>DataConn.Read\<close> wraps the
  end of the connection twice and so never returns \<^verbatim>\<open>io.EOF\<close> itself, which \<^verbatim>\<open>io.Copy\<close>
  compares with; a SOCKS5 client that ends with \<open>EOF\<close> over a tunnel that ends with \<open>EOF\<close> gets the
  result ``read header: EOF''.
\<close>

theorem relay_reports_orderly_end:
  assumes "relay_ready conn target g" "incoming target s ys" "relay_run (relay_start conn target g) st"
    and "rl_up_done st" "rl_down_done st" "reader_fin (conn_in conn) = EOF" "reader_fin (conn_in (dc_conn target)) = EOF"
  shows "relay st = Some (Some (RelayTransport (ReadErr (ReadHeaderErr EOF))))"
proof -
  let ?st = "relay_start conn target g" and ?e = "RelayTransport (ReadErr (ReadHeaderErr EOF))"
  have fin: "up_fin ?st = RelayIO EOF" "down_fin ?st = ?e"
    using assms(6,7) by (simp_all add: up_fin_def down_fin_def relay_start_def)
  from relay_run_inv [OF assms(3) relay_start_inv [OF assms(1,2)]] assms(4,5) have
    both: "None \<in> set (rl_errs st)" "Some ?e \<in> set (rl_errs st)"
    by (auto simp: relay_inv_def moved_up_def moved_down_def fin)
  have "length (rl_errs st) = Suc (Suc 0)"
    using relay_errs_count [OF assms(3)] assms(4,5) by (simp add: relay_start_def)
  then obtain a b where "rl_errs st = [a, b]" by (auto simp: length_Suc_conv)
  with both show ?thesis by (auto simp: relay_def)
qed

theorem relay_reports_orderly_end_witness:
  "\<exists>st. relay_run (relay_start (sample_conn [Data [1, 2], Data [3]]) sample_target sample_rng) st \<and>
     relay st = Some (Some (RelayTransport (ReadErr (ReadHeaderErr EOF))))"
proof -
  let ?c = "sample_conn [Data [1, 2], Data [3]]"
  from relay_finishes [of "relay_start ?c sample_target sample_rng"] obtain st where
    st: "relay_run (relay_start ?c sample_target sample_rng) st" "rl_up_done st" "rl_down_done st" by blast
  from relay_reports_orderly_end [OF sample_relay_ready sample_incoming st] st(1) show ?thesis
    by (auto simp: sample_conn_def sample_target_def net_fin_def)
qed

end
