(* ===== verification/Gateway_Tunnel.thy ===== *)
theory Gateway_Tunnel
  imports Secure_Channel Gateway_Auth Go_IP
begin

text \<open>
  Package \<^verbatim>\<open>gateway\<close>, the tunnel (\<^verbatim>\<open>src/pkg/gateway/tunnel.go\<close>): the gateway's end of the
  encrypted channel, the choice and the check of the destination, the two forwarding loops, and the
  serving of one tunnel.

  The name service and the network are parameters: \<open>lookup\<close> is the answer of the resolver, \<open>dial\<close>
  the outcome of one TCP connection attempt.  The two forwarding loops run as goroutines that share
  the channel; \<open>tunnel_step\<close> interleaves their iterations.
\<close>

section \<open>The channel\<close>

record tunnelChannel =
  tun_send :: AEAD
  tun_receive :: AEAD
  tun_nonces :: NonceCounter
  received :: uint64
  paddingEnabled :: bool
  jitterMS :: int

record TunnelOptions =
  AllowedDestinations :: "string list"
  opt_PaddingEnabled :: "bool option"
  opt_JitterMS :: int

datatype tunnel_error =
    TunnelConnNil
  | TunnelSessionNil
  | TunnelCryptoErr crypto_error
  | TunnelNonceErr nonce_error
  | TunnelFrameErr frame_error
  | TunnelUnexpectedType byte
  | TunnelUnexpectedSequence uint64 uint64
  | TunnelPaddingErr padding_error
  | TunnelPayloadErr payload_error
  | TunnelTargetEmpty
  | TunnelTargetTooLong
  | TunnelTargetInvalid addr_error
  | TunnelTargetHostEmpty
  | TunnelTargetPort
  | TunnelIOErr io_error
  | DialErr nat
  | ResolverErr nat
  | DestinationSplitErr addr_error
  | DestinationNotAllowed
  | DestinationProhibited
  | DestinationNoAddresses
  | ChunkSizePanic

definition newTunnelChannel ::
  "crypto_lib \<Rightarrow> AuthSession \<Rightarrow> TunnelOptions \<Rightarrow> rng \<Rightarrow> (tunnel_error, tunnelChannel) result \<times> rng" where
  "newTunnelChannel L s options g =
     (case NewAEAD L (ServerToClientKey (Some s)) of
        Inl e \<Rightarrow> (Inl (TunnelCryptoErr e), g)
      | Inr send \<Rightarrow>
          (case NewAEAD L (ClientToServerKey (Some s)) of
             Inl e \<Rightarrow> (Inl (TunnelCryptoErr e), g)
           | Inr recv \<Rightarrow>
               (case NewNonceCounter g of
                  (Inl e, g') \<Rightarrow> (Inl (TunnelNonceErr e), g')
                | (Inr n, g') \<Rightarrow>
                    (let pe = (case opt_PaddingEnabled options of None \<Rightarrow> True | Some b \<Rightarrow> b)
                     in (Inr \<lparr>tun_send = send, tun_receive = recv, tun_nonces = n, received = 0,
                              paddingEnabled = pe, jitterMS = opt_JitterMS options\<rparr>, g')))))"

definition aad :: "byte \<Rightarrow> byte \<Rightarrow> uint64 \<Rightarrow> bytes" where
  "aad t dir n = [t, dir] @ PutUint64 n"

text \<open>The number is counted after the ciphertext was opened, before the padding is removed.\<close>

definition tunnel_read ::
  "byte \<Rightarrow> tunnelChannel \<Rightarrow> reader \<Rightarrow> (tunnel_error, bytes) result \<times> tunnelChannel \<times> reader" where
  "tunnel_read t c r =
     (case ReadFrame r of
        (Inl e, r') \<Rightarrow> (Inl (TunnelFrameErr e), c, r')
      | (Inr f, r') \<Rightarrow>
          if Type f \<noteq> t then (Inl (TunnelUnexpectedType (Type f)), c, r')
          else
            (let n = Uint64 (drop 4 (Nonce f))
             in if n \<noteq> received c then (Inl (TunnelUnexpectedSequence n (received c)), c, r')
                else
                  (case Open (tun_receive c) (Nonce f) (Ciphertext f) (aad t 1 n) of
                     Inl e \<Rightarrow> (Inl (TunnelCryptoErr e), c, r')
                   | Inr plain \<Rightarrow>
                       (let c' = c\<lparr>received := received c + 1\<rparr>
                        in case Unpad plain of
                             Inl e \<Rightarrow> (Inl (TunnelPaddingErr e), c', r')
                           | Inr env \<Rightarrow>
                               (case DecodePayload env of
                                  Inl e \<Rightarrow> (Inl (TunnelPayloadErr e), c', r')
                                | Inr payload \<Rightarrow> (Inr payload, c', r'))))))"

definition tunnel_write ::
  "byte \<Rightarrow> tunnelChannel \<Rightarrow> bytes \<Rightarrow> writer \<Rightarrow> rng \<Rightarrow> tunnel_error option \<times> tunnelChannel \<times> writer \<times> rng" where
  "tunnel_write t c payload w g =
     (case EncodePayload payload of
        Inl e \<Rightarrow> (Some (TunnelPayloadErr e), c, w, g)
      | Inr env \<Rightarrow>
          (case (if paddingEnabled c then Pad env (int (Overhead (tun_send c))) g else (Inr env, g)) of
             (Inl e, g') \<Rightarrow> (Some (TunnelPaddingErr e), c, w, g')
           | (Inr p, g') \<Rightarrow>
               let (nonce, nonces') = Next (tun_nonces c);
                   c' = c\<lparr>tun_nonces := nonces'\<rparr>;
                   n = Uint64 (drop 4 nonce)
               in (case Seal (tun_send c) nonce p (aad t 2 n) of
                     Inl e \<Rightarrow> (Some (TunnelCryptoErr e), c', w, g')
                   | Inr ct \<Rightarrow>
                       (let (err, w') = WriteFrame (Some \<lparr>Type = t, Nonce = nonce, Ciphertext = ct\<rparr>) w
                        in (map_option TunnelFrameErr err, c', w', g')))))"

section \<open>The destination\<close>

definition maxTargetAddressLen :: nat where "maxTargetAddressLen = 1024"

definition validateTunnelTarget :: "string \<Rightarrow> tunnel_error option" where
  "validateTunnelTarget target =
     (if target = '''' then Some TunnelTargetEmpty
      else if length target > maxTargetAddressLen then Some TunnelTargetTooLong
      else
        (case SplitHostPort target of
           Inl e \<Rightarrow> Some (TunnelTargetInvalid e)
         | Inr (host, p) \<Rightarrow>
             if TrimSpace_empty host then Some TunnelTargetHostEmpty
             else
               (case Atoi p of
                  None \<Rightarrow> Some TunnelTargetPort
                | Some port \<Rightarrow> if port < 1 \<or> port > 65535 then Some TunnelTargetPort else None)))"

definition readConnect ::
  "tunnelChannel \<Rightarrow> reader \<Rightarrow> (tunnel_error, string) result \<times> tunnelChannel \<times> reader" where
  "readConnect c r =
     (case tunnel_read TypeConnOpen c r of
        (Inl e, c', r') \<Rightarrow> (Inl e, c', r')
      | (Inr payload, c', r') \<Rightarrow>
          (let target = string_of_bytes payload
           in case validateTunnelTarget target of
                Some e \<Rightarrow> (Inl e, c', r')
              | None \<Rightarrow> (Inr target, c', r')))"

text \<open>
  \<^verbatim>\<open>strings.EqualFold\<close>: ASCII letters are folded byte by byte; from the first byte beyond ASCII
  on, the Unicode tables decide, which are the parameter \<open>unifold\<close>.
\<close>

fun EqualFold :: "(string \<Rightarrow> string \<Rightarrow> bool) \<Rightarrow> string \<Rightarrow> string \<Rightarrow> bool" where
  "EqualFold unifold (a # s) (b # t) =
     (let x = (of_char a :: nat); y = of_char b; lo = min x y; hi = max x y
      in if 128 \<le> x \<or> 128 \<le> y then unifold (a # s) (b # t)
         else if x = y \<or> 65 \<le> lo \<and> lo \<le> 90 \<and> hi = lo + 32 then EqualFold unifold s t
         else False)"
| "EqualFold unifold s t = (s = [] \<and> t = [])"

fun allow_loop :: "(string \<Rightarrow> string \<Rightarrow> bool) \<Rightarrow> string \<Rightarrow> IP list \<Rightarrow> string list \<Rightarrow> bool \<Rightarrow> bool" where
  "allow_loop unifold host ips [] permitted = permitted"
| "allow_loop unifold host ips (rule # rules) permitted =
     (if EqualFold unifold rule host then True
      else
        allow_loop unifold host ips rules
          (case ParseCIDR rule of
             None \<Rightarrow> permitted
           | Some network \<Rightarrow> permitted \<or> list_ex (IPNet_Contains network) ips))"

definition prohibited :: "IP \<Rightarrow> bool" where
  "prohibited ip \<longleftrightarrow> IsPrivate ip \<or> IsLoopback ip \<or> IsLinkLocalUnicast ip \<or> IsLinkLocalMulticast ip \<or>
     IsUnspecified ip \<or> IsMulticast ip"

text \<open>The addresses that were dialled are part of the result.\<close>

fun dial_loop ::
  "(string \<Rightarrow> (tunnel_error, 'c) result) \<Rightarrow> string \<Rightarrow> IP list \<Rightarrow> tunnel_error option \<Rightarrow>
   (tunnel_error, 'c) result \<times> string list" where
  "dial_loop dial port [] lasterr =
     (case lasterr of None \<Rightarrow> (Inl DestinationNoAddresses, []) | Some e \<Rightarrow> (Inl e, []))"
| "dial_loop dial port (ip # ips) lasterr =
     (let addr = JoinHostPort (IP_String ip) port
      in case dial addr of
           Inr c \<Rightarrow> (Inr c, [addr])
         | Inl e \<Rightarrow> (let (res, dialled) = dial_loop dial port ips (Some e) in (res, addr # dialled)))"

definition dialPublicDestination ::
  "(string \<Rightarrow> string \<Rightarrow> bool) \<Rightarrow> (string \<Rightarrow> (tunnel_error, IP list) result) \<Rightarrow> (string \<Rightarrow> (tunnel_error, 'c) result) \<Rightarrow>
   string \<Rightarrow> string list \<Rightarrow> (tunnel_error, 'c) result \<times> string list" where
  "dialPublicDestination unifold lookup dial target allow =
     (case SplitHostPort target of
        Inl e \<Rightarrow> (Inl (DestinationSplitErr e), [])
      | Inr (host, port) \<Rightarrow>
          (case lookup host of
             Inl e \<Rightarrow> (Inl e, [])
           | Inr ips \<Rightarrow>
               if allow \<noteq> [] \<and> \<not> allow_loop unifold host ips allow False then (Inl DestinationNotAllowed, [])
               else if list_ex prohibited ips then (Inl DestinationProhibited, [])
               else dial_loop dial port ips None))"

section \<open>Forwarding\<close>

text \<open>One byte string written with as many \<^verbatim>\<open>Write\<close> calls as it takes.\<close>

function writeAll :: "bytes \<Rightarrow> writer \<Rightarrow> tunnel_error option \<times> writer" where
  "writeAll data w =
     (if data = [] then (None, w)
      else
        (case io_Write data w of
           ((n, Some e), w') \<Rightarrow> (Some (TunnelIOErr e), w')
         | ((n, None), w') \<Rightarrow>
             if n = 0 then (Some (TunnelIOErr ErrUnexpectedEOF), w') else writeAll (drop n data) w'))"
  by pat_completeness auto
termination
  by (relation "measure (\<lambda>(data, w). length data)") (auto dest!: io_Write_written [OF sym])

declare writeAll.simps [simp del]

text \<open>One iteration of \<^verbatim>\<open>forwardTunnelToDestination\<close>; an error ends the loop.\<close>

definition up_iteration ::
  "tunnelChannel \<Rightarrow> reader \<Rightarrow> writer \<Rightarrow> tunnel_error option \<times> tunnelChannel \<times> reader \<times> writer" where
  "up_iteration c tunnel destination =
     (case tunnel_read TypeDataPayload c tunnel of
        (Inl e, c', r') \<Rightarrow> (Some e, c', r', destination)
      | (Inr payload, c', r') \<Rightarrow> (let (err, w') = writeAll payload destination in (err, c', r', w')))"

text \<open>
  A read of the destination is cut into frames of at most \<open>maxlen\<close> bytes.  \<open>ChunkSizePanic\<close> stands
  for what the source does with a chunk size that is not positive (a slice panic, or no progress);
  with the AEAD's 16 bytes of overhead the size is 1442.
\<close>

function write_chunks ::
  "int \<Rightarrow> bytes \<Rightarrow> tunnelChannel \<Rightarrow> writer \<Rightarrow> rng \<Rightarrow> tunnel_error option \<times> tunnelChannel \<times> writer \<times> rng" where
  "write_chunks maxlen data c w g =
     (if data = [] then (None, c, w, g)
      else
        (let size = (if int (length data) > maxlen then maxlen else int (length data))
         in if size \<le> 0 then (Some ChunkSizePanic, c, w, g)
            else
              (case tunnel_write TypeDataPayload c (take (nat size) data) w g of
                 (Some e, c', w', g') \<Rightarrow> (Some e, c', w', g')
               | (None, c', w', g') \<Rightarrow> write_chunks maxlen (drop (nat size) data) c' w' g')))"
  by pat_completeness auto
termination
  by (relation "measure (\<lambda>(m, data, c, w, g). length data)") auto

declare write_chunks.simps [simp del]

definition max_chunk :: "tunnelChannel \<Rightarrow> int" where
  "max_chunk c = last BlockSizes - int (Overhead (tun_send c)) - 2"

text \<open>One iteration of \<^verbatim>\<open>forwardDestinationToTunnel\<close>: \<open>Some\<close> result ends the loop.\<close>

definition down_iteration ::
  "int \<Rightarrow> tunnelChannel \<Rightarrow> reader \<Rightarrow> writer \<Rightarrow> rng \<Rightarrow>
   tunnel_error option option \<times> tunnelChannel \<times> reader \<times> writer \<times> rng" where
  "down_iteration maxlen c destination tunnel g =
     (let ((data, err), r') = io_Read (32 * 1024) destination;
          (werr, c', w', g') = write_chunks maxlen data c tunnel g
      in case werr of
           Some e \<Rightarrow> (Some (Some e), c', r', w', g')
         | None \<Rightarrow>
             (case err of
                None \<Rightarrow> (None, c', r', w', g')
              | Some e \<Rightarrow> (Some (if e = EOF then None else Some (TunnelIOErr e)), c', r', w', g')))"

text \<open>The loops, run to their end.  Each iteration takes something off its connection.\<close>

lemma tunnel_read_rank: "tunnel_read t c r = (Inr p, c', r') \<Longrightarrow> reader_rank r' < reader_rank r"
  by (auto simp: tunnel_read_def Let_def split: prod.splits sum.splits if_splits dest: ReadFrame_rank)

lemma up_iteration_rank: "up_iteration c r w = (None, c', r', w') \<Longrightarrow> reader_rank r' < reader_rank r"
  by (auto simp: up_iteration_def Let_def split: prod.splits sum.splits dest: tunnel_read_rank)

lemma down_iteration_rank:
  "down_iteration m c r w g = (None, c', r', w', g') \<Longrightarrow> reader_rank r' < reader_rank r"
  by (auto simp: down_iteration_def Let_def split: prod.splits option.splits dest: rdr.rd_rank)

function forwardTunnelToDestination ::
  "tunnelChannel \<Rightarrow> reader \<Rightarrow> writer \<Rightarrow> tunnel_error \<times> tunnelChannel \<times> reader \<times> writer" where
  "forwardTunnelToDestination c tunnel destination =
     (case up_iteration c tunnel destination of
        (Some e, c', r', w') \<Rightarrow> (e, c', r', w')
      | (None, c', r', w') \<Rightarrow> forwardTunnelToDestination c' r' w')"
  by pat_completeness auto
termination
  by (relation "measure (\<lambda>(c, r, w). reader_rank r)") (auto dest: up_iteration_rank [OF sym])

function down_loop ::
  "int \<Rightarrow> tunnelChannel \<Rightarrow> reader \<Rightarrow> writer \<Rightarrow> rng \<Rightarrow>
   tunnel_error option \<times> tunnelChannel \<times> reader \<times> writer \<times> rng" where
  "down_loop maxlen c destination tunnel g =
     (case down_iteration maxlen c destination tunnel g of
        (Some res, c', r', w', g') \<Rightarrow> (res, c', r', w', g')
      | (None, c', r', w', g') \<Rightarrow> down_loop maxlen c' r' w' g')"
  by pat_completeness auto
termination
  by (relation "measure (\<lambda>(m, c, r, w, g). reader_rank r)") (auto dest: down_iteration_rank [OF sym])

definition forwardDestinationToTunnel ::
  "tunnelChannel \<Rightarrow> reader \<Rightarrow> writer \<Rightarrow> rng \<Rightarrow>
   tunnel_error option \<times> tunnelChannel \<times> reader \<times> writer \<times> rng" where
  "forwardDestinationToTunnel c destination tunnel g = down_loop (max_chunk c) c destination tunnel g"

declare forwardTunnelToDestination.simps [simp del] down_loop.simps [simp del]

section \<open>The channel keeps the contract of both ends\<close>

definition tunnel_ok :: "tunnelChannel \<Rightarrow> bool" where
  "tunnel_ok c \<longleftrightarrow> cipher_ok (cipher (tun_send c)) \<and> cipher_ok (cipher (tun_receive c)) \<and> wf_nonces (tun_nonces c)"

lemma tunnel_write_ok:
  assumes "tunnel_ok c" "IsValidType t" "wplan w = []" "rng_fail g = None" "length p \<le> payload_limit (paddingEnabled c)"
  shows "\<exists>g' fill. tunnel_write t c p w g =
      (None, c\<lparr>tun_nonces := (tun_nonces c)\<lparr>counter := counter (tun_nonces c) + 1\<rparr>\<rparr>,
       w\<lparr>sent := sent w @ [frame_packet (sealed_frame (tun_send c) 2 t (salt (tun_nonces c)) (counter (tun_nonces c)) (envelope p @ fill))]\<rparr>, g') \<and>
    fits (p, fill) \<and> rng_fail g' = None"
proof -
  let ?nc = "tun_nonces c"
  have ok: "cipher_ok (cipher (tun_send c))" and s4: "length (salt ?nc) = 4"
    using assms(1) by (simp_all add: tunnel_ok_def wf_nonces_def)
  have enc: "EncodePayload p = Inr (envelope p)"
    using assms(5) by (intro EncodePayload_envelope) (simp add: payload_limit_def MaxPayloadLen_def split: if_splits)
  from pad_step [OF ok assms(4,5)] obtain fill g' where
    pad: "(if paddingEnabled c then Pad (envelope p) (int (Overhead (tun_send c))) g else (Inr (envelope p), g)) =
      (Inr (envelope p @ fill), g')" and g': "rng_fail g' = None" and fit: "fits (p, fill)" by blast
  let ?f = "sealed_frame (tun_send c) 2 t (salt ?nc) (counter ?nc) (envelope p @ fill)"
  have "sendable ?f"
    using fit sealed_frame_sendable [OF ok s4 assms(2)] by (simp add: fits_def)
  then have wr: "WriteFrame (Some ?f) w = (None, w\<lparr>sent := sent w @ [frame_packet ?f]\<rparr>)"
    using assms(3) by (rule WriteFrame_ok)
  have seal: "Seal (tun_send c) (salt ?nc @ PutUint64 (counter ?nc)) (envelope p @ fill)
      (aad t 2 (Uint64 (drop 4 (salt ?nc @ PutUint64 (counter ?nc))))) = Inr (Ciphertext ?f)"
    using s4 by (simp add: Seal_Inr sealed_frame_def aad_def NonceSize_def)
  have "tunnel_write t c p w g =
      (None, c\<lparr>tun_nonces := ?nc\<lparr>counter := counter ?nc + 1\<rparr>\<rparr>, w\<lparr>sent := sent w @ [frame_packet ?f]\<rparr>, g')"
    unfolding tunnel_write_def enc sum.case pad prod.case Next_eq Let_def seal
    using wr by (simp add: sealed_frame_def)
  with fit g' show ?thesis by blast
qed

lemma tunnel_write_any:
  assumes "tunnel_write t c p w g = (err, c', w', g')"
  shows "c' = c \<and> w' = w \<or> c' = c\<lparr>tun_nonces := (tun_nonces c)\<lparr>counter := counter (tun_nonces c) + 1\<rparr>\<rparr> \<and>
    (sent w' = sent w \<or>
     (\<exists>f k. sent w' = sent w @ [take k (frame_packet f)] \<and> Nonce f = salt (tun_nonces c) @ PutUint64 (counter (tun_nonces c))))"
proof -
  have wr: "sent v = sent w \<or> (\<exists>k. sent v = sent w @ [take k (frame_packet f)])"
    if "WriteFrame (Some f) w = (e, v)" for f e v
    using WriteFrame_any [OF that] .
  show ?thesis
    using assms
    by (auto simp: tunnel_write_def Next_eq Let_def split: sum.splits prod.splits option.splits dest!: wr)
qed

interpretation tcs: frame_sender tunnel_write tunnel_ok tun_send "\<lambda>c. 2" "\<lambda>c. salt (tun_nonces c)"
  "\<lambda>c. counter (tun_nonces c)" "\<lambda>c. payload_limit (paddingEnabled c)"
proof
  fix c
  assume "tunnel_ok c"
  then show "cipher_ok (cipher (tun_send c)) \<and> length (salt (tun_nonces c)) = 4"
    by (simp add: tunnel_ok_def wf_nonces_def)
next
  fix c t and w :: writer and g :: rng and p :: bytes
  assume h: "tunnel_ok c" "IsValidType t" "wplan w = []" "rng_fail g = None" "length p \<le> payload_limit (paddingEnabled c)"
  from tunnel_write_ok [OF h] h(1)
  show "\<exists>c' g' fill. tunnel_write t c p w g = (None, c', w\<lparr>sent := sent w @ [frame_packet
          (sealed_frame (tun_send c) 2 t (salt (tun_nonces c)) (counter (tun_nonces c)) (envelope p @ fill))]\<rparr>, g') \<and>
        fits (p, fill) \<and> rng_fail g' = None \<and> tunnel_ok c' \<and> tun_send c' = tun_send c \<and> (2 :: byte) = 2 \<and>
        salt (tun_nonces c') = salt (tun_nonces c) \<and> counter (tun_nonces c') = counter (tun_nonces c) + 1 \<and>
        payload_limit (paddingEnabled c') = payload_limit (paddingEnabled c)"
    by - (elim exE conjE, intro exI conjI, assumption, simp_all add: tunnel_ok_def wf_nonces_def)
next
  fix c t err c' g' and p :: bytes and w w' :: writer and g :: rng
  assume "tunnel_ok c" "tunnel_write t c p w g = (err, c', w', g')"
  with tunnel_write_any [of t c p w g err c' w' g']
  show "tunnel_ok c' \<and> salt (tun_nonces c') = salt (tun_nonces c) \<and>
      (sent w' = sent w \<and> (counter (tun_nonces c') = counter (tun_nonces c) \<or> counter (tun_nonces c') = counter (tun_nonces c) + 1) \<or>
       (\<exists>f k. sent w' = sent w @ [take k (frame_packet f)] \<and> Nonce f = salt (tun_nonces c) @ PutUint64 (counter (tun_nonces c)) \<and>
          counter (tun_nonces c') = counter (tun_nonces c) + 1))"
    by (auto simp: tunnel_ok_def wf_nonces_def)
qed

lemma tunnel_read_accepts:
  assumes "tunnel_ok c" "reader_ok r" "IsValidType t" "length s = 4" "fits (p, fill)"
    and "reader_stream r = frame_packet (sealed_frame (tun_receive c) 1 t s (received c) (envelope p @ fill)) @ rest"
  shows "\<exists>r'. tunnel_read t c r = (Inr p, c\<lparr>received := received c + 1\<rparr>, r') \<and> reader_stream r' = rest"
proof -
  let ?f = "sealed_frame (tun_receive c) 1 t s (received c) (envelope p @ fill)"
  have ok: "cipher_ok (cipher (tun_receive c))" using assms(1) by (simp add: tunnel_ok_def)
  have p: "length p \<le> MaxPayloadLen" using assms(5) by (rule fits_payload)
  have "sendable ?f"
    using assms(5) sealed_frame_sendable [OF ok assms(4,3)] by (simp add: fits_def)
  then have "parse_frame (reader_stream r) = Some (?f, rest)"
    using assms(6) by (simp add: parse_frame_packet)
  from ReadFrame_parses [OF assms(2) this] obtain r' where
    r': "ReadFrame r = (Inr ?f, r')" "reader_stream r' = rest" by blast
  have "Open (tun_receive c) (Nonce ?f) (Ciphertext ?f) ([t, 1] @ PutUint64 (received c)) = Inr (envelope p @ fill)"
    using ok assms(4) by (simp add: Open_Seal_iff Seal_Inr sealed_frame_def NonceSize_def)
  then show ?thesis
    using r' assms(4)
    by (simp add: tunnel_read_def aad_def sealed_frame_def Unpad_envelope DecodePayload_envelope p)
qed

lemma tunnel_read_only:
  assumes "tunnel_ok c" "reader_ok r" "tunnel_read t c r = (Inr p, c', r')"
  shows "c' = c\<lparr>received := received c + 1\<rparr> \<and> reader_ok r' \<and> reader_fin r' = reader_fin r \<and>
    (\<exists>s fill. length s = 4 \<and> fits (p, fill) \<and> IsValidType t \<and>
      reader_stream r = frame_packet (sealed_frame (tun_receive c) 1 t s (received c) (envelope p @ fill)) @ reader_stream r')"
proof -
  have ok: "cipher_ok (cipher (tun_receive c))" using assms(1) by (simp add: tunnel_ok_def)
  from assms(3) obtain f plain env where
    rf: "ReadFrame r = (Inr f, r')" and t: "Type f = t" and n: "Uint64 (drop 4 (Nonce f)) = received c" and
    op: "Open (tun_receive c) (Nonce f) (Ciphertext f) (aad t 1 (received c)) = Inr plain" and
    un: "Unpad plain = Inr env" "DecodePayload env = Inr p" and c': "c' = c\<lparr>received := received c + 1\<rparr>"
    by (auto simp: tunnel_read_def Let_def split: prod.splits sum.splits if_splits)
  note inr = ReadFrame_Inr [OF assms(2) rf]
  from inr have "length (Nonce f) = NonceSize" by (simp add: sendable_def wf_frame_def)
  from nonce_split [OF this] n obtain s where s: "length s = 4" "Nonce f = s @ PutUint64 (received c)" by auto
  from un obtain fill where plain: "plain = envelope p @ fill"
    by (auto simp: Unpad_DecodePayload DecodePayload_Inr envelope_def)
  have ct: "Ciphertext f = cSeal (cipher (tun_receive c)) (s @ PutUint64 (received c)) (envelope p @ fill) ([t, 1] @ PutUint64 (received c))"
    using op ok s plain by (simp add: Open_Seal_iff Seal_Inr aad_def)
  have f: "f = sealed_frame (tun_receive c) 1 t s (received c) (envelope p @ fill)"
    using t s(2) ct by (cases f) (simp add: sealed_frame_def)
  have "length (Ciphertext f) = length (envelope p @ fill) + 16"
    using ct ok s(1) by (simp add: cipher_ok_def NonceSize_def)
  then have "fits (p, fill)"
    using inr by (simp add: sendable_def fits_def)
  with inr f s(1) c' t show ?thesis by (auto simp: sendable_def)
qed

interpretation tcr: frame_receiver tunnel_read tunnel_ok tun_receive "\<lambda>c. 1" received
proof
  fix c
  assume "tunnel_ok c"
  then show "cipher_ok (cipher (tun_receive c))" by (simp add: tunnel_ok_def)
next
  fix c r t s rest and p fill :: bytes
  assume h: "tunnel_ok c" "reader_ok r" "IsValidType t" "length s = 4" "fits (p, fill)"
    "reader_stream r = frame_packet (sealed_frame (tun_receive c) 1 t s (received c) (envelope p @ fill)) @ rest"
  from tunnel_read_accepts [OF h] show "\<exists>c' r'. tunnel_read t c r = (Inr p, c', r') \<and> reader_stream r' = rest" by blast
next
  fix c r t p c' r'
  assume h: "tunnel_ok c" "reader_ok r" "tunnel_read t c r = (Inr p, c', r')"
  from tunnel_read_only [OF h] h(1)
  show "tunnel_ok c' \<and> tun_receive c' = tun_receive c \<and> (1 :: byte) = 1 \<and> received c' = received c + 1 \<and>
      reader_ok r' \<and> reader_fin r' = reader_fin r \<and>
      (\<exists>s fill. length s = 4 \<and> fits (p, fill) \<and> IsValidType t \<and>
        reader_stream r = frame_packet (sealed_frame (tun_receive c) 1 t s (received c) (envelope p @ fill)) @ reader_stream r')"
    by (auto simp: tunnel_ok_def)
qed

section \<open>What the loops deliver\<close>

interpretation wra: write_loop writeAll TunnelIOErr "TunnelIOErr ErrUnexpectedEOF"
  by unfold_locales (rule writeAll.simps)

lemma up_iteration_ok:
  assumes "tunnel_ok c" "reader_ok r" "wplan w = []" "length s = 4" "fits (p, fill)"
    and "reader_stream r = frame_packet (sealed_frame (tun_receive c) 1 TypeDataPayload s (received c) (envelope p @ fill)) @ rest"
  obtains r' w' where "up_iteration c r w = (None, c\<lparr>received := received c + 1\<rparr>, r', w')" "reader_stream r' = rest"
    "reader_ok r'" "reader_fin r' = reader_fin r" "wplan w' = []" "written w' = written w @ p"
proof -
  have t: "IsValidType TypeDataPayload" by (simp add: IsValidType_def)
  from tunnel_read_accepts [OF assms(1,2) t assms(4-6)] obtain r' where
    rd: "tunnel_read TypeDataPayload c r = (Inr p, c\<lparr>received := received c + 1\<rparr>, r')" "reader_stream r' = rest" by blast
  from tunnel_read_only [OF assms(1,2) rd(1)] have r': "reader_ok r'" "reader_fin r' = reader_fin r" by auto
  let ?w = "w\<lparr>sent := sent w @ (if p = [] then [] else [p])\<rparr>"
  have "up_iteration c r w = (None, c\<lparr>received := received c + 1\<rparr>, r', ?w)"
    using rd(1) wra.wr_ok [OF assms(3), of p] by (simp add: up_iteration_def)
  with rd(2) r' assms(3) show ?thesis by (intro that [of r' ?w]) auto
qed

lemma up_iteration_end:
  assumes "reader_ok r" "reader_stream r = []"
  shows "\<exists>r'. up_iteration c r w = (Some (TunnelFrameErr (ReadHeaderErr (reader_fin r))), c, r', w)"
  using ReadFrame_end [OF assms] by (auto simp: up_iteration_def tunnel_read_def)

lemma forwardTunnelToDestination_ok:
  assumes "tunnel_ok c" "reader_ok r" "wplan w = []" "length s = 4" "\<forall>x \<in> set xs. fits x"
    and "reader_stream r = concat (map frame_packet (sealed_seq (tun_receive c) 1 TypeDataPayload s (received c) xs))"
  shows "\<exists>c' r' w'. forwardTunnelToDestination c r w = (TunnelFrameErr (ReadHeaderErr (reader_fin r)), c', r', w') \<and>
    written w' = written w @ concat (map fst xs)"
  using assms
proof (induction xs arbitrary: c r w)
  case Nil
  then have "reader_stream r = []" by simp
  with up_iteration_end [OF Nil.prems(2), of c w] show ?case
    by (auto simp: forwardTunnelToDestination.simps [of c r w])
next
  case (Cons x xs)
  obtain p fill where x: "x = (p, fill)" by (cases x)
  have fit: "fits (p, fill)" using Cons.prems(5) x by simp
  have str: "reader_stream r = frame_packet (sealed_frame (tun_receive c) 1 TypeDataPayload s (received c) (envelope p @ fill)) @
      concat (map frame_packet (sealed_seq (tun_receive c) 1 TypeDataPayload s (received c + 1) xs))"
    using Cons.prems(6) x by simp
  obtain r1 w1 where one: "up_iteration c r w = (None, c\<lparr>received := received c + 1\<rparr>, r1, w1)"
    "reader_stream r1 = concat (map frame_packet (sealed_seq (tun_receive c) 1 TypeDataPayload s (received c + 1) xs))"
    "reader_ok r1" "reader_fin r1 = reader_fin r" "wplan w1 = []" "written w1 = written w @ p"
    by (rule up_iteration_ok [OF Cons.prems(1-4) fit str])
  have "tunnel_ok (c\<lparr>received := received c + 1\<rparr>)" using Cons.prems(1) by (simp add: tunnel_ok_def)
  from Cons.IH [OF this one(3,5) Cons.prems(4)] one Cons.prems(5) x show ?case
    by (auto simp: forwardTunnelToDestination.simps [of c r w])
qed

text \<open>Against any input: only the payloads of authentic, consecutive frames reach the destination.\<close>

lemma up_iteration_authentic:
  assumes "tunnel_ok c" "reader_ok r" "up_iteration c r w = (err, c1, r1, w1)"
  obtains (nothing) "err \<noteq> None" "written w1 = written w"
  | (frame) p s fill k where "length s = 4" "fits (p, fill)" "reader_ok r1" "c1 = c\<lparr>received := received c + 1\<rparr>"
    "reader_stream r = frame_packet (sealed_frame (tun_receive c) 1 TypeDataPayload s (received c) (envelope p @ fill)) @ reader_stream r1"
    "written w1 = written w @ take k p" "err = None \<longrightarrow> k = length p"
proof (cases "tunnel_read TypeDataPayload c r")
  case (fields res c2 r2)
  show ?thesis
  proof (cases res)
    case (Inl x)
    with fields assms(3) have "err \<noteq> None" "written w1 = written w" by (auto simp: up_iteration_def)
    then show ?thesis by (rule nothing)
  next
    case (Inr p)
    note only = tunnel_read_only [OF assms(1,2) fields [unfolded Inr]]
    obtain err' w' where wr: "writeAll p w = (err', w')" by (metis surj_pair)
    have eqs: "err' = err" "w' = w1" "c2 = c1" "r2 = r1" using assms(3) fields Inr wr by (simp_all add: up_iteration_def)
    from wra.wr_written [OF wr] obtain k where k: "written w1 = written w @ take k p" "err = None \<longrightarrow> k = length p"
      unfolding eqs by blast
    from only obtain s fill where s: "length s = 4" "fits (p, fill)" "reader_ok r1" "c1 = c\<lparr>received := received c + 1\<rparr>"
      "reader_stream r = frame_packet (sealed_frame (tun_receive c) 1 TypeDataPayload s (received c) (envelope p @ fill)) @ reader_stream r1"
      unfolding eqs by blast
    from s k show ?thesis by (rule frame)
  qed
qed

lemma forwardTunnelToDestination_authentic:
  assumes "tunnel_ok c" "reader_ok r" "forwardTunnelToDestination c r w = (e, c', r', w')"
  shows "\<exists>fs ps rest n. authentic (tun_receive c) 1 TypeDataPayload (received c) ps fs \<and>
    reader_stream r = concat (map frame_packet fs) @ rest \<and> written w' = written w @ take n (concat ps)"
  using assms
proof (induction c r w rule: forwardTunnelToDestination.induct)
  case (1 c r w)
  obtain err c1 r1 w1 where up: "up_iteration c r w = (err, c1, r1, w1)" by (metis surj_pair)
  note eq = 1(4) [unfolded forwardTunnelToDestination.simps [of c r w] up]
  from 1(2,3) up show ?case
  proof (cases rule: up_iteration_authentic)
    case nothing
    with eq have "written w' = written w" by auto
    then show ?thesis by (intro exI [of _ "[] :: frame list"] exI [of _ "[] :: bytes list"]) simp
  next
    case (frame p s fill k)
    let ?f = "sealed_frame (tun_receive c) 1 TypeDataPayload s (received c) (envelope p @ fill)"
    show ?thesis
    proof (cases err)
      case None
      have "tunnel_ok c1" "reader_ok r1" using frame 1(2) by (simp_all add: tunnel_ok_def)
      from 1(1) [OF up [symmetric] None refl refl this] eq None frame(4) obtain fs ps rest n where
        IH: "authentic (tun_receive c) 1 TypeDataPayload (received c + 1) ps fs"
        "reader_stream r1 = concat (map frame_packet fs) @ rest" "written w' = written w1 @ take n (concat ps)"
        by auto
      have "authentic (tun_receive c) 1 TypeDataPayload (received c) (p # ps) (?f # fs)"
        using frame(1,2) IH(1) by (intro authentic_Cons) simp_all
      with IH frame None show ?thesis
        by (intro exI [of _ "?f # fs"] exI [of _ "p # ps"] exI [of _ rest] exI [of _ "length p + n"]) simp
    next
      case (Some x)
      have "authentic (tun_receive c) 1 TypeDataPayload (received c) [p] [?f]"
        using frame(1,2) by (intro authentic_Cons) simp_all
      with frame eq Some show ?thesis
        by (intro exI [of _ "[?f]"] exI [of _ "[p]"] exI [of _ "reader_stream r1"] exI [of _ k]) simp
    qed
  qed
qed

text \<open>The chunks of one read, and the whole download.\<close>

lemma payload_limit_chunk: "1442 \<le> payload_limit b"
  by (simp add: payload_limit_def)

lemma max_chunk_ok: "tunnel_ok c \<Longrightarrow> max_chunk c = 1442"
  by (simp add: max_chunk_def tunnel_ok_def BlockSizes_def)

abbreviation down_frames :: "tunnelChannel \<Rightarrow> (bytes \<times> bytes) list \<Rightarrow> frame list" where
  "down_frames c xs \<equiv> sealed_seq (tun_send c) 2 TypeDataPayload (salt (tun_nonces c)) (counter (tun_nonces c)) xs"

text \<open>The state after \<open>xs\<close> was sent down the tunnel, and that \<open>xs\<close> carries \<open>data\<close> in frames.\<close>

definition sent_down ::
  "tunnelChannel \<Rightarrow> writer \<Rightarrow> (bytes \<times> bytes) list \<Rightarrow> bytes \<Rightarrow> tunnelChannel \<Rightarrow> writer \<Rightarrow> rng \<Rightarrow> bool" where
  "sent_down c w xs data c' w' g' \<longleftrightarrow>
     (\<forall>x \<in> set xs. fits x \<and> fst x \<noteq> [] \<and> length (fst x) \<le> 1442) \<and> concat (map fst xs) = data \<and>
     w' = w\<lparr>sent := sent w @ map frame_packet (down_frames c xs)\<rparr> \<and> tunnel_ok c' \<and> rng_fail g' = None \<and>
     c' = c\<lparr>tun_nonces := (tun_nonces c)\<lparr>counter := counter (tun_nonces c) + of_nat (length xs)\<rparr>\<rparr>"

lemma sent_down_Nil: "tunnel_ok c \<Longrightarrow> rng_fail g = None \<Longrightarrow> sent_down c w [] [] c w g"
  by (simp add: sent_down_def)

lemma sent_down_trans:
  "sent_down c w xs d1 c1 w1 g1 \<Longrightarrow> sent_down c1 w1 ys d2 c2 w2 g2 \<Longrightarrow> sent_down c w (xs @ ys) (d1 @ d2) c2 w2 g2"
  by (auto simp: sent_down_def sealed_seq_append add.assoc)

lemma tunnel_write_down:
  assumes "tunnel_ok c" "wplan w = []" "rng_fail g = None" "p \<noteq> []" "length p \<le> 1442"
  obtains fill c' w' g' where "tunnel_write TypeDataPayload c p w g = (None, c', w', g')" "sent_down c w [(p, fill)] p c' w' g'"
proof -
  have "IsValidType TypeDataPayload" "length p \<le> payload_limit (paddingEnabled c)"
    using assms(5) payload_limit_chunk [of "paddingEnabled c"] by (simp_all add: IsValidType_def)
  from tunnel_write_ok [OF assms(1) this(1) assms(2,3) this(2)] obtain g' fill where
    "tunnel_write TypeDataPayload c p w g =
      (None, c\<lparr>tun_nonces := (tun_nonces c)\<lparr>counter := counter (tun_nonces c) + 1\<rparr>\<rparr>,
       w\<lparr>sent := sent w @ [frame_packet (sealed_frame (tun_send c) 2 TypeDataPayload (salt (tun_nonces c)) (counter (tun_nonces c)) (envelope p @ fill))]\<rparr>, g')"
    "fits (p, fill)" "rng_fail g' = None" by blast
  with assms show ?thesis
    by (intro that) (assumption, simp add: sent_down_def tunnel_ok_def wf_nonces_def)
qed

lemma write_chunks_ok:
  assumes "tunnel_ok c" "wplan w = []" "rng_fail g = None"
  shows "\<exists>xs c' w' g'. write_chunks 1442 data c w g = (None, c', w', g') \<and> sent_down c w xs data c' w' g'"
  using assms
proof (induction data arbitrary: c w g rule: length_induct)
  case (1 data)
  show ?case
  proof (cases "data = []")
    case True
    with sent_down_Nil [OF 1(2,4), of w] show ?thesis by (auto simp: write_chunks.simps)
  next
    case False
    define size where "size = min (length data) 1442"
    have size: "0 < size" "length (take size data) \<le> 1442" "take size data \<noteq> []" using False by (simp_all add: size_def)
    obtain fill c1 w1 g1 where
      wr: "tunnel_write TypeDataPayload c (take size data) w g = (None, c1, w1, g1)" and
      s1: "sent_down c w [(take size data, fill)] (take size data) c1 w1 g1"
      by (rule tunnel_write_down [OF 1(2-4) size(3,2)])
    have "length (drop size data) < length data" using size(1) False by simp
    moreover have "tunnel_ok c1" "wplan w1 = []" "rng_fail g1 = None" using s1 1(3) by (auto simp: sent_down_def)
    ultimately obtain xs c2 w2 g2 where
      rest: "write_chunks 1442 (drop size data) c1 w1 g1 = (None, c2, w2, g2)" "sent_down c1 w1 xs (drop size data) c2 w2 g2"
      using 1(1) by blast
    have "nat (if int (length data) > 1442 then 1442 else int (length data)) = size" by (simp add: size_def)
    then have "write_chunks 1442 data c w g = (None, c2, w2, g2)"
      using False wr rest(1) size(1) by (subst write_chunks.simps) (auto simp: Let_def)
    with sent_down_trans [OF s1 rest(2)] show ?thesis
      unfolding append_take_drop_id by blast
  qed
qed

lemma down_iteration_ok:
  assumes "tunnel_ok c" "wplan w = []" "rng_fail g = None" "io_Read (32 * 1024) r = ((data, err), r')"
  shows "\<exists>xs c' w' g'. down_iteration 1442 c r w g =
      (map_option (\<lambda>e. if e = EOF then None else Some (TunnelIOErr e)) err, c', r', w', g') \<and>
    sent_down c w xs data c' w' g'"
proof -
  from write_chunks_ok [OF assms(1-3), of data] obtain xs c' w' g' where
    "write_chunks 1442 data c w g = (None, c', w', g')" "sent_down c w xs data c' w' g'" by blast
  with assms(4) show ?thesis by (auto simp: down_iteration_def split: option.splits)
qed

lemma down_loop_ok:
  assumes "tunnel_ok c" "wplan w = []" "rng_fail g = None" "reader_ok r"
  shows "\<exists>xs c' r' w' g'. down_loop 1442 c r w g =
      (if reader_fin r = EOF then None else Some (TunnelIOErr (reader_fin r)), c', r', w', g') \<and>
    sent_down c w xs (reader_stream r) c' w' g'"
  using assms
proof (induction "reader_rank r" arbitrary: c r w g rule: less_induct)
  case less
  obtain data err r1 where rd: "io_Read (32 * 1024) r = ((data, err), r1)" by (metis surj_pair)
  from down_iteration_ok [OF less.prems(1-3) rd] obtain xs c1 w1 g1 where
    it: "down_iteration 1442 c r w g = (map_option (\<lambda>e. if e = EOF then None else Some (TunnelIOErr e)) err, c1, r1, w1, g1)"
    and s1: "sent_down c w xs data c1 w1 g1" by blast
  note str = rdr.rd_stream [OF less.prems(4) rd] and fin = rdr.rd_fin [OF less.prems(4) rd]
  show ?case
  proof (cases err)
    case None
    have "reader_rank r1 < reader_rank r" using rd None by (intro rdr.rd_rank) auto
    moreover have "tunnel_ok c1" "wplan w1 = []" "rng_fail g1 = None" using s1 less.prems(2) by (auto simp: sent_down_def)
    ultimately obtain ys c2 r2 w2 g2 where
      rest: "down_loop 1442 c1 r1 w1 g1 = (if reader_fin r1 = EOF then None else Some (TunnelIOErr (reader_fin r1)), c2, r2, w2, g2)"
      "sent_down c1 w1 ys (reader_stream r1) c2 w2 g2"
      using less.hyps rdr.rd_ok [OF less.prems(4) rd] by blast
    have "down_loop 1442 c r w g = (if reader_fin r = EOF then None else Some (TunnelIOErr (reader_fin r)), c2, r2, w2, g2)"
      using it None rest(1) fin by (subst down_loop.simps) simp
    with sent_down_trans [OF s1 rest(2)] str show ?thesis by metis
  next
    case (Some e)
    with rdr.rd_error [OF less.prems(4)] rd have e: "reader_stream r1 = []" "e = reader_fin r" by auto
    then have "down_loop 1442 c r w g = (if reader_fin r = EOF then None else Some (TunnelIOErr (reader_fin r)), c1, r1, w1, g1)"
      using it Some by (subst down_loop.simps) simp
    with s1 str e show ?thesis by auto
  qed
qed

section \<open>Where the gateway connects to\<close>

lemma allow_loop_iff:
  "allow_loop unifold host ips rules permitted \<longleftrightarrow> permitted \<or>
     (\<exists>rule \<in> set rules. EqualFold unifold rule host \<or>
        (\<exists>n. ParseCIDR rule = Some n \<and> (\<exists>ip \<in> set ips. IPNet_Contains n ip)))"
  by (induction rules arbitrary: permitted) (auto simp: list_ex_iff split: option.splits)

lemma dial_loop_dialled:
  "dial_loop dial port ips lasterr = (res, dialled) \<Longrightarrow>
     (\<exists>k. dialled = map (\<lambda>ip. JoinHostPort (IP_String ip) port) (take k ips)) \<and>
     (\<forall>c. res = Inr c \<longrightarrow> dialled \<noteq> [] \<and> dial (last dialled) = Inr c \<and> (\<forall>a \<in> set (butlast dialled). \<exists>e. dial a = Inl e)) \<and>
     (\<forall>e. res = Inl e \<longrightarrow> (\<forall>ip \<in> set ips. \<exists>x. dial (JoinHostPort (IP_String ip) port) = Inl x))"
proof (induction ips arbitrary: lasterr res dialled)
  case Nil
  then show ?case by (auto split: option.splits)
next
  case (Cons ip ips)
  let ?a = "JoinHostPort (IP_String ip) port"
  show ?case
  proof (cases "dial ?a")
    case (Inr c)
    with Cons.prems show ?thesis by (auto intro!: exI [of _ 1])
  next
    case (Inl e)
    obtain res1 d1 where rest: "dial_loop dial port ips (Some e) = (res1, d1)" by (metis surj_pair)
    note IH = Cons.IH [OF rest]
    from IH obtain k where k: "d1 = map (\<lambda>ip. JoinHostPort (IP_String ip) port) (take k ips)" by blast
    have d: "res = res1" "dialled = ?a # d1" using Cons.prems Inl rest by auto
    have "dialled = map (\<lambda>ip. JoinHostPort (IP_String ip) port) (take (Suc k) (ip # ips))" using d k by simp
    then have "\<exists>j. dialled = map (\<lambda>ip. JoinHostPort (IP_String ip) port) (take j (ip # ips))" by blast
    with IH Inl d show ?thesis by simp
  qed
qed

lemma dialPublicDestination_dials:
  assumes "dialPublicDestination unifold lookup dial target allow = (res, dialled)" "dialled \<noteq> [] \<or> (\<exists>c. res = Inr c)"
  obtains host port ips where "SplitHostPort target = Inr (host, port)" "lookup host = Inr ips"
    "\<not> list_ex prohibited ips" "allow = [] \<or> allow_loop unifold host ips allow False"
    "dial_loop dial port ips None = (res, dialled)"
  using assms by (auto simp: dialPublicDestination_def split: sum.splits prod.splits if_splits)

lemma high_nibble:
  "(x :: byte) AND 0xf0 = 16 \<longleftrightarrow> 16 \<le> unat x \<and> unat x < 32"
  "(x :: byte) AND 0xf0 = 0xe0 \<longleftrightarrow> 224 \<le> unat x \<and> unat x < 240"
proof -
  have "list_all (\<lambda>n. ((of_nat n :: byte) AND 0xf0 = 16 \<longleftrightarrow> 16 \<le> n \<and> n < 32) \<and>
      ((of_nat n :: byte) AND 0xf0 = 0xe0 \<longleftrightarrow> 224 \<le> n \<and> n < 240)) [0..<256]"
    by code_simp
  moreover have "unat x \<in> set [0..<256]" by simp
  ultimately have "((of_nat (unat x) :: byte) AND 0xf0 = 16 \<longleftrightarrow> 16 \<le> unat x \<and> unat x < 32) \<and>
      ((of_nat (unat x) :: byte) AND 0xf0 = 0xe0 \<longleftrightarrow> 224 \<le> unat x \<and> unat x < 240)"
    unfolding list_all_iff by blast
  then show "x AND 0xf0 = 16 \<longleftrightarrow> 16 \<le> unat x \<and> unat x < 32" "x AND 0xf0 = 0xe0 \<longleftrightarrow> 224 \<le> unat x \<and> unat x < 240"
    by simp_all
qed

lemma IsUnspecified_IPv4: "IsUnspecified [a, b, c, d] \<longleftrightarrow> [a, b, c, d] = [0, 0, 0, 0]"
proof -
  have "take 12 IPv6unspecified \<noteq> v4InV6Prefix" "take 12 IPv4zero = v4InV6Prefix" "drop 12 IPv4zero = [0, 0, 0, 0]"
    "length IPv4zero = 16" "length IPv6unspecified = 16" by code_simp+
  then show ?thesis by (simp add: IsUnspecified_def IP_Equal_def IPv4len_def IPv6len_def)
qed

lemma unat_byte_eq:
  "unat (x :: byte) = 10 \<longleftrightarrow> x = 10" "unat x = 172 \<longleftrightarrow> x = 172" "unat x = 192 \<longleftrightarrow> x = 192" "unat x = 168 \<longleftrightarrow> x = 168"
  "unat x = 127 \<longleftrightarrow> x = 127" "unat x = 169 \<longleftrightarrow> x = 169" "unat x = 254 \<longleftrightarrow> x = 254"
  by (simp_all add: word_unat_eq_iff)

lemma To4_IPv4: "To4 [a, b, c, d] = Some [a, b, c, d]" "To4 (v4InV6Prefix @ [a, b, c, d]) = Some [a, b, c, d]"
  by (simp_all add: To4_def IPv4len_def IPv6len_def v4InV6Prefix_def)

lemma IsUnspecified_mapped: "IsUnspecified (v4InV6Prefix @ [a, b, c, d]) \<longleftrightarrow> [a, b, c, d] = [0, 0, 0, 0]"
proof -
  have "take 12 IPv6unspecified \<noteq> v4InV6Prefix"
    "length IPv6unspecified = 16" "length v4InV6Prefix = 12" by code_simp+
  moreover from this have "v4InV6Prefix @ [a, b, c, d] \<noteq> IPv6unspecified"
    by (metis append_eq_conv_conj)
  ultimately show ?thesis by (auto simp: IsUnspecified_def IP_Equal_def IPv4zero_def)
qed

section \<open>Properties\<close>

text \<open>
  C12.  The gateway is not a way into its own network: every address it dials is one the resolver gave
  for the requested host, joined with the requested port, and it dials only when none of the
  addresses of that answer is private, loopback, link-local, multicast or unspecified; with a
  non-empty list of allowed destinations, some rule names the host or some network rule contains an
  address of the answer.  A connection is the first attempt that succeeds.
\<close>

theorem dialPublicDestination_safe:
  assumes "dialPublicDestination unifold lookup dial target allow = (res, dialled)" "dialled \<noteq> [] \<or> (\<exists>c. res = Inr c)"
  shows "\<exists>host port ips k. SplitHostPort target = Inr (host, port) \<and> lookup host = Inr ips \<and>
    (\<forall>ip \<in> set ips. \<not> prohibited ip) \<and> dialled = map (\<lambda>ip. JoinHostPort (IP_String ip) port) (take k ips) \<and>
    (allow \<noteq> [] \<longrightarrow> (\<exists>rule \<in> set allow. EqualFold unifold rule host \<or>
       (\<exists>n. ParseCIDR rule = Some n \<and> (\<exists>ip \<in> set ips. IPNet_Contains n ip)))) \<and>
    (\<forall>c. res = Inr c \<longrightarrow> dialled \<noteq> [] \<and> dial (last dialled) = Inr c \<and> (\<forall>a \<in> set (butlast dialled). \<exists>e. dial a = Inl e))"
proof -
  obtain host port ips where h: "SplitHostPort target = Inr (host, port)" "lookup host = Inr ips"
    "\<not> list_ex prohibited ips" "allow = [] \<or> allow_loop unifold host ips allow False"
    and loop: "dial_loop dial port ips None = (res, dialled)"
    by (rule dialPublicDestination_dials [OF assms])
  from dial_loop_dialled [OF loop] obtain k where
    "dialled = map (\<lambda>ip. JoinHostPort (IP_String ip) port) (take k ips)" by blast
  with h dial_loop_dialled [OF loop] show ?thesis
    by (intro exI [of _ host] exI [of _ port] exI [of _ ips] exI [of _ k]) (auto simp: allow_loop_iff list_ex_iff)
qed

theorem dialPublicDestination_safe_witness:
  "\<exists>ips k. [''93.184.216.34:443''] = map (\<lambda>ip. JoinHostPort (IP_String ip) ''443'') (take k ips) \<and> (\<forall>ip \<in> set ips. \<not> prohibited ip)"
proof -
  have run: "dialPublicDestination (\<lambda>s t. False) (\<lambda>h. Inr [[93, 184, 216, 34]]) (\<lambda>a. Inr a) ''example.com:443'' [''EXAMPLE.com'']
      = (Inr ''93.184.216.34:443'', [''93.184.216.34:443''])" by code_simp
  have split: "SplitHostPort ''example.com:443'' = Inr (''example.com'', ''443'')" by code_simp
  show ?thesis
    using dialPublicDestination_safe [OF run] unfolding split by (metis list.distinct(1) Pair_inject sum.inject(2))
qed


text \<open>
  C34.  What counts as prohibited, exactly, for IPv4 in both representations: 10/8, 172.16/12,
  192.168/16, 127/8, 169.254/16, 0.0.0.0 and 224/4; the IPv4-mapped form is treated the same.
\<close>

theorem prohibited_IPv4:
  "(prohibited [a, b, c, d] \<longleftrightarrow>
      unat a = 10 \<or> unat a = 172 \<and> 16 \<le> unat b \<and> unat b < 32 \<or> unat a = 192 \<and> unat b = 168 \<or> unat a = 127 \<or>
      unat a = 169 \<and> unat b = 254 \<or> [a, b, c, d] = [0, 0, 0, 0] \<or> 224 \<le> unat a \<and> unat a < 240) \<and>
   prohibited (v4InV6Prefix @ [a, b, c, d]) = prohibited [a, b, c, d]"
proof -
  have "prohibited [a, b, c, d] \<longleftrightarrow>
      unat a = 10 \<or> unat a = 172 \<and> 16 \<le> unat b \<and> unat b < 32 \<or> unat a = 192 \<and> unat b = 168 \<or> unat a = 127 \<or>
      unat a = 169 \<and> unat b = 254 \<or> [a, b, c, d] = [0, 0, 0, 0] \<or> 224 \<le> unat a \<and> unat a < 240"
    unfolding prohibited_def IsPrivate_def IsLoopback_def IsLinkLocalUnicast_def IsLinkLocalMulticast_def
      IsMulticast_def IsUnspecified_IPv4 To4_IPv4 high_nibble unat_byte_eq by auto
  moreover have "prohibited (v4InV6Prefix @ [a, b, c, d]) = prohibited [a, b, c, d]"
    unfolding prohibited_def IsPrivate_def IsLoopback_def IsLinkLocalUnicast_def IsLinkLocalMulticast_def
      IsMulticast_def IsUnspecified_IPv4 IsUnspecified_mapped To4_IPv4 by simp
  ultimately show ?thesis by blast
qed

text \<open>
  Whatever arrives on the tunnel, only authentic data goes out: the bytes that
  \<open>forwardTunnelToDestination\<close> has written to the destination when it ends are a prefix of the
  concatenated payloads of frames that stand at the front of the input, in order, each sealed under
  the client's key for the direction to the server with the next sequence number.  It always ends.
\<close>

theorem upload_authentic:
  assumes "tunnel_ok c" "reader_ok r"
  shows "\<exists>e c' r' w' fs ps rest n. forwardTunnelToDestination c r w = (e, c', r', w') \<and>
    authentic (tun_receive c) 1 TypeDataPayload (received c) ps fs \<and>
    reader_stream r = concat (map frame_packet fs) @ rest \<and> written w' = written w @ take n (concat ps)"
proof -
  obtain e c' r' w' where "forwardTunnelToDestination c r w = (e, c', r', w')" by (metis surj_pair)
  with forwardTunnelToDestination_authentic [OF assms this] show ?thesis by blast
qed

definition sample_tunnel :: tunnelChannel where
  "sample_tunnel =
     \<lparr>tun_send = \<lparr>cipher = sample_cipher (replicate 32 2)\<rparr>, tun_receive = \<lparr>cipher = sample_cipher (replicate 32 1)\<rparr>,
      tun_nonces = \<lparr>salt = [5, 6, 7, 8], counter = 0\<rparr>, received = 0, paddingEnabled = True, jitterMS = 0\<rparr>"

lemma sample_tunnel_ok: "tunnel_ok sample_tunnel"
  by (simp add: tunnel_ok_def sample_tunnel_def sample_cipher_ok wf_nonces_def)

theorem upload_authentic_witness:
  "\<exists>e c' r' w' fs ps. forwardTunnelToDestination sample_tunnel (BytesReader [1, 2, 3]) sample_writer = (e, c', r', w') \<and>
     authentic (tun_receive sample_tunnel) 1 TypeDataPayload 0 ps fs"
  using upload_authentic [OF sample_tunnel_ok, of "BytesReader [1, 2, 3]" sample_writer]
  by (auto simp: sample_tunnel_def)

text \<open>
  C17.  The download is complete and ends: on a working tunnel, \<open>forwardDestinationToTunnel\<close> sends the
  destination's whole byte stream, cut into frames with payloads of 1 to 1442 bytes, sealed for the
  direction to the client with consecutive sequence numbers, and returns \<^verbatim>\<open>nil\<close> when the
  destination closes, its error otherwise.
\<close>

theorem download_complete:
  assumes "tunnel_ok c" "wplan w = []" "rng_fail g = None" "reader_ok r"
  shows "\<exists>xs c' r' w' g'. forwardDestinationToTunnel c r w g =
      (if reader_fin r = EOF then None else Some (TunnelIOErr (reader_fin r)), c', r', w', g') \<and>
    sent w' = sent w @ map frame_packet (down_frames c xs) \<and> concat (map fst xs) = reader_stream r \<and>
    (\<forall>x \<in> set xs. fits x \<and> 1 \<le> length (fst x) \<and> length (fst x) \<le> 1442)"
proof -
  from down_loop_ok [OF assms] obtain xs c' r' w' g' where
    "down_loop 1442 c r w g = (if reader_fin r = EOF then None else Some (TunnelIOErr (reader_fin r)), c', r', w', g')"
    "sent_down c w xs (reader_stream r) c' w' g'" by blast
  then show ?thesis
    by (auto simp: forwardDestinationToTunnel_def max_chunk_ok [OF assms(1)] sent_down_def Suc_le_eq)
qed

theorem download_complete_witness:
  "\<exists>xs c' r' w' g'. forwardDestinationToTunnel sample_tunnel (NetConn [Data [72, 105], Data [33]] False EOF) sample_writer sample_rng =
      (None, c', r', w', g') \<and> sent w' = map frame_packet (down_frames sample_tunnel xs) \<and> concat (map fst xs) = [72, 105, 33]"
  using download_complete [OF sample_tunnel_ok, of sample_writer sample_rng "NetConn [Data [72, 105], Data [33]] False EOF"]
  by (auto simp: sample_writer_def sample_rng_def net_fin_def)

end
