(* ===== verification/Gateway_Serve.thy ===== *)
theory Gateway_Serve
  imports Gateway_Tunnel
begin

text \<open>
  Serving one tunnel (\<^verbatim>\<open>serveTunnelOptions\<close> in \<^verbatim>\<open>src/pkg/gateway/tunnel.go\<close>): the sequential
  part up to the connection to the destination, then two goroutines that forward in the two
  directions over the one shared \<^verbatim>\<open>tunnelChannel\<close> and report to a buffered channel of errors.

  A run is a sequence of \<open>tunnel_step\<close>s, each one iteration of one of the loops.  The loops share the
  channel's record: the upload loop changes \<open>received\<close>, the download loop \<open>tun_nonces\<close>, and neither
  reads what the other changes; that is why a loop that ends by itself ends in the state it reaches
  alone, whatever the interleaving.  The call returns the first result reported and closes the
  destination (\<^verbatim>\<open>defer destination.Close()\<close>); its caller in \<^verbatim>\<open>cmd/server\<close> closes the tunnel
  connection.  That cuts the loop still running: it ends with an error that nobody reads.
\<close>

section \<open>The state of a tunnel\<close>

record tunnel_state =
  ts_chan :: tunnelChannel
  ts_tunnel_in :: reader
  ts_tunnel_out :: writer
  ts_dest_in :: reader
  ts_dest_out :: writer
  ts_rng :: rng
  ts_up_done :: bool
  ts_down_done :: bool
  ts_errs :: "tunnel_error option list"
  ts_closed :: bool
  ts_up_cut :: bool
  ts_down_cut :: bool

definition serveTunnelOptions ::
  "crypto_lib \<Rightarrow> conn option \<Rightarrow> AuthSession option \<Rightarrow> TunnelOptions \<Rightarrow> (string \<Rightarrow> (tunnel_error, conn) result) \<Rightarrow> rng \<Rightarrow>
   (tunnel_error, tunnel_state) result" where
  "serveTunnelOptions L connp sessionp options dial g =
     (case connp of
        None \<Rightarrow> Inl TunnelConnNil
      | Some conn \<Rightarrow>
          (case sessionp of
             None \<Rightarrow> Inl TunnelSessionNil
           | Some session \<Rightarrow>
               (case newTunnelChannel L session options g of
                  (Inl e, g') \<Rightarrow> Inl e
                | (Inr channel, g') \<Rightarrow>
                    (case readConnect channel (conn_in conn) of
                       (Inl e, _, _) \<Rightarrow> Inl e
                     | (Inr target, channel', r') \<Rightarrow>
                         (case dial target of
                            Inl e \<Rightarrow> Inl e
                          | Inr destination \<Rightarrow>
                              Inr \<lparr>ts_chan = channel', ts_tunnel_in = r', ts_tunnel_out = conn_out conn,
                                   ts_dest_in = conn_in destination, ts_dest_out = conn_out destination,
                                   ts_rng = g', ts_up_done = False, ts_down_done = False, ts_errs = [],
                                   ts_closed = False, ts_up_cut = False, ts_down_cut = False\<rparr>)))))"

definition ServeTunnelWithOptions ::
  "(string \<Rightarrow> string \<Rightarrow> bool) \<Rightarrow> (string \<Rightarrow> (tunnel_error, IP list) result) \<Rightarrow> (string \<Rightarrow> (tunnel_error, conn) result) \<Rightarrow>
   crypto_lib \<Rightarrow> conn option \<Rightarrow> AuthSession option \<Rightarrow> TunnelOptions \<Rightarrow> rng \<Rightarrow> (tunnel_error, tunnel_state) result" where
  "ServeTunnelWithOptions unifold lookup dialTCP L connp sessionp options g =
     serveTunnelOptions L connp sessionp options
       (\<lambda>target. fst (dialPublicDestination unifold lookup dialTCP target (AllowedDestinations options))) g"

definition serveTunnel ::
  "crypto_lib \<Rightarrow> conn option \<Rightarrow> AuthSession option \<Rightarrow> (string \<Rightarrow> (tunnel_error, conn) result) \<Rightarrow> rng \<Rightarrow>
   (tunnel_error, tunnel_state) result" where
  "serveTunnel L connp sessionp dial g =
     serveTunnelOptions L connp sessionp \<lparr>AllowedDestinations = [], opt_PaddingEnabled = None, opt_JitterMS = 0\<rparr> dial g"

definition ServeTunnelWithPolicy ::
  "(string \<Rightarrow> string \<Rightarrow> bool) \<Rightarrow> (string \<Rightarrow> (tunnel_error, IP list) result) \<Rightarrow> (string \<Rightarrow> (tunnel_error, conn) result) \<Rightarrow>
   crypto_lib \<Rightarrow> conn option \<Rightarrow> AuthSession option \<Rightarrow> string list \<Rightarrow> rng \<Rightarrow> (tunnel_error, tunnel_state) result" where
  "ServeTunnelWithPolicy unifold lookup dialTCP L connp sessionp allow g =
     serveTunnel L connp sessionp (\<lambda>target. fst (dialPublicDestination unifold lookup dialTCP target allow)) g"

definition ServeTunnel ::
  "(string \<Rightarrow> string \<Rightarrow> bool) \<Rightarrow> (string \<Rightarrow> (tunnel_error, IP list) result) \<Rightarrow> (string \<Rightarrow> (tunnel_error, conn) result) \<Rightarrow>
   crypto_lib \<Rightarrow> conn option \<Rightarrow> AuthSession option \<Rightarrow> rng \<Rightarrow> (tunnel_error, tunnel_state) result" where
  "ServeTunnel unifold lookup dialTCP L connp sessionp g = ServeTunnelWithPolicy unifold lookup dialTCP L connp sessionp [] g"

text \<open>The two older entry points are the one with options, for options that only restrict destinations.\<close>

lemma ServeTunnelWithPolicy_options:
  "ServeTunnelWithPolicy unifold lookup dialTCP L connp sessionp allow g =
     ServeTunnelWithOptions unifold lookup dialTCP L connp sessionp \<lparr>AllowedDestinations = allow, opt_PaddingEnabled = None, opt_JitterMS = 0\<rparr> g"
proof -
  let ?none = "\<lparr>AllowedDestinations = [], opt_PaddingEnabled = None, opt_JitterMS = 0\<rparr>"
  have "newTunnelChannel L session ?none g = newTunnelChannel L session (?none\<lparr>AllowedDestinations := allow\<rparr>) g" for session
    unfolding newTunnelChannel_def TunnelOptions.simps ..
  then show ?thesis
    by (simp add: ServeTunnelWithPolicy_def serveTunnel_def ServeTunnelWithOptions_def serveTunnelOptions_def split: option.split)
qed

section \<open>The two goroutines\<close>

text \<open>
  The maximum chunk size is computed once, when the download loop starts; \<open>max_chunk\<close> depends on the
  channel's sending key only, which no step changes.
\<close>

inductive tunnel_step :: "tunnel_state \<Rightarrow> tunnel_state \<Rightarrow> bool" where
  up: "\<not> ts_up_done st \<Longrightarrow> \<not> ts_closed st \<Longrightarrow>
     up_iteration (ts_chan st) (ts_tunnel_in st) (ts_dest_out st) = (res, c', r', w') \<Longrightarrow>
     tunnel_step st (st\<lparr>ts_chan := c', ts_tunnel_in := r', ts_dest_out := w', ts_up_done := res \<noteq> None,
       ts_errs := ts_errs st @ (case res of None \<Rightarrow> [] | Some e \<Rightarrow> [Some e])\<rparr>)"
| down: "\<not> ts_down_done st \<Longrightarrow> \<not> ts_closed st \<Longrightarrow>
     down_iteration (max_chunk (ts_chan st)) (ts_chan st) (ts_dest_in st) (ts_tunnel_out st) (ts_rng st) = (res, c', r', w', g') \<Longrightarrow>
     tunnel_step st (st\<lparr>ts_chan := c', ts_dest_in := r', ts_tunnel_out := w', ts_rng := g', ts_down_done := res \<noteq> None,
       ts_errs := ts_errs st @ (case res of None \<Rightarrow> [] | Some e \<Rightarrow> [e])\<rparr>)"
| serve_return: "ts_errs st \<noteq> [] \<Longrightarrow> \<not> ts_closed st \<Longrightarrow> tunnel_step st (st\<lparr>ts_closed := True\<rparr>)"
| cut_up: "ts_closed st \<Longrightarrow> \<not> ts_up_done st \<Longrightarrow> \<not> ts_up_cut st \<Longrightarrow>
     tunnel_step st (st\<lparr>ts_up_cut := True, ts_errs := ts_errs st @ [Some e]\<rparr>)"
| cut_down: "ts_closed st \<Longrightarrow> \<not> ts_down_done st \<Longrightarrow> \<not> ts_down_cut st \<Longrightarrow>
     tunnel_step st (st\<lparr>ts_down_cut := True, ts_errs := ts_errs st @ [Some e]\<rparr>)"

inductive_cases tunnel_stepE: "tunnel_step st st'"

abbreviation tunnel_run :: "tunnel_state \<Rightarrow> tunnel_state \<Rightarrow> bool" where
  "tunnel_run \<equiv> tunnel_step\<^sup>*\<^sup>*"

text \<open>The first value in the channel of errors is what the serving call returns.\<close>

definition serve_result :: "tunnel_state \<Rightarrow> tunnel_error option option" where
  "serve_result st = (case ts_errs st of [] \<Rightarrow> None | e # es \<Rightarrow> Some e)"

section \<open>Each loop leaves the other's part alone\<close>

lemma tunnel_read_nonces:
  "tunnel_read t (c\<lparr>tun_nonces := n\<rparr>) r =
     (let (res, c', r') = tunnel_read t c r in (res, c'\<lparr>tun_nonces := n\<rparr>, r'))"
  by (simp add: tunnel_read_def Let_def split: prod.split sum.split)

lemma up_iteration_nonces:
  "up_iteration (c\<lparr>tun_nonces := n\<rparr>) r w =
     (let (res, c', r', w') = up_iteration c r w in (res, c'\<lparr>tun_nonces := n\<rparr>, r', w'))"
  by (simp add: up_iteration_def tunnel_read_nonces Let_def split: prod.split sum.split)

lemma tunnel_read_frame:
  "tunnel_read t c r = (res, c', r') \<Longrightarrow> c' = c\<lparr>received := received c'\<rparr>"
  by (auto simp: tunnel_read_def Let_def split: prod.splits sum.splits if_splits)

lemma up_iteration_frame:
  "up_iteration c r w = (res, c', r', w') \<Longrightarrow> c' = c\<lparr>received := received c'\<rparr>"
  by (auto simp: up_iteration_def split: prod.splits sum.splits dest: tunnel_read_frame)

lemma tunnel_write_received:
  "tunnel_write t (c\<lparr>received := k\<rparr>) p w g =
     (let (res, c', w', g') = tunnel_write t c p w g in (res, c'\<lparr>received := k\<rparr>, w', g'))"
  by (simp add: tunnel_write_def Next_eq Let_def split: prod.split sum.split)

lemma tunnel_write_frame:
  "tunnel_write t c p w g = (res, c', w', g') \<Longrightarrow> c' = c\<lparr>tun_nonces := tun_nonces c'\<rparr>"
  using tunnel_write_any [of t c p w g res c' w' g'] by auto

lemma write_chunks_received:
  "write_chunks m data (c\<lparr>received := k\<rparr>) w g =
     (let (res, c', w', g') = write_chunks m data c w g in (res, c'\<lparr>received := k\<rparr>, w', g'))"
proof (induction m data c w g rule: write_chunks.induct)
  case (1 m data c w g)
  let ?size = "nat (if int (length data) > m then m else int (length data))"
  obtain res c1 w1 g1 where wr: "tunnel_write TypeDataPayload c (take ?size data) w g = (res, c1, w1, g1)" by (metis surj_pair)
  then show ?case
    using 1 by (cases res) (simp_all add: write_chunks.simps [of m data] tunnel_write_received Let_def split: prod.split)
qed

lemma write_chunks_frame:
  "write_chunks m data c w g = (res, c', w', g') \<Longrightarrow> c' = c\<lparr>tun_nonces := tun_nonces c'\<rparr>"
proof (induction m data c w g rule: write_chunks.induct)
  case (1 m data c w g)
  let ?size = "nat (if int (length data) > m then m else int (length data))"
  obtain r1 c1 w1 g1 where wr: "tunnel_write TypeDataPayload c (take ?size data) w g = (r1, c1, w1, g1)" by (metis surj_pair)
  have c1: "c1 = c\<lparr>tun_nonces := tun_nonces c1\<rparr>" by (rule tunnel_write_frame [OF wr])
  show ?case
  proof (cases "data = [] \<or> ?size = 0 \<or> r1 \<noteq> None")
    case True
    with 1(2) wr c1 show ?thesis
      by (auto simp: write_chunks.simps [of m data] Let_def split: if_splits)
  next
    case False
    then have "write_chunks m (drop ?size data) c1 w1 g1 = (res, c', w', g')"
      using 1(2) wr by (simp add: write_chunks.simps [of m data] Let_def split: if_splits)
    with 1(1) [OF _ refl] False wr have "c' = c1\<lparr>tun_nonces := tun_nonces c'\<rparr>" by auto
    with c1 show ?thesis by (metis tunnelChannel.update_convs(3) tunnelChannel.surjective tunnelChannel.select_convs(3))
  qed
qed

lemma down_iteration_received:
  "down_iteration m (c\<lparr>received := k\<rparr>) r w g =
     (let (res, c', r', w', g') = down_iteration m c r w g in (res, c'\<lparr>received := k\<rparr>, r', w', g'))"
  by (simp add: down_iteration_def write_chunks_received Let_def split: prod.split option.split)

lemma down_iteration_frame:
  "down_iteration m c r w g = (res, c', r', w', g') \<Longrightarrow> c' = c\<lparr>tun_nonces := tun_nonces c'\<rparr>"
  by (auto simp: down_iteration_def Let_def split: prod.splits option.splits dest: write_chunks_frame)

lemma forwardTunnelToDestination_nonces:
  "forwardTunnelToDestination (c\<lparr>tun_nonces := n\<rparr>) r w =
     (let (e, c', r', w') = forwardTunnelToDestination c r w in (e, c'\<lparr>tun_nonces := n\<rparr>, r', w'))"
proof (induction c r w rule: forwardTunnelToDestination.induct)
  case (1 c r w)
  obtain res c1 r1 w1 where it: "up_iteration c r w = (res, c1, r1, w1)" by (metis surj_pair)
  show ?case
    using 1 [OF it [symmetric] _ refl refl] it
    by (cases res) (simp_all add: forwardTunnelToDestination.simps [of _ r w] up_iteration_nonces Let_def)
qed

lemma down_loop_received:
  "down_loop m (c\<lparr>received := k\<rparr>) r w g =
     (let (res, c', r', w', g') = down_loop m c r w g in (res, c'\<lparr>received := k\<rparr>, r', w', g'))"
proof (induction m c r w g rule: down_loop.induct)
  case (1 m c r w g)
  obtain res c1 r1 w1 g1 where it: "down_iteration m c r w g = (res, c1, r1, w1, g1)" by (metis surj_pair)
  show ?case
    using 1 [OF it [symmetric] _ refl refl refl] it
    by (cases res) (simp_all add: down_loop.simps [of m _ r w g] down_iteration_received Let_def)
qed

section \<open>Every interleaving refines the two loops\<close>

definition up_final :: "tunnel_state \<Rightarrow> tunnel_error \<times> uint64 \<times> reader \<times> writer" where
  "up_final st =
     (let (e, c', r', w') = forwardTunnelToDestination (ts_chan st) (ts_tunnel_in st) (ts_dest_out st)
      in (e, received c', r', w'))"

definition down_final :: "tunnel_state \<Rightarrow> tunnel_error option \<times> NonceCounter \<times> reader \<times> writer \<times> rng" where
  "down_final st =
     (let (res, c', r', w', g') = forwardDestinationToTunnel (ts_chan st) (ts_dest_in st) (ts_tunnel_out st) (ts_rng st)
      in (res, tun_nonces c', r', w', g'))"

definition up_inv :: "tunnel_state \<Rightarrow> tunnel_state \<Rightarrow> bool" where
  "up_inv st0 st \<longleftrightarrow>
     (if ts_up_done st
      then (\<exists>e. up_final st0 = (e, received (ts_chan st), ts_tunnel_in st, ts_dest_out st) \<and> Some e \<in> set (ts_errs st))
      else up_final st = up_final st0)"

definition down_inv :: "tunnel_state \<Rightarrow> tunnel_state \<Rightarrow> bool" where
  "down_inv st0 st \<longleftrightarrow>
     (if ts_down_done st
      then (\<exists>e. down_final st0 = (e, tun_nonces (ts_chan st), ts_dest_in st, ts_tunnel_out st, ts_rng st) \<and> e \<in> set (ts_errs st))
      else down_final st = down_final st0)"

definition errs_inv :: "tunnel_state \<Rightarrow> bool" where
  "errs_inv st \<longleftrightarrow>
     length (ts_errs st) = of_bool (ts_up_done st) + of_bool (ts_down_done st) + of_bool (ts_up_cut st) + of_bool (ts_down_cut st) \<and>
     (ts_closed st \<longrightarrow> ts_up_done st \<or> ts_down_done st) \<and>
     (ts_up_cut st \<longrightarrow> ts_closed st \<and> \<not> ts_up_done st) \<and> (ts_down_cut st \<longrightarrow> ts_closed st \<and> \<not> ts_down_done st)"

text \<open>The result that the call returns comes from a loop that has ended by itself.\<close>

definition first_inv :: "tunnel_state \<Rightarrow> tunnel_state \<Rightarrow> bool" where
  "first_inv st0 st \<longleftrightarrow> (\<forall>e. serve_result st = Some e \<longrightarrow>
     ts_up_done st \<and> e = Some (fst (up_final st0)) \<or> ts_down_done st \<and> e = fst (down_final st0))"

lemma max_chunk_parts [simp]:
  "max_chunk (c\<lparr>received := k\<rparr>) = max_chunk c" "max_chunk (c\<lparr>tun_nonces := n\<rparr>) = max_chunk c"
  by (simp_all add: max_chunk_def)

lemma up_final_unfold:
  assumes "up_iteration (ts_chan st) (ts_tunnel_in st) (ts_dest_out st) = (res, c', r', w')"
  shows "up_final st = (case res of Some e \<Rightarrow> (e, received c', r', w')
    | None \<Rightarrow> up_final (st\<lparr>ts_chan := c', ts_tunnel_in := r', ts_dest_out := w'\<rparr>))"
  using assms
  by (cases res) (simp_all add: up_final_def forwardTunnelToDestination.simps [of "ts_chan st"])

lemma down_final_unfold:
  assumes "down_iteration (max_chunk (ts_chan st)) (ts_chan st) (ts_dest_in st) (ts_tunnel_out st) (ts_rng st) = (res, c', r', w', g')"
  shows "down_final st = (case res of Some e \<Rightarrow> (e, tun_nonces c', r', w', g')
    | None \<Rightarrow> down_final (st\<lparr>ts_chan := c', ts_dest_in := r', ts_tunnel_out := w', ts_rng := g'\<rparr>))"
proof -
  have "max_chunk c' = max_chunk (ts_chan st)" using down_iteration_frame [OF assms] by (metis max_chunk_parts(2))
  with assms show ?thesis
    by (cases res) (simp_all add: down_final_def forwardDestinationToTunnel_def down_loop.simps [of _ "ts_chan st"])
qed

lemma up_final_irrelevant:
  "ts_chan st' = (ts_chan st)\<lparr>tun_nonces := n\<rparr> \<Longrightarrow> ts_tunnel_in st' = ts_tunnel_in st \<Longrightarrow> ts_dest_out st' = ts_dest_out st \<Longrightarrow>
     up_final st' = up_final st"
  by (simp add: up_final_def forwardTunnelToDestination_nonces Let_def split: prod.split)

lemma down_final_irrelevant:
  "ts_chan st' = (ts_chan st)\<lparr>received := k\<rparr> \<Longrightarrow> ts_dest_in st' = ts_dest_in st \<Longrightarrow> ts_tunnel_out st' = ts_tunnel_out st \<Longrightarrow>
     ts_rng st' = ts_rng st \<Longrightarrow> down_final st' = down_final st"
  by (simp add: down_final_def forwardDestinationToTunnel_def down_loop_received Let_def split: prod.split)

lemma up_step_inv:
  assumes "up_inv st0 st" "down_inv st0 st" "\<not> ts_up_done st"
    and it: "up_iteration (ts_chan st) (ts_tunnel_in st) (ts_dest_out st) = (res, c', r', w')"
    and st': "st' = st\<lparr>ts_chan := c', ts_tunnel_in := r', ts_dest_out := w', ts_up_done := res \<noteq> None,
       ts_errs := ts_errs st @ (case res of None \<Rightarrow> [] | Some e \<Rightarrow> [Some e])\<rparr>"
  shows "up_inv st0 st' \<and> down_inv st0 st'"
proof
  have fr: "c' = (ts_chan st)\<lparr>received := received c'\<rparr>" by (rule up_iteration_frame [OF it])
  have same: "up_final (st\<lparr>ts_chan := c', ts_tunnel_in := r', ts_dest_out := w'\<rparr>) = up_final st'"
    unfolding st' by (simp add: up_final_def)
  show "up_inv st0 st'"
    using assms(1,3) up_final_unfold [OF it] same unfolding st' by (cases res) (auto simp: up_inv_def eq_commute [of _ "up_final st0"])
  have "down_final st' = down_final st"
    using fr unfolding st' by (intro down_final_irrelevant [where k = "received c'"]) auto
  moreover have "tun_nonces c' = tun_nonces (ts_chan st)" by (subst fr) simp
  ultimately show "down_inv st0 st'" using assms(2) unfolding st' by (auto simp: down_inv_def)
qed

lemma down_step_inv:
  assumes "up_inv st0 st" "down_inv st0 st" "\<not> ts_down_done st"
    and it: "down_iteration (max_chunk (ts_chan st)) (ts_chan st) (ts_dest_in st) (ts_tunnel_out st) (ts_rng st) = (res, c', r', w', g')"
    and st': "st' = st\<lparr>ts_chan := c', ts_dest_in := r', ts_tunnel_out := w', ts_rng := g', ts_down_done := res \<noteq> None,
       ts_errs := ts_errs st @ (case res of None \<Rightarrow> [] | Some e \<Rightarrow> [e])\<rparr>"
  shows "up_inv st0 st' \<and> down_inv st0 st'"
proof
  have fr: "c' = (ts_chan st)\<lparr>tun_nonces := tun_nonces c'\<rparr>" by (rule down_iteration_frame [OF it])
  have same: "down_final (st\<lparr>ts_chan := c', ts_dest_in := r', ts_tunnel_out := w', ts_rng := g'\<rparr>) = down_final st'"
    unfolding st' by (simp add: down_final_def)
  show "down_inv st0 st'"
    using assms(2,3) down_final_unfold [OF it] same unfolding st' by (cases res) (auto simp: down_inv_def eq_commute [of _ "down_final st0"])
  have "up_final st' = up_final st"
    using fr unfolding st' by (intro up_final_irrelevant [where n = "tun_nonces c'"]) auto
  moreover have "received c' = received (ts_chan st)" by (subst fr) simp
  ultimately show "up_inv st0 st'" using assms(1) unfolding st' by (auto simp: up_inv_def)
qed

lemma tunnel_step_errs: "tunnel_step st st' \<Longrightarrow> errs_inv st \<Longrightarrow> errs_inv st'"
  by (erule tunnel_stepE) (auto simp: errs_inv_def of_bool_def split: option.splits if_splits)

lemma closing_inv:
  "up_inv st0 (st\<lparr>ts_closed := b\<rparr>) = up_inv st0 st" "down_inv st0 (st\<lparr>ts_closed := b\<rparr>) = down_inv st0 st"
  "up_inv st0 st \<Longrightarrow> up_inv st0 (st\<lparr>ts_up_cut := b, ts_errs := ts_errs st @ es\<rparr>)"
  "up_inv st0 st \<Longrightarrow> up_inv st0 (st\<lparr>ts_down_cut := b, ts_errs := ts_errs st @ es\<rparr>)"
  "down_inv st0 st \<Longrightarrow> down_inv st0 (st\<lparr>ts_up_cut := b, ts_errs := ts_errs st @ es\<rparr>)"
  "down_inv st0 st \<Longrightarrow> down_inv st0 (st\<lparr>ts_down_cut := b, ts_errs := ts_errs st @ es\<rparr>)"
  by (auto simp: up_inv_def down_inv_def up_final_def down_final_def split: if_splits)

lemma tunnel_step_inv:
  assumes "tunnel_step st st'" "up_inv st0 st" "down_inv st0 st"
  shows "up_inv st0 st' \<and> down_inv st0 st'"
  using assms(1)
proof cases
  case (up res c' r' w')
  from up_step_inv [OF assms(2,3) up(2,4,1)] show ?thesis .
next
  case (down res c' r' w' g')
  from down_step_inv [OF assms(2,3) down(2,4,1)] show ?thesis .
qed (use assms(2,3) in \<open>simp_all add: closing_inv\<close>)

lemma serve_result_step:
  "tunnel_step st st' \<Longrightarrow> serve_result st = Some e \<Longrightarrow> serve_result st' = Some e"
  by (erule tunnel_stepE) (auto simp: serve_result_def split: list.splits)

lemma done_step:
  assumes "tunnel_step st st'"
  shows "(ts_up_done st \<longrightarrow> ts_up_done st') \<and> (ts_down_done st \<longrightarrow> ts_down_done st')"
  using assms by cases auto

lemma first_result:
  assumes "tunnel_step st st'" "serve_result st = None" "serve_result st' = Some e" "errs_inv st" "up_inv st0 st'" "down_inv st0 st'"
  shows "ts_up_done st' \<and> e = Some (fst (up_final st0)) \<or> ts_down_done st' \<and> e = fst (down_final st0)"
proof -
  have none: "ts_errs st = []" "\<not> ts_up_done st" "\<not> ts_down_done st" "\<not> ts_closed st"
    using assms(2,4) by (auto simp: serve_result_def errs_inv_def split: list.splits if_splits)
  from assms(1) show ?thesis
    by cases (use none assms(3,5,6) in \<open>auto simp: serve_result_def up_inv_def down_inv_def split: option.splits\<close>)
qed

lemma tunnel_step_first:
  assumes "tunnel_step st st'" "first_inv st0 st" "errs_inv st" "up_inv st0 st'" "down_inv st0 st'"
  shows "first_inv st0 st'"
proof (cases "serve_result st")
  case None
  with first_result [OF assms(1) None _ assms(3-5)] show ?thesis by (auto simp: first_inv_def)
next
  case (Some e)
  with serve_result_step [OF assms(1)] done_step [OF assms(1)] assms(2) show ?thesis by (auto simp: first_inv_def)
qed

lemma tunnel_run_inv:
  assumes "tunnel_run st0 st" "\<not> ts_up_done st0" "\<not> ts_down_done st0" "ts_errs st0 = []" "\<not> ts_closed st0"
    "\<not> ts_up_cut st0" "\<not> ts_down_cut st0"
  shows "up_inv st0 st \<and> down_inv st0 st \<and> errs_inv st \<and> first_inv st0 st"
  using assms
proof (induction rule: rtranclp_induct)
  case base
  then show ?case by (simp add: up_inv_def down_inv_def errs_inv_def first_inv_def serve_result_def)
next
  case (step st st')
  then show ?case
    using tunnel_step_inv [OF step(2)] tunnel_step_errs [OF step(2)] tunnel_step_first [OF step(2)] by blast
qed

text \<open>What a loop has written is a part of what it writes in the end, from the start.\<close>

lemma up_iteration_extends: "up_iteration c r w = (res, c', r', w') \<Longrightarrow> \<exists>more. written w' = written w @ more"
  by (auto simp: up_iteration_def split: prod.splits sum.splits dest: wra.wr_written)

lemma forwardTunnelToDestination_extends:
  "forwardTunnelToDestination c r w = (e, c', r', w') \<Longrightarrow> \<exists>more. written w' = written w @ more"
proof (induction c r w rule: forwardTunnelToDestination.induct)
  case (1 c r w)
  obtain res c1 r1 w1 where it: "up_iteration c r w = (res, c1, r1, w1)" by (metis surj_pair)
  obtain more where more: "written w1 = written w @ more" using up_iteration_extends [OF it] by blast
  show ?case
  proof (cases res)
    case None
    then have "forwardTunnelToDestination c1 r1 w1 = (e, c', r', w')" using 1(2) it by (simp add: forwardTunnelToDestination.simps [of c r w])
    with 1(1) [OF it [symmetric] None refl refl] more show ?thesis by auto
  next
    case (Some x)
    with 1(2) it more show ?thesis by (simp add: forwardTunnelToDestination.simps [of c r w])
  qed
qed

lemma tunnel_write_extends: "tunnel_write t c p w g = (err, c', w', g') \<Longrightarrow> \<exists>more. written w' = written w @ more"
  using tunnel_write_any [of t c p w g err c' w' g'] by auto

lemma write_chunks_extends: "write_chunks m data c w g = (res, c', w', g') \<Longrightarrow> \<exists>more. written w' = written w @ more"
proof (induction m data c w g rule: write_chunks.induct)
  case (1 m data c w g)
  let ?size = "nat (if int (length data) > m then m else int (length data))"
  obtain r1 c1 w1 g1 where wr: "tunnel_write TypeDataPayload c (take ?size data) w g = (r1, c1, w1, g1)" by (metis surj_pair)
  show ?case
  proof (cases "data = [] \<or> ?size = 0 \<or> r1 \<noteq> None")
    case True
    with 1(2) wr tunnel_write_extends [OF wr] show ?thesis
      by (auto simp: write_chunks.simps [of m data] Let_def split: if_splits)
  next
    case False
    then have "write_chunks m (drop ?size data) c1 w1 g1 = (res, c', w', g')"
      using 1(2) wr by (simp add: write_chunks.simps [of m data] Let_def split: if_splits)
    with 1(1) [OF _ refl] False wr tunnel_write_extends [OF wr] show ?thesis by fastforce
  qed
qed

lemma down_iteration_extends: "down_iteration m c r w g = (res, c', r', w', g') \<Longrightarrow> \<exists>more. written w' = written w @ more"
  by (auto simp: down_iteration_def Let_def split: prod.splits option.splits dest: write_chunks_extends)

lemma down_loop_extends: "down_loop m c r w g = (e, c', r', w', g') \<Longrightarrow> \<exists>more. written w' = written w @ more"
proof (induction m c r w g rule: down_loop.induct)
  case (1 m c r w g)
  obtain res c1 r1 w1 g1 where it: "down_iteration m c r w g = (res, c1, r1, w1, g1)" by (metis surj_pair)
  obtain more where more: "written w1 = written w @ more" using down_iteration_extends [OF it] by blast
  show ?case
  proof (cases res)
    case None
    then have "down_loop m c1 r1 w1 g1 = (e, c', r', w', g')" using 1(2) it by (simp add: down_loop.simps [of m c r w g])
    with 1(1) [OF it [symmetric] None refl refl refl] more show ?thesis by auto
  next
    case (Some x)
    with 1(2) it more show ?thesis by (simp add: down_loop.simps [of m c r w g])
  qed
qed

lemma up_final_extends: "up_inv st0 st \<Longrightarrow> \<exists>more. written (snd (snd (snd (up_final st0)))) = written (ts_dest_out st) @ more"
  by (auto simp: up_inv_def split: if_splits)
    (auto simp: up_final_def split: prod.splits dest: forwardTunnelToDestination_extends)

lemma down_final_extends: "down_inv st0 st \<Longrightarrow> \<exists>more. written (fst (snd (snd (snd (down_final st0))))) = written (ts_tunnel_out st) @ more"
  by (auto simp: down_inv_def split: if_splits)
    (auto simp: down_final_def forwardDestinationToTunnel_def split: prod.splits dest: down_loop_extends)

lemma tunnel_run_extends: "tunnel_run st0 st \<Longrightarrow> \<exists>more. written (ts_dest_out st) = written (ts_dest_out st0) @ more"
proof (induction rule: rtranclp_induct)
  case (step st st')
  have "\<exists>more. written (ts_dest_out st') = written (ts_dest_out st) @ more"
    using step(2) by cases (auto dest: up_iteration_extends)
  with step(3) show ?case by auto
qed simp

section \<open>A run ends\<close>

abbreviation up_ended :: "tunnel_state \<Rightarrow> bool" where
  "up_ended st \<equiv> ts_up_done st \<or> ts_up_cut st"

abbreviation down_ended :: "tunnel_state \<Rightarrow> bool" where
  "down_ended st \<equiv> ts_down_done st \<or> ts_down_cut st"

definition run_measure :: "tunnel_state \<Rightarrow> nat" where
  "run_measure st =
     (if up_ended st then 0 else Suc (reader_rank (ts_tunnel_in st))) +
     (if down_ended st then 0 else Suc (reader_rank (ts_dest_in st))) + (if ts_closed st then 0 else 1)"

lemma tunnel_step_measure: "tunnel_step st st' \<Longrightarrow> errs_inv st \<Longrightarrow> run_measure st' < run_measure st"
  by (erule tunnel_stepE) (auto simp: run_measure_def errs_inv_def dest: up_iteration_rank down_iteration_rank)

lemma tunnel_progress:
  assumes "errs_inv st" "\<not> (ts_closed st \<and> up_ended st \<and> down_ended st)"
  shows "\<exists>st'. tunnel_step st st'"
proof (cases "ts_closed st")
  case True
  with assms(2) show ?thesis by (meson tunnel_step.cut_up tunnel_step.cut_down)
next
  case False
  show ?thesis
  proof (cases "ts_errs st")
    case Nil
    with assms(1) False have "\<not> ts_up_done st" by (auto simp: errs_inv_def)
    with False show ?thesis by (metis surj_pair tunnel_step.up)
  next
    case Cons
    with False show ?thesis by (metis list.distinct(1) tunnel_step.serve_return)
  qed
qed

text \<open>A bound on the length of every run.\<close>

lemma tunnel_steps_bound: "(tunnel_step ^^ n) st st' \<Longrightarrow> errs_inv st \<Longrightarrow> errs_inv st' \<and> n + run_measure st' \<le> run_measure st"
proof (induction n arbitrary: st')
  case (Suc n)
  then obtain st1 where "(tunnel_step ^^ n) st st1" "tunnel_step st1 st'" by auto
  with Suc.IH [of st1] Suc.prems(2) tunnel_step_measure [of st1 st'] tunnel_step_errs [of st1 st'] show ?case by fastforce
qed simp

lemma tunnel_finishes: "errs_inv st \<Longrightarrow> \<exists>st'. tunnel_run st st' \<and> ts_closed st' \<and> up_ended st' \<and> down_ended st'"
proof (induction "run_measure st" arbitrary: st rule: less_induct)
  case less
  show ?case
  proof (cases "ts_closed st \<and> up_ended st \<and> down_ended st")
    case True
    then show ?thesis by blast
  next
    case False
    with tunnel_progress less.prems obtain st1 where "tunnel_step st st1" by blast
    then have "run_measure st1 < run_measure st" "errs_inv st1"
      using tunnel_step_measure tunnel_step_errs less.prems by simp_all
    from less.hyps [OF this] converse_rtranclp_into_rtranclp [of tunnel_step, OF \<open>tunnel_step st st1\<close>] show ?thesis by blast
  qed
qed

text \<open>Either loop can be the one that ends first.\<close>

lemma up_finishes:
  "\<not> ts_up_done st \<Longrightarrow> \<not> ts_closed st \<Longrightarrow> \<exists>st'. tunnel_run st st' \<and> ts_up_done st' \<and> \<not> ts_closed st'"
proof (induction "reader_rank (ts_tunnel_in st)" arbitrary: st rule: less_induct)
  case less
  obtain res c' r' w' where it: "up_iteration (ts_chan st) (ts_tunnel_in st) (ts_dest_out st) = (res, c', r', w')" by (metis surj_pair)
  note step = tunnel_step.up [OF less.prems it]
  show ?case
  proof (cases res)
    case None
    let ?st1 = "st\<lparr>ts_chan := c', ts_tunnel_in := r', ts_dest_out := w', ts_up_done := False, ts_errs := ts_errs st\<rparr>"
    have step1: "tunnel_step st ?st1" using step None by simp
    have "reader_rank (ts_tunnel_in ?st1) < reader_rank (ts_tunnel_in st)" using up_iteration_rank it None by simp
    from less.hyps [OF this] less.prems show ?thesis using converse_rtranclp_into_rtranclp [of tunnel_step, OF step1] by fastforce
  next
    case (Some e)
    with r_into_rtranclp [of tunnel_step, OF step] less.prems show ?thesis by fastforce
  qed
qed

lemma down_finishes:
  "\<not> ts_down_done st \<Longrightarrow> \<not> ts_closed st \<Longrightarrow> \<exists>st'. tunnel_run st st' \<and> ts_down_done st' \<and> \<not> ts_closed st' \<and>
     ts_up_done st' = ts_up_done st \<and> ts_up_cut st' = ts_up_cut st \<and> ts_tunnel_in st' = ts_tunnel_in st \<and> ts_dest_out st' = ts_dest_out st"
proof (induction "reader_rank (ts_dest_in st)" arbitrary: st rule: less_induct)
  case less
  obtain res c' r' w' g' where
    it: "down_iteration (max_chunk (ts_chan st)) (ts_chan st) (ts_dest_in st) (ts_tunnel_out st) (ts_rng st) = (res, c', r', w', g')"
    by (metis surj_pair)
  note step = tunnel_step.down [OF less.prems it]
  show ?case
  proof (cases res)
    case None
    let ?st1 = "st\<lparr>ts_chan := c', ts_dest_in := r', ts_tunnel_out := w', ts_rng := g', ts_down_done := False, ts_errs := ts_errs st\<rparr>"
    have step1: "tunnel_step st ?st1" using step None by simp
    have "reader_rank (ts_dest_in ?st1) < reader_rank (ts_dest_in st)" using down_iteration_rank it None by simp
    from less.hyps [OF this] less.prems show ?thesis using converse_rtranclp_into_rtranclp [of tunnel_step, OF step1] by fastforce
  next
    case (Some e)
    with r_into_rtranclp [of tunnel_step, OF step] less.prems show ?thesis by fastforce
  qed
qed

section \<open>Properties\<close>

lemma newTunnelChannel_Inr:
  assumes "crypto_lib_ok L" "newTunnelChannel L s options g = (Inr c, g')"
  shows "tunnel_ok c \<and> NewAEAD L (s2cKey s) = Inr (tun_send c) \<and> NewAEAD L (c2sKey s) = Inr (tun_receive c) \<and>
    received c = 0 \<and> counter (tun_nonces c) = 0 \<and> rng_fail g' = rng_fail g"
proof -
  from assms(2) obtain a b nc where ab: "NewAEAD L (s2cKey s) = Inr a" "NewAEAD L (c2sKey s) = Inr b"
    "NewNonceCounter g = (Inr nc, g')" "tun_send c = a" "tun_receive c = b" "tun_nonces c = nc" "received c = 0"
    by (auto simp: newTunnelChannel_def ServerToClientKey_def ClientToServerKey_def Let_def split: sum.splits prod.splits)
  with NewAEAD_cipher_ok [OF assms(1)] NewNonceCounter_Inr [OF ab(3)] show ?thesis by (simp add: tunnel_ok_def)
qed

lemma newTunnelChannel_works:
  assumes "crypto_lib_ok L" "length (s2cKey s) = KeySize" "length (c2sKey s) = KeySize" "rng_fail g = None"
  shows "\<exists>c g'. newTunnelChannel L s options g = (Inr c, g')"
proof -
  obtain a where a: "NewAEAD L (s2cKey s) = Inr a" by (rule NewAEAD_ok [OF assms(1,2)])
  obtain b where b: "NewAEAD L (c2sKey s) = Inr b" by (rule NewAEAD_ok [OF assms(1,3)])
  from rand_Read_works [OF assms(4), of 4] a b show ?thesis
    by (auto simp: newTunnelChannel_def ServerToClientKey_def ClientToServerKey_def NewNonceCounter_def Let_def)
qed

lemma validateTunnelTarget_length: "validateTunnelTarget t = None \<Longrightarrow> length t \<le> 1024"
  by (auto simp: validateTunnelTarget_def maxTargetAddressLen_def split: if_splits)

lemma readConnect_accepts:
  assumes "tunnel_ok c" "reader_ok r" "length s = 4" "fits (bytes_of_string target, fill)" "validateTunnelTarget target = None"
    and "reader_stream r = frame_packet (sealed_frame (tun_receive c) 1 TypeConnOpen s (received c) (envelope (bytes_of_string target) @ fill)) @ rest"
  shows "\<exists>r'. readConnect c r = (Inr target, c\<lparr>received := received c + 1\<rparr>, r') \<and> reader_stream r' = rest \<and>
    reader_ok r' \<and> reader_fin r' = reader_fin r"
proof -
  have t: "IsValidType TypeConnOpen" by (simp add: IsValidType_def)
  from tunnel_read_accepts [OF assms(1,2) t assms(3,4,6)] obtain r' where
    rd: "tunnel_read TypeConnOpen c r = (Inr (bytes_of_string target), c\<lparr>received := received c + 1\<rparr>, r')" "reader_stream r' = rest"
    by blast
  with tunnel_read_only [OF assms(1,2) rd(1)] assms(5) show ?thesis
    by (auto simp: readConnect_def)
qed

text \<open>With the keys of the session, a valid request and a reachable destination, serving starts.\<close>

lemma serveTunnelOptions_starts:
  assumes "crypto_lib_ok L" "length (s2cKey s) = KeySize" "NewAEAD L (c2sKey s) = Inr a" "rng_fail g = None"
    and "reader_ok (conn_in conn)" "length slt = 4" "fits (bytes_of_string target, fill)" "validateTunnelTarget target = None"
    and "reader_stream (conn_in conn) = frame_packet (sealed_frame a 1 TypeConnOpen slt 0 (envelope (bytes_of_string target) @ fill)) @ rest"
    and "dial target = Inr dest"
  obtains st where "serveTunnelOptions L (Some conn) (Some s) options dial g = Inr st"
    "tunnel_ok (ts_chan st)" "tun_receive (ts_chan st) = a" "NewAEAD L (s2cKey s) = Inr (tun_send (ts_chan st))"
    "received (ts_chan st) = 1" "counter (tun_nonces (ts_chan st)) = 0" "rng_fail (ts_rng st) = None"
    "reader_ok (ts_tunnel_in st)" "reader_stream (ts_tunnel_in st) = rest" "reader_fin (ts_tunnel_in st) = reader_fin (conn_in conn)"
    "ts_tunnel_out st = conn_out conn" "ts_dest_in st = conn_in dest" "ts_dest_out st = conn_out dest"
proof -
  have "length (c2sKey s) = KeySize" using assms(3) by (simp add: NewAEAD_Inr)
  from newTunnelChannel_works [OF assms(1,2) this assms(4)] obtain c g' where
    new: "newTunnelChannel L s options g = (Inr c, g')" by blast
  note c = newTunnelChannel_Inr [OF assms(1) new]
  have str: "reader_stream (conn_in conn) =
      frame_packet (sealed_frame (tun_receive c) 1 TypeConnOpen slt (received c) (envelope (bytes_of_string target) @ fill)) @ rest"
    using c assms(3,9) by simp
  from readConnect_accepts [OF conjunct1 [OF c] assms(5-8) str] obtain r' where
    rd: "readConnect c (conn_in conn) = (Inr target, c\<lparr>received := received c + 1\<rparr>, r')"
    "reader_stream r' = rest" "reader_ok r'" "reader_fin r' = reader_fin (conn_in conn)" by blast
  have ok: "tunnel_ok (c\<lparr>received := received c + 1\<rparr>)" using c by (simp add: tunnel_ok_def)
  show ?thesis
    by (rule that [of "\<lparr>ts_chan = c\<lparr>received := received c + 1\<rparr>, ts_tunnel_in = r', ts_tunnel_out = conn_out conn,
        ts_dest_in = conn_in dest, ts_dest_out = conn_out dest, ts_rng = g', ts_up_done = False, ts_down_done = False, ts_errs = [],
        ts_closed = False, ts_up_cut = False, ts_down_cut = False\<rparr>"])
      (use new rd assms(3,4,10) c ok in \<open>simp_all add: serveTunnelOptions_def\<close>)
qed

lemma serveTunnelOptions_Inr:
  assumes "serveTunnelOptions L connp sessionp options dial g = Inr st"
  obtains conn session channel g' target c' r' dest where "connp = Some conn" "sessionp = Some session"
    "newTunnelChannel L session options g = (Inr channel, g')" "readConnect channel (conn_in conn) = (Inr target, c', r')"
    "dial target = Inr dest" "st = \<lparr>ts_chan = c', ts_tunnel_in = r', ts_tunnel_out = conn_out conn,
       ts_dest_in = conn_in dest, ts_dest_out = conn_out dest, ts_rng = g', ts_up_done = False, ts_down_done = False, ts_errs = [],
        ts_closed = False, ts_up_cut = False, ts_down_cut = False\<rparr>"
  using assms by (auto simp: serveTunnelOptions_def split: option.splits prod.splits sum.splits)

lemma served_start:
  assumes "serveTunnelOptions L connp sessionp options dial g = Inr st0"
  shows "\<not> ts_up_done st0" "\<not> ts_down_done st0" "ts_errs st0 = []" "\<not> ts_closed st0" "\<not> ts_up_cut st0" "\<not> ts_down_cut st0" "errs_inv st0"
  by (rule serveTunnelOptions_Inr [OF assms], simp add: errs_inv_def)+

lemma served_inv:
  assumes "serveTunnelOptions L connp sessionp options dial g = Inr st0" "tunnel_run st0 st"
  shows "up_inv st0 st" "down_inv st0 st" "errs_inv st" "first_inv st0 st"
  using tunnel_run_inv [OF assms(2) served_start(1-6) [OF assms(1)]] by simp_all

text \<open>Whatever comes through the tunnel, what has gone to the destination so far is authentic data of the client.\<close>

lemma tunnel_run_authentic:
  assumes "serveTunnelOptions L connp sessionp options dial g = Inr st0" "tunnel_run st0 st"
    and "tunnel_ok (ts_chan st0)" "reader_ok (ts_tunnel_in st0)"
  obtains ps fs rest n where "authentic (tun_receive (ts_chan st0)) 1 TypeDataPayload (received (ts_chan st0)) ps fs"
    "reader_stream (ts_tunnel_in st0) = concat (map frame_packet fs) @ rest"
    "written (ts_dest_out st) = written (ts_dest_out st0) @ take n (concat ps)"
proof -
  obtain e c2 r2 w2 where fwd: "forwardTunnelToDestination (ts_chan st0) (ts_tunnel_in st0) (ts_dest_out st0) = (e, c2, r2, w2)" by (metis surj_pair)
  from forwardTunnelToDestination_authentic [OF assms(3,4) fwd] obtain fs ps rest n where
    au: "authentic (tun_receive (ts_chan st0)) 1 TypeDataPayload (received (ts_chan st0)) ps fs"
    "reader_stream (ts_tunnel_in st0) = concat (map frame_packet fs) @ rest" "written w2 = written (ts_dest_out st0) @ take n (concat ps)" by blast
  from up_final_extends [OF served_inv(1) [OF assms(1,2)]] fwd obtain more where
    more: "written w2 = written (ts_dest_out st) @ more" by (auto simp: up_final_def)
  from tunnel_run_extends [OF assms(2)] obtain data where data: "written (ts_dest_out st) = written (ts_dest_out st0) @ data" by auto
  from more data au(3) have "data @ more = take n (concat ps)" by simp
  then have "data = take (min n (length data)) (concat ps)" by (metis append_eq_conv_conj min.commute take_take)
  with au(1,2) data show ?thesis by (intro that) auto
qed

text \<open>What has gone down the tunnel so far: whole frames that carry what was read from the destination.\<close>

definition sent_so_far :: "tunnel_state \<Rightarrow> (bytes \<times> bytes) list \<Rightarrow> tunnel_state \<Rightarrow> bool" where
  "sent_so_far st0 xs st \<longleftrightarrow>
     sent_down ((ts_chan st0)\<lparr>received := received (ts_chan st)\<rparr>) (ts_tunnel_out st0) xs (concat (map fst xs)) (ts_chan st)
       (ts_tunnel_out st) (ts_rng st) \<and>
     reader_ok (ts_dest_in st) \<and> reader_stream (ts_dest_in st0) = concat (map fst xs) @ reader_stream (ts_dest_in st) \<and>
     (ts_down_done st \<longrightarrow> reader_stream (ts_dest_in st) = [])"

lemma sent_down_received:
  "sent_down (c\<lparr>received := k\<rparr>) w xs d c1 w1 g1 \<Longrightarrow> c2 = c1\<lparr>received := j\<rparr> \<Longrightarrow> sent_down (c\<lparr>received := j\<rparr>) w xs d c2 w1 g1"
  by (auto simp: sent_down_def tunnel_ok_def)

lemma sent_so_far_step:
  assumes "tunnel_step st st'" "sent_so_far st0 xs st" "wplan (ts_tunnel_out st0) = []"
  obtains ys where "sent_so_far st0 (xs @ ys) st'"
  using assms(1)
proof cases
  case (up res c' r' w')
  have "c' = (ts_chan st)\<lparr>received := received c'\<rparr>" by (rule up_iteration_frame [OF up(4)])
  with up assms(2) have "sent_so_far st0 (xs @ []) st'"
    by (auto simp: sent_so_far_def intro: sent_down_received)
  then show ?thesis by (rule that)
next
  case (down res c' r' w' g')
  let ?c0 = "(ts_chan st0)\<lparr>received := received (ts_chan st)\<rparr>"
  obtain data err r1 where rd: "io_Read (32 * 1024) (ts_dest_in st) = ((data, err), r1)" by (metis surj_pair)
  have s: "sent_down ?c0 (ts_tunnel_out st0) xs (concat (map fst xs)) (ts_chan st) (ts_tunnel_out st) (ts_rng st)"
    and ok: "reader_ok (ts_dest_in st)" using assms(2) by (simp_all add: sent_so_far_def)
  then have c: "tunnel_ok (ts_chan st)" "wplan (ts_tunnel_out st) = []" "rng_fail (ts_rng st) = None"
    using assms(3) by (auto simp: sent_down_def)
  from down_iteration_ok [OF c rd] down(4) obtain ys where
    res: "res = map_option (\<lambda>e. if e = EOF then None else Some (TunnelIOErr e)) err" "r' = r1" and
    ys: "sent_down (ts_chan st) (ts_tunnel_out st) ys data c' w' g'" by (auto simp: max_chunk_ok [OF c(1)])
  have "received c' = received (ts_chan st)" "concat (map fst ys) = data" using ys by (auto simp: sent_down_def)
  with sent_down_trans [OF s ys] have "sent_down ((ts_chan st0)\<lparr>received := received c'\<rparr>) (ts_tunnel_out st0) (xs @ ys)
      (concat (map fst (xs @ ys))) c' w' g'" by simp
  moreover have "reader_stream r1 = [] \<or> err = None" using rdr.rd_error [OF ok] rd by (cases err) auto
  ultimately have "sent_so_far st0 (xs @ ys) st'"
    using assms(2) down res rdr.rd_ok [OF ok rd] rdr.rd_stream [OF ok rd] \<open>concat (map fst ys) = data\<close>
    by (auto simp: sent_so_far_def)
  then show ?thesis by (rule that)
qed (use assms(2) that [of "[]"] in \<open>auto simp: sent_so_far_def\<close>)

lemma tunnel_run_sent:
  assumes "tunnel_run st0 st" "tunnel_ok (ts_chan st0)" "wplan (ts_tunnel_out st0) = []" "rng_fail (ts_rng st0) = None"
    "reader_ok (ts_dest_in st0)" "\<not> ts_down_done st0"
  shows "\<exists>xs. sent_so_far st0 xs st"
  using assms(1)
proof (induction rule: rtranclp_induct)
  case base
  with assms(2-6) sent_down_Nil [of "ts_chan st0"] show ?case by (auto simp: sent_so_far_def intro!: exI [of _ "[]"])
next
  case (step st st')
  then obtain xs where "sent_so_far st0 xs st" by blast
  from sent_so_far_step [OF step(2) this assms(3)] show ?case by blast
qed

text \<open>
  C14.  Concurrency does not show: however the iterations of the two goroutines of a served tunnel are
  interleaved, an upload that has ended by itself has left the destination connection and the receive
  counter exactly as the upload loop alone would, and an unfinished or cut one has written a part of
  that from its start; the same holds for a download, the tunnel connection and the nonce counter.
  The call returns when one of them has ended, with the result that loop alone has; then both
  connections are closed.
\<close>

theorem tunnel_interleaving:
  assumes "serveTunnelOptions L connp sessionp options dial g = Inr st0" "tunnel_run st0 st"
  shows "(case forwardTunnelToDestination (ts_chan st0) (ts_tunnel_in st0) (ts_dest_out st0) of (e, c', r', w') \<Rightarrow>
      case forwardDestinationToTunnel (ts_chan st0) (ts_dest_in st0) (ts_tunnel_out st0) (ts_rng st0) of (e2, c2, r2, w2, g2) \<Rightarrow>
        (ts_up_done st \<longrightarrow> ts_tunnel_in st = r' \<and> ts_dest_out st = w' \<and> received (ts_chan st) = received c') \<and>
        (ts_down_done st \<longrightarrow> ts_dest_in st = r2 \<and> ts_tunnel_out st = w2 \<and> tun_nonces (ts_chan st) = tun_nonces c2) \<and>
        (\<exists>more. written w' = written (ts_dest_out st) @ more) \<and> (\<exists>more. written w2 = written (ts_tunnel_out st) @ more) \<and>
        (serve_result st \<noteq> None \<longleftrightarrow> ts_up_done st \<or> ts_down_done st) \<and> (ts_closed st \<longrightarrow> serve_result st \<noteq> None) \<and>
        (\<forall>x. serve_result st = Some x \<longrightarrow> ts_up_done st \<and> x = Some e \<or> ts_down_done st \<and> x = e2))"
proof -
  note inv = served_inv [OF assms]
  have "serve_result st \<noteq> None \<longleftrightarrow> ts_up_done st \<or> ts_down_done st"
    using inv(3) by (cases "ts_errs st") (auto simp: serve_result_def errs_inv_def of_bool_def split: if_splits)
  moreover have "ts_closed st \<longrightarrow> ts_up_done st \<or> ts_down_done st" using inv(3) by (simp add: errs_inv_def)
  ultimately show ?thesis
    using inv(1,2,4) up_final_extends [OF inv(1)] down_final_extends [OF inv(2)]
    by (auto simp: up_inv_def down_inv_def first_inv_def up_final_def down_final_def split: prod.splits if_splits)
qed

text \<open>
  C30.  Serving a tunnel always returns and leaves nothing running: a run takes at most as many steps
  as the two connections have reads left in them plus three, it only stops when the call has returned,
  both connections are closed and both goroutines have ended, and every run gets there.
\<close>

theorem tunnel_returns:
  assumes "serveTunnelOptions L connp sessionp options dial g = Inr st0" "(tunnel_step ^^ n) st0 st"
  shows "n \<le> reader_rank (ts_tunnel_in st0) + reader_rank (ts_dest_in st0) + 3 \<and>
    ((\<nexists>st'. tunnel_step st st') \<longleftrightarrow> ts_closed st \<and> up_ended st \<and> down_ended st) \<and>
    (\<exists>st'. tunnel_run st st' \<and> serve_result st' \<noteq> None \<and> ts_closed st' \<and> up_ended st' \<and> down_ended st')"
proof -
  note start = served_start [OF assms(1)]
  from tunnel_steps_bound [OF assms(2) start(7)] have inv: "errs_inv st" and
    n: "n \<le> reader_rank (ts_tunnel_in st0) + reader_rank (ts_dest_in st0) + 3"
    using start by (auto simp: run_measure_def)
  have "\<not> (ts_closed st \<and> up_ended st \<and> down_ended st)" if "tunnel_step st st'" for st'
    using that inv by cases (auto simp: errs_inv_def)
  then have stuck: "(\<nexists>st'. tunnel_step st st') \<longleftrightarrow> ts_closed st \<and> up_ended st \<and> down_ended st"
    using tunnel_progress [OF inv] by metis
  from tunnel_finishes [OF inv] obtain st' where st': "tunnel_run st st'" "ts_closed st'" "up_ended st'" "down_ended st'" by blast
  have "tunnel_run st0 st'" using relpowp_imp_rtranclp [OF assms(2)] st'(1) by simp
  from served_inv(3) [OF assms(1) this] st'(2) have "serve_result st' \<noteq> None"
    by (auto simp: errs_inv_def serve_result_def split: list.splits)
  with n stuck st' show ?thesis by blast
qed

lemma down_loop_alone:
  assumes "serveTunnelOptions L connp sessionp options dial g = Inr st0"
  obtains st where "tunnel_run st0 st" "ts_closed st" "up_ended st" "down_ended st" "ts_dest_out st = ts_dest_out st0"
    "serve_result st = Some (fst (forwardDestinationToTunnel (ts_chan st0) (ts_dest_in st0) (ts_tunnel_out st0) (ts_rng st0)))"
proof -
  note start = served_start [OF assms]
  from down_finishes [OF start(2,4)] obtain st1 where run: "tunnel_run st0 st1" and st1: "ts_down_done st1" "\<not> ts_closed st1"
    "\<not> ts_up_done st1" "\<not> ts_up_cut st1" "ts_dest_out st1 = ts_dest_out st0" using start by auto
  have "first_inv st0 st1" "errs_inv st1" using served_inv [OF assms run] by simp_all
  with st1 have res: "serve_result st1 = Some (fst (down_final st0))" "ts_errs st1 \<noteq> []"
    by (auto simp: first_inv_def errs_inv_def serve_result_def split: list.splits)
  let ?st2 = "st1\<lparr>ts_closed := True\<rparr>" and ?e = "TunnelIOErr ErrClosed"
  let ?st3 = "?st2\<lparr>ts_up_cut := True, ts_errs := ts_errs ?st2 @ [Some ?e]\<rparr>"
  have s2: "tunnel_step st1 ?st2" using res(2) st1(2) by (rule tunnel_step.serve_return)
  have s3: "tunnel_step ?st2 ?st3" by (rule tunnel_step.cut_up) (use st1 in simp_all)
  from run s2 s3 have "tunnel_run st0 ?st3" by (meson rtranclp.rtrancl_into_rtrancl)
  moreover have "serve_result ?st3 = Some (fst (down_final st0))" using serve_result_step [OF s3] serve_result_step [OF s2] res(1) by blast
  moreover have "fst (down_final st0) = fst (forwardDestinationToTunnel (ts_chan st0) (ts_dest_in st0) (ts_tunnel_out st0) (ts_rng st0))"
    by (simp add: down_final_def split: prod.split)
  ultimately show ?thesis using st1 by (intro that [of ?st3]) simp_all
qed


definition sample_connect :: conn where
  "sample_connect = (sample_conn [])\<lparr>conn_in := BytesReader (frame_packet (sealed_frame \<lparr>cipher = sample_cipher (replicate 32 1)\<rparr> 1
     TypeConnOpen [9, 9, 9, 9] 0 (envelope (bytes_of_string ''example.com:80''))))\<rparr>"

lemma sample_serves:
  obtains st0 where "serveTunnelOptions sample_lib (Some sample_connect) (Some sample_session)
       \<lparr>AllowedDestinations = [], opt_PaddingEnabled = None, opt_JitterMS = 0\<rparr> (\<lambda>t. Inr (sample_conn ds)) sample_rng = Inr st0"
    "tunnel_ok (ts_chan st0)" "wplan (ts_tunnel_out st0) = []" "rng_fail (ts_rng st0) = None" "ts_dest_in st0 = NetConn ds False EOF"
proof -
  let ?a = "\<lparr>cipher = sample_cipher (replicate 32 1)\<rparr>"
  have a: "NewAEAD sample_lib (c2sKey sample_session) = Inr ?a"
    by (simp add: NewAEAD_def sample_lib_def sample_session_def KeySize_def)
  have key: "length (s2cKey sample_session) = KeySize" by (simp add: sample_session_def KeySize_def)
  have fit: "fits (bytes_of_string ''example.com:80'', [])" by (simp add: fits_def MaxCiphertextLen_def)
  have valid: "validateTunnelTarget ''example.com:80'' = None" by code_simp
  obtain st0 where "serveTunnelOptions sample_lib (Some sample_connect) (Some sample_session)
       \<lparr>AllowedDestinations = [], opt_PaddingEnabled = None, opt_JitterMS = 0\<rparr> (\<lambda>t. Inr (sample_conn ds)) sample_rng = Inr st0"
    "tunnel_ok (ts_chan st0)" "ts_tunnel_out st0 = conn_out sample_connect" "rng_fail (ts_rng st0) = None" "ts_dest_in st0 = conn_in (sample_conn ds)"
    by (rule serveTunnelOptions_starts [OF sample_lib_ok key a _ _ _ fit valid, where conn = sample_connect and
        slt = "[9, 9, 9, 9]" and rest = "[]" and dial = "\<lambda>t. Inr (sample_conn ds)" and g = sample_rng])
      (auto simp: sample_rng_def sample_connect_def)
  then show ?thesis by (intro that) (simp_all add: sample_connect_def sample_conn_def sample_writer_def)
qed

theorem tunnel_interleaving_witness:
  "\<exists>st0 st. serveTunnelOptions sample_lib (Some sample_connect) (Some sample_session)
       \<lparr>AllowedDestinations = [], opt_PaddingEnabled = None, opt_JitterMS = 0\<rparr> (\<lambda>t. Inr (sample_conn [Data [72]])) sample_rng = Inr st0 \<and>
     tunnel_run st0 st \<and> ts_up_done st \<and> serve_result st \<noteq> None"
proof -
  obtain st0 where st0: "serveTunnelOptions sample_lib (Some sample_connect) (Some sample_session)
       \<lparr>AllowedDestinations = [], opt_PaddingEnabled = None, opt_JitterMS = 0\<rparr> (\<lambda>t. Inr (sample_conn [Data [72]])) sample_rng = Inr st0"
    by (rule sample_serves)
  obtain st where "tunnel_run st0 st" "ts_up_done st" using up_finishes served_start [OF st0] by blast
  with tunnel_interleaving [OF st0] st0 show ?thesis by (fastforce split: prod.splits)
qed

theorem tunnel_returns_witness:
  "\<exists>st0 st. serveTunnelOptions sample_lib (Some sample_connect) (Some sample_session)
       \<lparr>AllowedDestinations = [], opt_PaddingEnabled = None, opt_JitterMS = 0\<rparr> (\<lambda>t. Inr (sample_conn [Data [72]])) sample_rng = Inr st0 \<and>
     tunnel_run st0 st \<and> serve_result st \<noteq> None \<and> ts_closed st"
proof -
  obtain st0 where st0: "serveTunnelOptions sample_lib (Some sample_connect) (Some sample_session)
       \<lparr>AllowedDestinations = [], opt_PaddingEnabled = None, opt_JitterMS = 0\<rparr> (\<lambda>t. Inr (sample_conn [Data [72]])) sample_rng = Inr st0"
    by (rule sample_serves)
  with tunnel_returns [OF st0, of 0 st0] show ?thesis by auto
qed


end
