(* ===== verification/Gateway_Server.thy ===== *)
theory Gateway_Server
  imports Gateway_Serve Transport_TLS
begin

text \<open>
  One accepted connection at the gateway (\<^verbatim>\<open>handle\<close> in \<^verbatim>\<open>src/pkg/gateway/server.go\<close>), its
  TLS preparation and the relay to the decoy web server (\<^verbatim>\<open>prepareGatewayTLS\<close>,
  \<^verbatim>\<open>proxyToNginx\<close>, \<^verbatim>\<open>relayCopy\<close> and \<^verbatim>\<open>writeFallbackAll\<close> in
  \<^verbatim>\<open>src/cmd/server/main.go\<close>).

  \<open>handle\<close> ends by handing the connection to one of two callbacks or by closing it; the outcome is a
  value of \<open>disposition\<close>, and the accept loop collects one per connection.
\<close>

section \<open>Writing and copying to the decoy\<close>

function writeFallbackAll :: "bytes \<Rightarrow> writer \<Rightarrow> io_error option \<times> writer" where
  "writeFallbackAll data w =
     (if data = [] then (None, w)
      else
        (case io_Write data w of
           ((n, Some e), w') \<Rightarrow> (Some e, w')
         | ((n, None), w') \<Rightarrow>
             if n = 0 then (Some ErrShortWrite, w') else writeFallbackAll (drop n data) w'))"
  by pat_completeness auto
termination
  by (relation "measure (\<lambda>(data, w). length data)") (auto dest!: io_Write_written [OF sym])

declare writeFallbackAll.simps [simp del]

interpretation wfa: write_loop writeFallbackAll "\<lambda>e. e" ErrShortWrite
  by unfold_locales (rule writeFallbackAll.simps)

text \<open>
  One iteration of \<^verbatim>\<open>relayCopy\<close>: the idle deadline is armed on the connection below \<open>src\<close>, so a
  silence ends the copy with a timeout.  \<open>Some\<close> ends the loop.
\<close>

definition relay_iteration ::
  "reader \<Rightarrow> writer \<Rightarrow> nat \<Rightarrow> (nat \<times> io_error option) option \<times> reader \<times> writer \<times> nat" where
  "relay_iteration src dst ntotal =
     (let ((data, rerr), r') = io_Read (32 * 1024) (arm_deadline True src);
          (werr, w') = writeFallbackAll data dst
      in case werr of
           Some e \<Rightarrow> (Some (ntotal, Some e), r', w', ntotal)
         | None \<Rightarrow>
             (let ntotal' = ntotal + length data
              in case rerr of
                   None \<Rightarrow> (None, r', w', ntotal')
                 | Some e \<Rightarrow> (Some (ntotal', if e = EOF then None else Some e), r', w', ntotal')))"

lemma arm_deadline_rank [simp]: "reader_rank (arm_deadline b r) = reader_rank r"
  by (induction b r rule: arm_deadline.induct) (auto simp: o_def cong: map_cong)

lemma relay_iteration_rank: "relay_iteration src dst n = (None, r', w', n') \<Longrightarrow> reader_rank r' < reader_rank src"
  by (auto simp: relay_iteration_def Let_def split: prod.splits option.splits dest!: rdr.rd_rank)

function relay_loop :: "reader \<Rightarrow> writer \<Rightarrow> nat \<Rightarrow> (nat \<times> io_error option) \<times> reader \<times> writer" where
  "relay_loop src dst ntotal =
     (case relay_iteration src dst ntotal of
        (Some res, r', w', n') \<Rightarrow> (res, r', w')
      | (None, r', w', n') \<Rightarrow> relay_loop r' w' n')"
  by pat_completeness auto
termination
  by (relation "measure (\<lambda>(r, w, n). reader_rank r)") (auto dest: relay_iteration_rank [OF sym])

declare relay_loop.simps [simp del]

definition relayCopy :: "reader \<Rightarrow> writer \<Rightarrow> (nat \<times> io_error option) \<times> reader \<times> writer" where
  "relayCopy src dst = relay_loop src dst 0"

lemma arm_deadline_idem [simp]: "arm_deadline b (arm_deadline a r) = arm_deadline b r"
  by (induction b r rule: arm_deadline.induct) (auto simp: o_def)

text \<open>Reading leaves the deadline below as it was set.\<close>

fun deadline_is :: "bool \<Rightarrow> reader \<Rightarrow> bool" where
  "deadline_is b (NetConn as armed e) = (armed = b)"
| "deadline_is b (BytesReader bs) = True"
| "deadline_is b (BufioReader r buf err) = deadline_is b r"
| "deadline_is b (TeeReader r seen) = deadline_is b r"
| "deadline_is b (MultiReader rs) = (\<forall>r \<in> set rs. deadline_is b r)"
| "deadline_is b (CaptureConn r seen) = deadline_is b r"

lemma deadline_is_arm [simp]: "deadline_is b (arm_deadline b r)"
  by (induction b r rule: arm_deadline.induct) auto

lemma arm_deadline_same: "deadline_is b r \<Longrightarrow> arm_deadline b r = r"
  by (induction b r rule: deadline_is.induct) (auto intro: map_idI)

lemma io_Read_deadline:
  "io_Read n r = (res, r') \<Longrightarrow> deadline_is b r \<Longrightarrow> deadline_is b r'"
  "multi_read n rs = (res, rs') \<Longrightarrow> \<forall>r \<in> set rs. deadline_is b r \<Longrightarrow> \<forall>r \<in> set rs'. deadline_is b r"
proof (induction n r and n rs arbitrary: res r' and res rs' rule: io_Read_multi_read.induct)
  case (8 n r rs)
  obtain d e r1 where rd: "io_Read n r = ((d, e), r1)" by (metis surj_pair)
  with 8(1) 8(4) have r1: "deadline_is b r1" by simp
  show ?case
  proof (cases "e = Some EOF \<and> d = []")
    case True
    then have "multi_read n rs = (res, rs')" using 8(3) rd by simp
    with 8(2) [OF rd [symmetric] refl refl] True 8(4) show ?thesis by simp
  next
    case False
    with 8(3,4) rd r1 show ?thesis by (auto split: if_splits)
  qed
qed (auto split: if_splits prod.splits)

lemma relay_loop_ok:
  assumes "reader_ok r" "deadline_is True r" "wplan w = []"
  shows "\<exists>r' w'. relay_loop r w n =
      ((n + length (reader_stream r), if reader_fin r = EOF then None else Some (reader_fin r)), r', w') \<and>
    written w' = written w @ reader_stream r"
  using assms
proof (induction "reader_rank r" arbitrary: r w n rule: less_induct)
  case less
  obtain data err r1 where rd: "io_Read (32 * 1024) r = ((data, err), r1)" by (metis surj_pair)
  let ?w = "w\<lparr>sent := sent w @ (if data = [] then [] else [data])\<rparr>"
  have wr: "writeFallbackAll data w = (None, ?w)" using wfa.wr_ok [OF less.prems(3)] .
  have armed: "arm_deadline True r = r" using less.prems(2) by (rule arm_deadline_same)
  note str = rdr.rd_stream [OF less.prems(1) rd] and fin = rdr.rd_fin [OF less.prems(1) rd]
  show ?case
  proof (cases err)
    case None
    have rank: "reader_rank r1 < reader_rank r" using rd None by (intro rdr.rd_rank) auto
    have r1: "reader_ok r1" "deadline_is True r1"
      using rdr.rd_ok [OF less.prems(1) rd] io_Read_deadline(1) [OF rd less.prems(2)] by simp_all
    from less.hyps [OF rank r1, of ?w "n + length data"] less.prems(3) obtain r' w' where
      IH: "relay_loop r1 ?w (n + length data) =
        ((n + length data + length (reader_stream r1), if reader_fin r1 = EOF then None else Some (reader_fin r1)), r', w')"
      "written w' = written ?w @ reader_stream r1" by auto
    have "relay_loop r w n = relay_loop r1 ?w (n + length data)"
      using rd wr None armed by (subst relay_loop.simps) (simp add: relay_iteration_def Let_def)
    with IH str fin show ?thesis by auto
  next
    case (Some e)
    with rdr.rd_error [OF less.prems(1)] rd have e: "reader_stream r1 = []" "e = reader_fin r" by auto
    have "relay_loop r w n = ((n + length data, if e = EOF then None else Some e), r1, ?w)"
      using rd wr Some armed by (subst relay_loop.simps) (simp add: relay_iteration_def Let_def)
    with str e show ?thesis by auto
  qed
qed

section \<open>Preparing TLS\<close>

datatype prepare_error =
    PrepareDeadlineErr io_error
  | PrefaceErr io_error
  | NotTLSRecord
  | PrepareTLSErr tls_error

text \<open>
  \<^verbatim>\<open>bufio.Reader.Peek(1)\<close> on a fresh buffer: fill it until a byte is there.  An error that came with
  data stays pending.
\<close>

function peek_fill :: "reader \<Rightarrow> (bytes \<times> io_error option) \<times> reader" where
  "peek_fill r =
     (case io_Read bufio_size r of
        ((d, e), r') \<Rightarrow> if d \<noteq> [] \<or> e \<noteq> None then ((d, e), r') else peek_fill r')"
  by pat_completeness auto
termination
  by (relation "measure reader_rank") (auto dest: rdr.rd_rank [OF sym] simp: bufio_size_def)

declare peek_fill.simps [simp del]

definition Peek1 :: "reader \<Rightarrow> (io_error, byte) result \<times> reader" where
  "Peek1 r =
     (case peek_fill r of
        (([], e), r') \<Rightarrow> (Inl (the e), BufioReader r' [] None)
      | ((b # bs, e), r') \<Rightarrow> (Inr b, BufioReader r' (b # bs) e))"

text \<open>
  The second component is the raw connection after the call.  The TLS layer reads it through the
  buffered reader (\<^verbatim>\<open>bufferedConn\<close>), so its state is the one below that buffer.
\<close>

definition prepareGatewayTLS ::
  "tls_lib \<Rightarrow> tls_config option \<Rightarrow> conn \<Rightarrow> (prepare_error, net_conn) result \<times> conn" where
  "prepareGatewayTLS T config raw =
     (case conn_SetReadDeadline True raw of
        (Some e, raw1) \<Rightarrow> (Inl (PrepareDeadlineErr e), raw1)
      | (None, raw1) \<Rightarrow>
          (case Peek1 (conn_in raw1) of
             (Inl e, br) \<Rightarrow> (Inl (PrefaceErr e), raw1\<lparr>conn_in := bufio_source br\<rparr>)
           | (Inr first, br) \<Rightarrow>
               if first \<noteq> 0x16 then (Inl NotTLSRecord, raw1\<lparr>conn_in := bufio_source br\<rparr>)
               else
                 (case TLSServer T (Some (raw1\<lparr>conn_in := br\<rparr>)) config of
                    (Inl e, buffered) \<Rightarrow>
                      (let c = the buffered in (Inl (PrepareTLSErr e), c\<lparr>conn_in := bufio_source (conn_in c)\<rparr>))
                  | (Inr tlsConn, buffered) \<Rightarrow>
                      (case conn_SetReadDeadline False (tls_inner tlsConn) of
                         (Some e, inner) \<Rightarrow> (Inl (PrepareDeadlineErr e), conn_Close inner)
                       | (None, inner) \<Rightarrow> (Inr (UTLSConn (tlsConn\<lparr>tls_inner := inner\<rparr>)), inner)))))"

section \<open>Handling one connection\<close>

record Server =
  srv_PSK :: bytes
  Exporter :: "net_conn \<Rightarrow> (tls_error, bytes) result"
  Prepare :: "(conn \<Rightarrow> (prepare_error, net_conn) result \<times> conn) option"
  OnFallback :: bool
  OnAuthenticated :: bool

text \<open>
  What becomes of a connection: closed, handed to the fallback with a reader (\<open>None\<close> for a nil
  reader), or handed over as authenticated.
\<close>

datatype disposition =
    Closed conn
  | FellBack conn "reader option"
  | Tunnelled conn AuthSession

fun net_inner :: "net_conn \<Rightarrow> conn option" where
  "net_inner NilConn = None"
| "net_inner (PlainConn c) = Some c"
| "net_inner (UTLSConn u) = Some (tls_inner u)"

fun captured :: "reader \<Rightarrow> bytes" where
  "captured (CaptureConn r seen) = seen"
| "captured r = []"

text \<open>The part of \<^verbatim>\<open>handle\<close> from the exporter on.\<close>

definition handle_prepared :: "crypto_lib \<Rightarrow> Server \<Rightarrow> net_conn \<Rightarrow> conn \<Rightarrow> disposition" where
  "handle_prepared L srv nc conn =
     (case Exporter srv nc of
        Inl e \<Rightarrow> Closed (conn_Close conn)
      | Inr material \<Rightarrow>
          (case NewAuthSession L (srv_PSK srv) material of
             Inl e \<Rightarrow> Closed (conn_Close conn)
           | Inr session \<Rightarrow>
               (case AuthenticateReplay session conn of
                  ((replay, Some e), conn') \<Rightarrow>
                    if OnFallback srv then FellBack conn' replay else Closed (conn_Close conn')
                | ((replay, None), conn') \<Rightarrow>
                    if OnAuthenticated srv then Tunnelled conn' session else Closed (conn_Close conn'))))"

definition handle :: "crypto_lib \<Rightarrow> Server \<Rightarrow> conn \<Rightarrow> disposition" where
  "handle L srv conn =
     (let rawConn = conn\<lparr>conn_in := CaptureConn (conn_in conn) []\<rparr>
      in case Prepare srv of
           None \<Rightarrow> handle_prepared L srv (PlainConn rawConn) rawConn
         | Some prepare \<Rightarrow>
             (case prepare rawConn of
                (Inl e, raw') \<Rightarrow>
                  if OnFallback srv
                  then FellBack raw' (Some (MultiReader [BytesReader (captured (conn_in raw')), conn_in raw']))
                  else Closed (conn_Close raw')
              | (Inr prepared, raw') \<Rightarrow> handle_prepared L srv prepared (the (net_inner prepared))))"

text \<open>
  The capturing connection: a read passes what it got to the buffer.  The reader \<open>CaptureConn\<close> is such a
  connection with its buffer.
\<close>

definition captureBuffer_Write :: "bytes \<Rightarrow> bytes \<Rightarrow> (nat \<times> io_error option) \<times> bytes" where
  "captureBuffer_Write b p = ((length p, None), b @ p)"

definition captureConn_Read :: "nat \<Rightarrow> reader \<Rightarrow> bytes \<Rightarrow> (bytes \<times> io_error option) \<times> reader \<times> bytes" where
  "captureConn_Read n conn capture =
     (let ((d, e), conn') = io_Read n conn
      in ((d, e), conn', if length d > 0 then snd (captureBuffer_Write capture d) else capture))"

lemma io_Read_captureConn:
  "io_Read n (CaptureConn conn capture) = (let (res, conn', capture') = captureConn_Read n conn capture in (res, CaptureConn conn' capture'))"
  by (simp add: captureConn_Read_def captureBuffer_Write_def split: prod.split)

text \<open>The exporter that \<^verbatim>\<open>cmd/server\<close> installs.\<close>

definition exportServerKeyingMaterial :: "net_conn \<Rightarrow> (tls_error, bytes) result" where
  "exportServerKeyingMaterial nc =
     (case nc of UTLSConn u \<Rightarrow> ExportServerKeyingMaterial (Some u) | _ \<Rightarrow> Inl NotUTLSConn)"

text \<open>
  The accept loop: a closed listener ends it without an error, another accept error is skipped after
  a pause, and every accepted connection is handled by a goroutine of its own, independently.
\<close>

fun Serve :: "crypto_lib \<Rightarrow> Server \<Rightarrow> accept_result list \<Rightarrow> disposition list \<times> bool" where
  "Serve L srv [] = ([], False)"
| "Serve L srv (ListenerClosed # as) = ([], True)"
| "Serve L srv (AcceptFailed # as) = Serve L srv as"
| "Serve L srv (Accepted c # as) = (let (ds, fin) = Serve L srv as in (handle L srv c # ds, fin))"

section \<open>The decoy\<close>

text \<open>
  Relaying between the peer and the decoy.  A copy that ends with an error closes both connections,
  which cuts the other direction: nothing more is written by it.
\<close>

record proxy_state =
  px_replay :: reader
  px_upstream_out :: writer
  px_upstream_in :: reader
  px_client_out :: writer
  px_up_done :: bool
  px_down_done :: bool
  px_closed :: bool
  px_up_total :: nat
  px_down_total :: nat

datatype proxy_start = ProxyClosedClient conn | ProxyNilReader | ProxyRunning proxy_state

definition proxyToNginx :: "(string \<Rightarrow> conn option) \<Rightarrow> conn \<Rightarrow> reader option \<Rightarrow> string \<Rightarrow> proxy_start" where
  "proxyToNginx dial client replay addr =
     (if addr = '''' then ProxyClosedClient (conn_Close client)
      else
        (case dial addr of
           None \<Rightarrow> ProxyClosedClient (conn_Close client)
         | Some upstream \<Rightarrow>
             (case replay of
                None \<Rightarrow> ProxyNilReader
              | Some r \<Rightarrow>
                  ProxyRunning \<lparr>px_replay = r, px_upstream_out = conn_out upstream, px_upstream_in = conn_in upstream,
                    px_client_out = conn_out client, px_up_done = False, px_down_done = False, px_closed = False,
                    px_up_total = 0, px_down_total = 0\<rparr>)))"

inductive proxy_step :: "proxy_state \<Rightarrow> proxy_state \<Rightarrow> bool" where
  px_up: "\<not> px_up_done st \<Longrightarrow> \<not> px_closed st \<Longrightarrow>
     relay_iteration (px_replay st) (px_upstream_out st) (px_up_total st) = (res, r', w', n') \<Longrightarrow>
     proxy_step st (st\<lparr>px_replay := r', px_upstream_out := w', px_up_total := n', px_up_done := res \<noteq> None,
       px_closed := (case res of Some (n, Some e) \<Rightarrow> True | _ \<Rightarrow> False)\<rparr>)"
| px_down: "\<not> px_down_done st \<Longrightarrow> \<not> px_closed st \<Longrightarrow>
     relay_iteration (px_upstream_in st) (px_client_out st) (px_down_total st) = (res, r', w', n') \<Longrightarrow>
     proxy_step st (st\<lparr>px_upstream_in := r', px_client_out := w', px_down_total := n', px_down_done := res \<noteq> None,
       px_closed := (case res of Some (n, Some e) \<Rightarrow> True | _ \<Rightarrow> False)\<rparr>)"
| px_cut_up: "\<not> px_up_done st \<Longrightarrow> px_closed st \<Longrightarrow> proxy_step st (st\<lparr>px_up_done := True\<rparr>)"
| px_cut_down: "\<not> px_down_done st \<Longrightarrow> px_closed st \<Longrightarrow> proxy_step st (st\<lparr>px_down_done := True\<rparr>)"

inductive_cases proxy_stepE: "proxy_step st st'"

section \<open>What a relay has copied\<close>

abbreviation armed_stream :: "reader \<Rightarrow> bytes" where
  "armed_stream r \<equiv> reader_stream (arm_deadline True r)"

text \<open>
  With its deadlines armed a reader delivers a part of what it delivers without them, from the start; it
  is all of it when it ends with \<open>EOF\<close>, not at a deadline.
\<close>

lemma net_stream_armed: "\<exists>rest. net_stream as False = net_stream as True @ rest \<and> (Quiet \<notin> set as \<longrightarrow> rest = [])"
  by (induction as True rule: net_stream.induct) auto

definition armed_part :: "reader \<Rightarrow> bool" where
  "armed_part r \<longleftrightarrow> (\<exists>rest. reader_stream (arm_deadline False r) = armed_stream r @ rest \<and>
     (reader_fin (arm_deadline True r) = EOF \<longrightarrow> rest = [] \<and> reader_fin (arm_deadline False r) = EOF))"

lemma armed_part_multi:
  "\<forall>r \<in> set rs. armed_part r \<Longrightarrow>
     \<exists>rest. multi_stream (map (arm_deadline False) rs) = multi_stream (map (arm_deadline True) rs) @ rest \<and>
       (multi_fin (map (arm_deadline True) rs) = EOF \<longrightarrow> rest = [] \<and> multi_fin (map (arm_deadline False) rs) = EOF)"
proof (induction rs)
  case (Cons r rs)
  then obtain a b where "reader_stream (arm_deadline False r) = armed_stream r @ a"
    "reader_fin (arm_deadline True r) = EOF \<longrightarrow> a = [] \<and> reader_fin (arm_deadline False r) = EOF"
    "multi_stream (map (arm_deadline False) rs) = multi_stream (map (arm_deadline True) rs) @ b"
    "multi_fin (map (arm_deadline True) rs) = EOF \<longrightarrow> b = [] \<and> multi_fin (map (arm_deadline False) rs) = EOF"
    by (auto simp: armed_part_def)
  then show ?case by auto
qed simp

lemma armed_prefix: "reader_ok (arm_deadline False r) \<Longrightarrow> armed_part r"
proof (induction r)
  case (NetConn as armed e)
  then show ?case using net_stream_armed [of as] by (auto simp: armed_part_def net_fin_def)
next
  case (BufioReader r buf err)
  then show ?case by (cases err) (auto simp: armed_part_def)
next
  case (MultiReader rs)
  then show ?case using armed_part_multi [of rs] by (auto simp: armed_part_def)
qed (auto simp: armed_part_def)

definition copied :: "reader \<Rightarrow> writer \<Rightarrow> reader \<Rightarrow> writer \<Rightarrow> bool \<Rightarrow> bool \<Rightarrow> bool" where
  "copied r0 w0 r w closed fin \<longleftrightarrow> reader_ok (arm_deadline True r) \<and>
     reader_fin (arm_deadline True r) = reader_fin (arm_deadline True r0) \<and>
     (\<exists>data k. armed_stream r0 = data @ armed_stream r \<and> written w = written w0 @ take k data \<and>
        (\<not> closed \<longrightarrow> take k data = data)) \<and>
     (fin \<and> \<not> closed \<longrightarrow> armed_stream r = [] \<and> reader_fin (arm_deadline True r0) = EOF)"

lemma copied_start: "reader_ok (arm_deadline True r) \<Longrightarrow> copied r w r w closed False"
  by (auto simp: copied_def)

lemma copied_mono: "copied r0 w0 r w False fin \<Longrightarrow> copied r0 w0 r w closed fin"
  by (auto simp: copied_def)

lemma copied_cut: "copied r0 w0 r w True fin \<Longrightarrow> copied r0 w0 r w True fin'"
  by (auto simp: copied_def)

lemma relay_iteration_copied:
  assumes "copied r0 w0 r w False False" "relay_iteration r w n = (res, r', w', n')"
  shows "copied r0 w0 r' w' (case res of Some (m, Some e) \<Rightarrow> True | _ \<Rightarrow> False) (res \<noteq> None)"
proof -
  let ?r = "arm_deadline True r"
  obtain data err r1 where rd: "io_Read (32 * 1024) ?r = ((data, err), r1)" by (metis surj_pair)
  obtain werr w1 where wr: "writeFallbackAll data w = (werr, w1)" by (metis surj_pair)
  from assms(1) obtain old where ok: "reader_ok ?r" and fin: "reader_fin ?r = reader_fin (arm_deadline True r0)"
    and old: "armed_stream r0 = old @ reader_stream ?r" "written w = written w0 @ old" by (auto simp: copied_def)
  have armed: "arm_deadline True r1 = r1"
    using io_Read_deadline(1) [OF rd deadline_is_arm] by (rule arm_deadline_same)
  note r1 = rdr.rd_ok [OF ok rd] rdr.rd_fin [OF ok rd] rdr.rd_stream [OF ok rd]
  from wfa.wr_written [OF wr] obtain k where k: "k \<le> length data" "written w1 = written w @ take k data"
    "werr = None \<longrightarrow> k = length data" by blast
  have str: "armed_stream r0 = (old @ data) @ reader_stream r1"
    and wrote: "written w1 = written w0 @ take (length old + k) (old @ data)" using old r1(3) k by simp_all
  have res: "r' = r1" "w' = w1"
    "res = (case werr of Some e \<Rightarrow> Some (n, Some e)
       | None \<Rightarrow> map_option (\<lambda>e. (n + length data, if e = EOF then None else Some e)) err)"
    using assms(2) rd wr by (auto simp: relay_iteration_def Let_def split: option.splits)
  have full: "take (length old + k) (old @ data) = old @ data"
    if "\<not> (case res of Some (m, Some e) \<Rightarrow> True | _ \<Rightarrow> False)"
    using that res(3) k by (auto split: option.splits)
  have ended: "reader_stream r1 = [] \<and> reader_fin (arm_deadline True r0) = EOF"
    if "res \<noteq> None" "\<not> (case res of Some (m, Some e) \<Rightarrow> True | _ \<Rightarrow> False)"
  proof -
    from that res(3) have "err = Some EOF" by (auto split: option.splits if_splits)
    with rdr.rd_error [OF ok] rd fin show ?thesis by auto
  qed
  show ?thesis
    unfolding copied_def res(1,2) armed using r1 fin str wrote full ended by metis
qed

lemma proxy_step_copied:
  assumes "proxy_step st st'"
    and "copied r0 w0 (px_replay st) (px_upstream_out st) (px_closed st) (px_up_done st)"
    and "copied q0 v0 (px_upstream_in st) (px_client_out st) (px_closed st) (px_down_done st)"
  shows "copied r0 w0 (px_replay st') (px_upstream_out st') (px_closed st') (px_up_done st') \<and>
    copied q0 v0 (px_upstream_in st') (px_client_out st') (px_closed st') (px_down_done st')"
  using assms(1)
proof cases
  case (px_up res r' w' n')
  with assms(2) have "copied r0 w0 (px_replay st) (px_upstream_out st) False False" by simp
  from relay_iteration_copied [OF this px_up(4)] copied_mono assms(3) px_up show ?thesis by simp
next
  case (px_down res r' w' n')
  with assms(3) have "copied q0 v0 (px_upstream_in st) (px_client_out st) False False" by simp
  from relay_iteration_copied [OF this px_down(4)] copied_mono assms(2) px_down show ?thesis by simp
next
  case px_cut_up
  with assms(2,3) copied_cut show ?thesis by auto
next
  case px_cut_down
  with assms(2,3) copied_cut show ?thesis by auto
qed

lemma proxy_run_copied:
  assumes "proxy_step\<^sup>*\<^sup>* st0 st" "reader_ok (arm_deadline True (px_replay st0))" "reader_ok (arm_deadline True (px_upstream_in st0))"
    and "\<not> px_up_done st0" "\<not> px_down_done st0"
  shows "copied (px_replay st0) (px_upstream_out st0) (px_replay st) (px_upstream_out st) (px_closed st) (px_up_done st) \<and>
    copied (px_upstream_in st0) (px_client_out st0) (px_upstream_in st) (px_client_out st) (px_closed st) (px_down_done st)"
  using assms
proof (induction rule: rtranclp_induct)
  case base
  then show ?case by (simp add: copied_start)
next
  case (step st st')
  then show ?case using proxy_step_copied [OF step(2)] by blast
qed

lemma copied_prefix:
  assumes "copied r0 w0 r w closed fin"
  shows "\<exists>data rest. written w = written w0 @ data \<and> armed_stream r0 = data @ rest \<and> (fin \<and> \<not> closed \<longrightarrow> rest = [])"
proof -
  from assms obtain data k where d: "armed_stream r0 = data @ armed_stream r" "written w = written w0 @ take k data"
    "\<not> closed \<longrightarrow> take k data = data" "fin \<and> \<not> closed \<longrightarrow> armed_stream r = []" by (auto simp: copied_def)
  then have "armed_stream r0 = take k data @ (drop k data @ armed_stream r)" by simp
  moreover have "fin \<and> \<not> closed \<longrightarrow> drop k data @ armed_stream r = []"
    using d(3,4) append_take_drop_id [of k data] by (metis append_Nil2 append_self_conv)
  ultimately show ?thesis using d(2) by blast
qed

lemma copied_wire:
  assumes "copied r0 w0 r w closed fin" "reader_ok (arm_deadline False r0)"
  shows "\<exists>data rest. written w = written w0 @ data \<and> reader_stream (arm_deadline False r0) = data @ rest \<and> (fin \<and> \<not> closed \<longrightarrow> rest = [])"
proof -
  from copied_prefix [OF assms(1)] obtain data rest where
    d: "written w = written w0 @ data" "armed_stream r0 = data @ rest" "fin \<and> \<not> closed \<longrightarrow> rest = []" by blast
  from armed_prefix [OF assms(2)] obtain more where
    m: "reader_stream (arm_deadline False r0) = armed_stream r0 @ more" "reader_fin (arm_deadline True r0) = EOF \<longrightarrow> more = []" by (auto simp: armed_part_def)
  have "fin \<and> \<not> closed \<longrightarrow> reader_fin (arm_deadline True r0) = EOF" using assms(1) by (simp add: copied_def)
  with d m show ?thesis by (intro exI [of _ data] exI [of _ "rest @ more"]) auto
qed

section \<open>What the preparation consumed\<close>

text \<open>
  What the program relies on of the TLS library's server side: a failed handshake has only read
  from the connection and leaves it open, and a successful one respects the configured versions.
\<close>

definition tls_server_ok :: "tls_lib \<Rightarrow> tls_config \<Rightarrow> bool" where
  "tls_server_ok T config \<longleftrightarrow>
     (\<forall>c c'. lib_Server T config c = Inl c' \<longrightarrow>
        (\<exists>bs. reads io_Read (conn_in c) bs (conn_in c')) \<and> conn_closed c' = conn_closed c) \<and>
     (\<forall>c u. lib_Server T config c = Inr u \<longrightarrow>
        cfg_MinVersion config \<le> tls_Version (tls_ConnectionState u) \<and>
        tls_Version (tls_ConnectionState u) \<le> cfg_MaxVersion config \<and> conn_deadline_err (tls_inner u) = None)"

lemma peek_fill_reads: "peek_fill r = ((d, e), r') \<Longrightarrow> reads io_Read r d r'"
proof (induction r rule: peek_fill.induct)
  case (1 r)
  obtain d1 e1 r1 where rd: "io_Read bufio_size r = ((d1, e1), r1)" by (metis surj_pair)
  show ?case
  proof (cases "d1 \<noteq> [] \<or> e1 \<noteq> None")
    case True
    with 1(2) rd have "d = d1" "r' = r1" by (auto simp: peek_fill.simps [of r])
    with reads_single [where rd = io_Read, OF rd] show ?thesis by simp
  next
    case False
    with 1(2) rd have "peek_fill r1 = ((d, e), r')" by (auto simp: peek_fill.simps [of r])
    with 1(1) [OF rd [symmetric] refl] False have "reads io_Read r1 d r'" by simp
    from reads_trans [OF this reads_single [where rd = io_Read, OF rd]] False show ?thesis by simp
  qed
qed

text \<open>The raw connection with everything read so far in its capture.\<close>

definition capturing :: "arrival list \<Rightarrow> io_error \<Rightarrow> reader \<Rightarrow> bool" where
  "capturing as e r \<longleftrightarrow> (\<exists>as' b seen. r = CaptureConn (NetConn as' b e) seen \<and> seen @ net_stream as' False = net_stream as False)"

lemma capturing_reads:
  assumes "capturing as e r" "reads io_Read r bs r'"
  shows "capturing as e r'"
proof -
  from assms(1) obtain as1 b seen where r: "r = CaptureConn (NetConn as1 b e) seen"
    "seen @ net_stream as1 False = net_stream as False" by (auto simp: capturing_def)
  from reads_CaptureConn [OF assms(2) [unfolded r(1)]] obtain r1 where
    r1: "r' = CaptureConn r1 (seen @ bs)" "reads io_Read (NetConn as1 b e) bs r1" by blast
  from reads_net [OF r1(2)] r r1(1) show ?thesis by (auto simp: capturing_def)
qed

lemma capturing_arm: "capturing as e r \<Longrightarrow> capturing as e (arm_deadline b r)"
  by (auto simp: capturing_def)

lemma capturing_replay:
  "capturing as e r \<Longrightarrow>
     reader_stream (arm_deadline False (MultiReader [BytesReader (captured r), r])) = net_stream as False \<and>
     reader_fin (arm_deadline False (MultiReader [BytesReader (captured r), r])) = e \<and>
     reader_ok (arm_deadline b (MultiReader [BytesReader (captured r), r]))"
  by (auto simp: capturing_def net_fin_def)

lemma Peek1_capturing:
  assumes "Peek1 r = (res, br)" "capturing as e r"
  obtains r' buf err where "br = BufioReader r' buf err" "capturing as e r'"
proof -
  obtain d x r1 where pf: "peek_fill r = ((d, x), r1)" by (metis surj_pair)
  have "capturing as e r1" using capturing_reads [OF assms(2) peek_fill_reads [OF pf]] .
  with assms(1) pf show ?thesis by (cases d) (auto simp: Peek1_def intro: that)
qed

lemma buffered_capturing:
  assumes "reads io_Read (BufioReader r buf err) bs t" "capturing as e r"
  shows "capturing as e (bufio_source t)"
proof -
  from reads_BufioReader [OF assms(1)] obtain r' buf' err' got where
    "t = BufioReader r' buf' err'" "reads io_Read r got r'" by blast
  with capturing_reads [OF assms(2)] show ?thesis by simp
qed

lemma prepare_failure:
  assumes "prepareGatewayTLS T (Some config) raw = (Inl x, raw')" "capturing as e (conn_in raw)"
    and "tls_server_ok T config" "cfg_MinVersion config = VersionTLS13" "cfg_MaxVersion config = VersionTLS13"
  shows "capturing as e (conn_in raw') \<and> conn_closed raw' = conn_closed raw"
proof (cases "conn_deadline_err raw")
  case (Some y)
  with assms(1,2) show ?thesis by (auto simp: prepareGatewayTLS_def conn_SetReadDeadline_def)
next
  case None
  let ?raw1 = "raw\<lparr>conn_in := arm_deadline True (conn_in raw)\<rparr>"
  have dl: "conn_SetReadDeadline True raw = (None, ?raw1)" using None by (simp add: conn_SetReadDeadline_def)
  obtain res br where pk: "Peek1 (conn_in ?raw1) = (res, br)" by (metis surj_pair)
  have "capturing as e (conn_in ?raw1)" using capturing_arm [OF assms(2)] by simp
  from Peek1_capturing [OF pk this] obtain r' buf err where br: "br = BufioReader r' buf err" "capturing as e r'" .
  show ?thesis
  proof (cases "res = Inr 0x16")
    case False
    with assms(1) dl pk br show ?thesis by (auto simp: prepareGatewayTLS_def split: sum.splits if_splits)
  next
    case True
    let ?buffered = "?raw1\<lparr>conn_in := br\<rparr>"
    show ?thesis
    proof (cases "lib_Server T config ?buffered")
      case (Inl c')
      with assms(3) obtain bs where "reads io_Read (conn_in ?buffered) bs (conn_in c')" "conn_closed c' = conn_closed ?buffered"
        unfolding tls_server_ok_def by blast
      with buffered_capturing br have "capturing as e (bufio_source (conn_in c'))" "conn_closed c' = conn_closed raw" by auto
      with assms(1) dl pk True Inl show ?thesis by (auto simp: prepareGatewayTLS_def TLSServer_def)
    next
      case (Inr u)
      have "tls_Version (tls_ConnectionState u) = VersionTLS13" "conn_deadline_err (tls_inner u) = None"
        using assms(3-5) Inr unfolding tls_server_ok_def by (metis order_antisym)+
      with assms(1) dl pk True Inr show ?thesis
        by (auto simp: prepareGatewayTLS_def TLSServer_def conn_SetReadDeadline_def)
    qed
  qed
qed

text \<open>A peer whose first byte does not start a TLS record is never answered by the gateway itself.\<close>

lemma peek_fill_stream:
  "reader_ok r \<Longrightarrow> reader_stream r \<noteq> [] \<Longrightarrow> peek_fill r = ((d, e), r') \<Longrightarrow> d \<noteq> []"
proof (induction r rule: peek_fill.induct)
  case (1 r)
  obtain d1 e1 r1 where rd: "io_Read bufio_size r = ((d1, e1), r1)" by (metis surj_pair)
  note r1 = rdr.rd_ok [OF 1(2) rd] rdr.rd_stream [OF 1(2) rd]
  show ?case
  proof (cases "d1 \<noteq> [] \<or> e1 \<noteq> None")
    case True
    then have "d1 \<noteq> []" using r1(2) 1(3) rdr.rd_error [OF 1(2)] rd by (cases e1) auto
    with True 1(4) rd show ?thesis by (auto simp: peek_fill.simps [of r])
  next
    case False
    then have "peek_fill r1 = ((d, e), r')" using 1(4) rd by (auto simp: peek_fill.simps [of r])
    with 1(1) [OF rd [symmetric] refl] False r1 1(3) show ?thesis by simp
  qed
qed

lemma plain_probe_falls_back:
  assumes "conn_in conn = NetConn as b e" "conn_deadline_err conn = None" "net_stream as True = x # xs" "x \<noteq> 0x16"
    and "Prepare srv = Some (prepareGatewayTLS T config)" "OnFallback srv"
  obtains c r where "handle L srv conn = FellBack c (Some r)" "conn_out c = conn_out conn" "conn_closed c = conn_closed conn"
    "armed_stream r = net_stream as True" "reader_ok (arm_deadline True r)"
proof -
  let ?r = "CaptureConn (NetConn as True e) []" and ?raw = "conn\<lparr>conn_in := CaptureConn (conn_in conn) []\<rparr>"
  obtain d er r1 where pf: "peek_fill ?r = ((d, er), r1)" by (metis surj_pair)
  have rds: "reads io_Read ?r d r1" using peek_fill_reads [OF pf] .
  have "reader_stream ?r \<noteq> []" "reader_ok ?r" using assms(3) by simp_all
  with peek_fill_stream [OF _ _ pf] rdr.reads_stream [OF rds] assms(3) obtain ds where
    d: "d = x # ds" "net_stream as True = d @ reader_stream r1" by (cases d) auto
  from reads_CaptureConn [OF rds] obtain q where q: "r1 = CaptureConn q d" "reads io_Read (NetConn as True e) d q" by auto
  from reads_net [OF q(2)] obtain as' where as': "q = NetConn as' True e" by blast
  let ?raw' = "?raw\<lparr>conn_in := r1\<rparr>" and ?m = "MultiReader [BytesReader d, r1]"
  have "prepareGatewayTLS T config ?raw = (Inl NotTLSRecord, ?raw')"
    using pf d(1) assms(1,2,4) by (simp add: prepareGatewayTLS_def conn_SetReadDeadline_def Peek1_def)
  then have "handle L srv conn = FellBack ?raw' (Some ?m)"
    using assms(5,6) q(1) by (simp add: handle_def)
  moreover have "armed_stream ?m = net_stream as True" "reader_ok (arm_deadline True ?m)"
    using d(2) q(1) as' by simp_all
  ultimately show ?thesis by (intro that [of ?raw' ?m]) simp_all
qed

section \<open>Properties\<close>

text \<open>
  A probe that is not a TLS client of the gateway sees only the decoy: when the preparation of an
  accepted connection fails (nothing arrives before the deadline, the first byte is not a TLS
  handshake record, or the handshake fails), the connection is handed to the fallback, still open,
  with a reader that delivers every byte the peer has sent and will send, from the first on.
\<close>

theorem handle_fallback_complete:
  assumes "conn_in conn = NetConn as b e" "Prepare srv = Some (prepareGatewayTLS T (Some config))" "OnFallback srv"
    and "tls_server_ok T config" "TLSServerConfig T certFile keyFile = Inr config"
    and "fst (prepareGatewayTLS T (Some config) (conn\<lparr>conn_in := CaptureConn (conn_in conn) []\<rparr>)) = Inl err"
  shows "\<exists>c r. handle L srv conn = FellBack c (Some r) \<and> conn_closed c = conn_closed conn \<and>
    reader_stream (arm_deadline False r) = net_stream as False \<and> reader_fin (arm_deadline False r) = e \<and>
    reader_ok (arm_deadline True r)"
proof -
  let ?raw = "conn\<lparr>conn_in := CaptureConn (conn_in conn) []\<rparr>"
  obtain raw' where prep: "prepareGatewayTLS T (Some config) ?raw = (Inl err, raw')"
    using assms(6) by (metis prod.collapse)
  have cfg: "cfg_MinVersion config = VersionTLS13" "cfg_MaxVersion config = VersionTLS13"
    using assms(5) by (auto simp: TLSServerConfig_def split: if_splits option.splits)
  have "capturing as e (conn_in ?raw)" using assms(1) by (simp add: capturing_def)
  from prepare_failure [OF prep this assms(4) cfg] have
    raw': "capturing as e (conn_in raw')" "conn_closed raw' = conn_closed conn" by simp_all
  have "handle L srv conn = FellBack raw' (Some (MultiReader [BytesReader (captured (conn_in raw')), conn_in raw']))"
    using prep assms(2,3) by (simp add: handle_def)
  with capturing_replay [OF raw'(1)] raw'(2) show ?thesis by blast
qed

definition sample_server :: "tls_lib \<Rightarrow> tls_config \<Rightarrow> Server" where
  "sample_server T config =
     \<lparr>srv_PSK = replicate 16 7, Exporter = exportServerKeyingMaterial, Prepare = Some (prepareGatewayTLS T (Some config)),
      OnFallback = True, OnAuthenticated = True\<rparr>"

definition sample_server_config :: tls_config where
  "sample_server_config =
     \<lparr>cfg_ServerName = '''', cfg_Certificates = [1], cfg_MinVersion = VersionTLS13, cfg_MaxVersion = VersionTLS13,
      cfg_Renegotiation = RenegotiateNever, cfg_NextProtos = [''http/1.1''], cfg_RootCAs = None\<rparr>"

definition refusing_tls :: tls_lib where
  "refusing_tls = sample_tls\<lparr>lib_Server := (\<lambda>config c. Inl c)\<rparr>"

lemma refusing_tls_ok: "tls_server_ok refusing_tls config"
  by (auto simp: tls_server_ok_def refusing_tls_def intro: reads_none)

theorem handle_fallback_complete_witness:
  "\<exists>c r. handle sample_lib (sample_server refusing_tls sample_server_config) (sample_conn [Data [71, 69], Data [84]]) = FellBack c (Some r) \<and>
     reader_stream (arm_deadline False r) = [71, 69, 84]"
proof -
  let ?conn = "sample_conn [Data [71, 69], Data [84]]" and ?srv = "sample_server refusing_tls sample_server_config"
  have h: "conn_in ?conn = NetConn [Data [71, 69], Data [84]] False EOF" by (simp add: sample_conn_def)
  have cfg: "TLSServerConfig refusing_tls ''cert'' ''key'' = Inr sample_server_config"
    by (simp add: TLSServerConfig_def refusing_tls_def sample_tls_def sample_server_config_def)
  have "Peek1 (CaptureConn (NetConn [Data [71, 69], Data [84]] True EOF) []) =
      (Inr 71, BufioReader (CaptureConn (NetConn [Data [84]] True EOF) [71, 69]) [71, 69] None)"
    by (simp add: Peek1_def peek_fill.simps bufio_size_def)
  then have "fst (prepareGatewayTLS refusing_tls (Some sample_server_config)
      (?conn\<lparr>conn_in := CaptureConn (conn_in ?conn) []\<rparr>)) = Inl NotTLSRecord"
    by (simp add: prepareGatewayTLS_def sample_conn_def conn_SetReadDeadline_def)
  from handle_fallback_complete [OF h _ _ refusing_tls_ok cfg this, of ?srv sample_lib] show ?thesis
    by (auto simp: sample_server_def)
qed

text \<open>
  The relay to the decoy is faithful: in every interleaving of its two copies, what the decoy has
  received is a prefix of what the replay reader delivers and what the peer has received is a prefix of
  what the decoy sends, whatever the two connections do; and a copy that has ended without an error on
  either side has delivered all of it.
\<close>

theorem decoy_relay_faithful:
  assumes "proxyToNginx dial client (Some r) addr = ProxyRunning st0" "dial addr = Some upstream" "proxy_step\<^sup>*\<^sup>* st0 st"
    and "reader_ok (arm_deadline True r)" "reader_ok (arm_deadline True (conn_in upstream))"
  shows "(\<exists>data rest. written (px_upstream_out st) = written (conn_out upstream) @ data \<and> armed_stream r = data @ rest \<and>
      (px_up_done st \<and> \<not> px_closed st \<longrightarrow> rest = [])) \<and>
    (\<exists>data rest. written (px_client_out st) = written (conn_out client) @ data \<and> armed_stream (conn_in upstream) = data @ rest \<and>
      (px_down_done st \<and> \<not> px_closed st \<longrightarrow> rest = []))"
proof -
  have st0: "px_replay st0 = r" "px_upstream_out st0 = conn_out upstream" "px_upstream_in st0 = conn_in upstream"
    "px_client_out st0 = conn_out client" "\<not> px_up_done st0" "\<not> px_down_done st0"
    using assms(1,2) by (auto simp: proxyToNginx_def split: if_splits)
  from proxy_run_copied [OF assms(3)] assms(4,5) st0 show ?thesis
    using copied_prefix by metis
qed

theorem decoy_relay_faithful_witness:
  "\<exists>st0. proxyToNginx (\<lambda>a. Some (sample_conn [Data [79, 75]])) (sample_conn []) (Some (BytesReader [71])) ''nginx:8080'' = ProxyRunning st0 \<and>
     (\<exists>data rest. written (px_upstream_out st0) = data \<and> armed_stream (BytesReader [71]) = data @ rest)"
proof -
  obtain st0 where st0: "proxyToNginx (\<lambda>a. Some (sample_conn [Data [79, 75]])) (sample_conn []) (Some (BytesReader [71])) ''nginx:8080'' = ProxyRunning st0"
    by (simp add: proxyToNginx_def)
  from decoy_relay_faithful [OF st0 refl rtranclp.rtrancl_refl] st0 show ?thesis
    by (auto simp: sample_conn_def sample_writer_def)
qed

text \<open>
  C13.  The gate is tight: a prepared connection is handed over for tunnelling precisely when the
  exporter and the key derivation succeed and the peer's first bytes before the deadline are a valid
  proof for the session of this very connection; the session handed over is that one.
\<close>

theorem handle_tunnels_exactly:
  assumes "Prepare srv = Some prepare" "prepare (conn\<lparr>conn_in := CaptureConn (conn_in conn) []\<rparr>) = (Inr nc, raw')"
    and "net_inner nc = Some c" "conn_in c = NetConn as b e" "conn_deadline_err c = None" "wplan (conn_out c) = []" "OnAuthenticated srv"
  shows "(\<exists>c'. handle L srv conn = Tunnelled c' s) \<longleftrightarrow>
    (\<exists>material. Exporter srv nc = Inr material \<and> NewAuthSession L (srv_PSK srv) material = Inr s \<and>
       (\<exists>f rest. parse_frame (net_stream as True) = Some (f, rest) \<and> Type f = TypeAuthResponse \<and>
          ClientProof (authKey s) = Inr (Ciphertext f)))"
proof -
  have eq: "handle L srv conn = handle_prepared L srv nc c" using assms(1-3) by (simp add: handle_def)
  have auth: "(\<exists>replay c'. AuthenticateReplay t c = ((replay, None), c')) \<longleftrightarrow> valid_proof t (net_stream as True)" for t
  proof -
    obtain seen buf as' where
      "AuthenticateReplay t c = auth_outcome t c (net_stream as True) seen buf (NetConn as' False e)"
      by (rule AuthenticateReplay_cases [OF assms(4,5)])
    with WriteFrame_success [OF assms(6)] show ?thesis by (simp add: auth_outcome_def Let_def)
  qed
  have valid: "valid_proof s (net_stream as True) \<longleftrightarrow> (\<exists>f rest. parse_frame (net_stream as True) = Some (f, rest) \<and>
      Type f = TypeAuthResponse \<and> ClientProof (authKey s) = Inr (Ciphertext f))"
    by (auto simp: valid_proof_def split: option.splits)
  have "(\<exists>c'. handle_prepared L srv nc c = Tunnelled c' s) \<longleftrightarrow>
    (\<exists>material. Exporter srv nc = Inr material \<and> NewAuthSession L (srv_PSK srv) material = Inr s \<and>
       (\<exists>replay c'. AuthenticateReplay s c = ((replay, None), c')))"
    using assms(7) by (auto simp: handle_prepared_def split: sum.splits prod.splits option.splits if_splits)
  then show ?thesis unfolding eq auth valid .
qed

definition gate_server :: "conn \<Rightarrow> Server" where
  "gate_server c =
     \<lparr>srv_PSK = replicate 16 7, Exporter = (\<lambda>nc. Inr [1]), Prepare = Some (\<lambda>raw. (Inr (PlainConn c), raw)),
      OnFallback = True, OnAuthenticated = True\<rparr>"

theorem handle_tunnels_exactly_witness:
  "\<exists>s c'. handle sample_lib (gate_server (sample_conn [Data (proof_packet s)])) (sample_conn []) = Tunnelled c' s"
proof -
  obtain s where s: "NewAuthSession sample_lib (replicate 16 7) [1] = Inr s" "length (authKey s) = KeySize"
    by (rule NewAuthSession_works [OF sample_lib_ok, of "replicate 16 7"]) auto
  let ?c = "sample_conn [Data (proof_packet s)]"
  have "authKey s \<noteq> []" using s(2) by (auto simp: KeySize_def)
  from proof_packet_parse [OF this, of "[]"] s(1)
    handle_tunnels_exactly [of "gate_server ?c" "\<lambda>raw. (Inr (PlainConn ?c), raw)" "sample_conn []" "PlainConn ?c" _ ?c
      "[Data (proof_packet s)]" False EOF sample_lib s]
  show ?thesis by (auto simp: gate_server_def sample_conn_def sample_writer_def)
qed

text \<open>
  A connection on which no deadline can be set crashes the relay: \<open>AuthenticateReplay\<close> returns a
  nil reader together with its error, \<^verbatim>\<open>handle\<close> passes that nil reader to the fallback, and the
  fallback, once connected to the decoy, reads from it.
\<close>

theorem nil_replay_reaches_relay:
  assumes "Prepare srv = Some prepare" "prepare (conn\<lparr>conn_in := CaptureConn (conn_in conn) []\<rparr>) = (Inr nc, raw')"
    and "net_inner nc = Some c" "conn_deadline_err c = Some e" "OnFallback srv"
    and "Exporter srv nc = Inr material" "NewAuthSession L (srv_PSK srv) material = Inr s"
    and "addr \<noteq> ''''" "dial addr = Some upstream"
  shows "handle L srv conn = FellBack c None \<and> proxyToNginx dial c None addr = ProxyNilReader"
  using assms
  by (simp add: handle_def handle_prepared_def AuthenticateReplay_def conn_SetReadDeadline_def proxyToNginx_def)

theorem nil_replay_reaches_relay_witness:
  "\<exists>c. handle sample_lib (gate_server c) (sample_conn []) = FellBack c None"
proof -
  obtain s where s: "NewAuthSession sample_lib (replicate 16 7) [1] = Inr s"
    by (rule NewAuthSession_works [OF sample_lib_ok, of "replicate 16 7"]) auto
  let ?c = "(sample_conn [])\<lparr>conn_deadline_err := Some ErrClosed\<rparr>"
  from s nil_replay_reaches_relay [of "gate_server ?c" "\<lambda>raw. (Inr (PlainConn ?c), raw)" "sample_conn []" "PlainConn ?c" _ ?c
      ErrClosed "[1]" sample_lib s "''nginx:8080''" "\<lambda>a. Some (sample_conn [])" "sample_conn []"]
  show ?thesis by (intro exI [of _ ?c]) (simp add: gate_server_def sample_conn_def)
qed

text \<open>
  The accept loop serves every connection and survives failed accepts: it handles exactly the
  connections accepted before the listener was closed, in order, and returns when it was closed.
\<close>

lemma Serve_handles_all:
  "Serve L srv as =
     (map (handle L srv) (concat (map (\<lambda>a. case a of Accepted c \<Rightarrow> [c] | _ \<Rightarrow> []) (takeWhile (\<lambda>a. a \<noteq> ListenerClosed) as))),
      ListenerClosed \<in> set as)"
  by (induction L srv as rule: Serve.induct) simp_all

end
