(* ===== verification/End_To_End.thy ===== *)
theory End_To_End
  imports Socks5_Relay Gateway_Server
begin

text \<open>
  The client's and the gateway's halves together: the two implementations of the encrypted channel as
  one link in each direction (\<open>linked\<close>), the handshake that brings them into agreement, and the byte
  streams from the client's relay through the gateway's tunnel to the destination and back.
\<close>

section \<open>The two ends of the channel together\<close>

interpretation up_link: secure_link dc_send channel_ok "\<lambda>d. the (channel_AEAD d)" sendDirection
  "\<lambda>d. salt (the (SendNonces d))" "\<lambda>d. counter (the (SendNonces d))" "\<lambda>d. payload_limit (PaddingEnabled d)"
  tunnel_read tunnel_ok tun_receive "\<lambda>c. 1" received
  by unfold_locales

interpretation down_link: secure_link tunnel_write tunnel_ok tun_send "\<lambda>c. 2" "\<lambda>c. salt (tun_nonces c)"
  "\<lambda>c. counter (tun_nonces c)" "\<lambda>c. payload_limit (paddingEnabled c)"
  channel_receive channel_ok "\<lambda>d. the (ReceiveAEAD d)" receiveDirection receiveSequence
  by unfold_locales

text \<open>The client's channel and the gateway's agree on keys, directions and sequence numbers.\<close>

definition linked :: "DataChannel \<Rightarrow> tunnelChannel \<Rightarrow> bool" where
  "linked d c \<longleftrightarrow> channel_ok d \<and> tunnel_ok c \<and>
     the (channel_AEAD d) = tun_receive c \<and> sendDirection d = 1 \<and> counter (the (SendNonces d)) = received c \<and>
     the (ReceiveAEAD d) = tun_send c \<and> receiveDirection d = 2 \<and> receiveSequence d = counter (tun_nonces c)"

text \<open>What was put on a connection after it had sent \<open>w0\<close>.\<close>

definition sent_since :: "writer \<Rightarrow> writer \<Rightarrow> bytes" where
  "sent_since w0 w = concat (drop (length (sent w0)) (sent w))"

text \<open>\<open>passes_on w0 w bs complete\<close>: what was written since \<open>w0\<close> is a prefix of \<open>bs\<close>, and all of it when \<open>complete\<close>.\<close>

definition passes_on :: "writer \<Rightarrow> writer \<Rightarrow> bytes \<Rightarrow> bool \<Rightarrow> bool" where
  "passes_on w0 w bs complete \<longleftrightarrow> (\<exists>data rest. written w = written w0 @ data \<and> bs = data @ rest \<and> (complete \<longrightarrow> rest = []))"

text \<open>
  The two implementations of the channel interoperate in both directions: as long as they agree on
  keys, directions and sequence numbers, any payloads within the size of a frame are sent without an
  error by one and received unchanged and in order by the other, however the bytes are split on the
  way.
\<close>

theorem channels_interoperate:
  assumes "linked d c" "IsValidType t" "wplan w = []" "rng_fail g = None" "\<forall>p \<in> set ps. length p \<le> 1442"
  shows "(\<exists>d' w' g'. send_frames (dc_send t) ps d w g = (None, d', w', g') \<and>
      (\<forall>r. reader_ok r \<and> reader_stream r = sent_since w w' \<longrightarrow>
        (\<exists>c' r'. recv_frames (tunnel_read t) (length ps) c r = (ps, c', r')))) \<and>
    (\<exists>c' w' g'. send_frames (tunnel_write t) ps c w g = (None, c', w', g') \<and>
      (\<forall>r. reader_ok r \<and> reader_stream r = sent_since w w' \<longrightarrow>
        (\<exists>d' r'. recv_frames (channel_receive t) (length ps) d r = (ps, d', r'))))"
proof -
  have l: "channel_ok d" "tunnel_ok c" "the (channel_AEAD d) = tun_receive c" "sendDirection d = 1"
    "counter (the (SendNonces d)) = received c" "tun_send c = the (ReceiveAEAD d)" "2 = receiveDirection d"
    "counter (tun_nonces c) = receiveSequence d" using assms(1) by (simp_all add: linked_def)
  have up: "\<forall>p \<in> set ps. length p \<le> payload_limit (PaddingEnabled d)" and down: "\<forall>p \<in> set ps. length p \<le> payload_limit (paddingEnabled c)"
    using assms(5) by (auto simp: payload_limit_def)
  from up_link.transfer [OF l(1-5) assms(2-4) up] obtain d' w' g' where
    u: "send_frames (dc_send t) ps d w g = (None, d', w', g')"
    "\<And>r rest. reader_ok r \<Longrightarrow> reader_stream r = concat (drop (length (sent w)) (sent w')) @ rest \<Longrightarrow>
      \<exists>c' r'. recv_frames (tunnel_read t) (length ps) c r = (ps, c', r') \<and> reader_stream r' = rest \<and> reader_ok r' \<and>
        tunnel_ok c' \<and> tun_receive c' = tun_receive c \<and> 1 = 1 \<and> counter (the (SendNonces d')) = received c' \<and> reader_fin r' = reader_fin r"
    by metis
  from down_link.transfer [OF l(2,1,6-8) assms(2-4) down] obtain c' v' h' where
    d: "send_frames (tunnel_write t) ps c w g = (None, c', v', h')"
    "\<And>r rest. reader_ok r \<Longrightarrow> reader_stream r = concat (drop (length (sent w)) (sent v')) @ rest \<Longrightarrow>
      \<exists>d' r'. recv_frames (channel_receive t) (length ps) d r = (ps, d', r') \<and> reader_stream r' = rest \<and> reader_ok r' \<and>
        channel_ok d' \<and> the (ReceiveAEAD d') = the (ReceiveAEAD d) \<and> receiveDirection d' = receiveDirection d \<and>
        counter (tun_nonces c') = receiveSequence d' \<and> reader_fin r' = reader_fin r"
    by metis
  have "\<exists>c' r'. recv_frames (tunnel_read t) (length ps) c r = (ps, c', r')" if "reader_ok r" "reader_stream r = sent_since w w'" for r
    using u(2) [of r "[]"] that by (auto simp: sent_since_def)
  moreover have "\<exists>d' r'. recv_frames (channel_receive t) (length ps) d r = (ps, d', r')" if "reader_ok r" "reader_stream r = sent_since w v'" for r
    using d(2) [of r "[]"] that by (auto simp: sent_since_def)
  ultimately show ?thesis using u(1) d(1) by blast
qed

lemma sample_linked: "linked sample_channel sample_tunnel"
  using sample_channel_ok sample_tunnel_ok by (simp add: linked_def sample_channel_def sample_tunnel_def)

theorem channels_interoperate_witness:
  "\<exists>d' w' g' c' r'. send_frames (dc_send TypeDataPayload) [[1, 2], [3]] sample_channel sample_writer sample_rng = (None, d', w', g') \<and>
     recv_frames (tunnel_read TypeDataPayload) 2 sample_tunnel (BytesReader (sent_since sample_writer w')) = ([[1, 2], [3]], c', r')"
proof -
  have h: "IsValidType TypeDataPayload" "wplan sample_writer = []" "rng_fail sample_rng = None" "\<forall>p \<in> set [[1, 2], [3]]. length (p :: bytes) \<le> 1442"
    by (simp_all add: IsValidType_def sample_writer_def sample_rng_def)
  from channels_interoperate [OF sample_linked h] obtain d' w' g' where
    "send_frames (dc_send TypeDataPayload) [[1, 2], [3]] sample_channel sample_writer sample_rng = (None, d', w', g')"
    "\<forall>r. reader_ok r \<and> reader_stream r = sent_since sample_writer w' \<longrightarrow>
        (\<exists>c' r'. recv_frames (tunnel_read TypeDataPayload) (length [[1, 2], [3 :: byte]]) sample_tunnel r = ([[1, 2], [3]], c', r'))"
    by blast
  moreover have "reader_ok (BytesReader (sent_since sample_writer w'))"
    "reader_stream (BytesReader (sent_since sample_writer w')) = sent_since sample_writer w'" by simp_all
  moreover have "length [[1, 2], [3 :: byte]] = 2" by simp
  ultimately show ?thesis by metis
qed

section \<open>Setting up a tunnel\<close>

text \<open>
  \<open>gateway_answers L session d target p1 p2\<close>: a connection on which \<open>p1\<close> comes, and \<open>p2\<close> only once it
  has been answered, is authenticated for \<open>session\<close>, and the tunnel that is served on it has connected
  to \<open>target\<close>, agrees with the client's channel \<open>d\<close>, and has what follows still to read.
\<close>

definition gateway_answers :: "crypto_lib \<Rightarrow> AuthSession \<Rightarrow> DataChannel \<Rightarrow> string \<Rightarrow> bytes \<Rightarrow> bytes \<Rightarrow> bool" where
  "gateway_answers L session d target p1 p2 \<longleftrightarrow>
     (\<forall>sc first later b e upload g dial dest options.
        conn_in sc = NetConn (first @ later) b e \<and> conn_deadline_err sc = None \<and> wplan (conn_out sc) = [] \<and> rng_fail g = None \<and>
        dial target = Inr dest \<and> net_stream first True = p1 \<and> net_stream (first @ later) False = p1 @ p2 @ upload \<longrightarrow>
        (\<exists>sc' st. AuthenticateReplay session sc = ((None, None), sc') \<and>
           conn_out sc' = (conn_out sc)\<lparr>sent := sent (conn_out sc) @ [frame_packet success_frame]\<rparr> \<and>
           serveTunnelOptions L (Some sc') (Some session) options dial g = Inr st \<and> linked d (ts_chan st) \<and>
           reader_ok (ts_tunnel_in st) \<and> reader_stream (ts_tunnel_in st) = upload \<and> ts_tunnel_out st = conn_out sc' \<and>
           rng_fail (ts_rng st) = None \<and> ts_dest_in st = conn_in dest \<and> ts_dest_out st = conn_out dest))"

text \<open>
  Everything a successful handshake leaves behind: the client's connection, with what is still to come
  on it, the two packets it has sent, and a gateway that answers them.
\<close>

lemma session_links:
  assumes "crypto_lib_ok L" "PSK cl \<noteq> []" "dialTCP (ServerAddress cl) = Inr raw" "the (tlsConfig (tlsConfigOnce T cl)) = Inr config"
    and "DialUTLSWithConfig T (Some raw) (Some config) = (Inr u, x)" "ExportKeyingMaterial (Some u) = Inr ex"
    and "conn_in (tls_inner u) = NetConn as b e" "conn_deadline_err (tls_inner u) = None" "wplan (conn_out (tls_inner u)) = []"
    and "net_stream as True = frame_packet success_frame @ tail" "validateTarget target = None" "rng_fail g = None"
  obtains dc connp cp as' packet1 packet2 session where "client_Dial L T dialTCP (Some cl) target g = (Inr dc, connp, cp)"
    "channel_ok (dc_channel dc)" "readBuffer dc = []" "wplan (conn_out (dc_conn dc)) = []" "conn_in (dc_conn dc) = NetConn as' False e"
    "net_stream as False = frame_packet success_frame @ net_stream as' False"
    "sent (conn_out (dc_conn dc)) = sent (conn_out (tls_inner u)) @ [packet1, packet2]"
    "NewAuthSession L (PSK cl) ex = Inr session"
    "gateway_answers L session (dc_channel dc) target packet1 packet2"
proof -
  obtain s where s: "NewAuthSession L (PSK cl) ex = Inr s" "DeriveDirectionalKeys L (PSK cl) ex = Inr (c2sKey s, s2cKey s, authKey s)"
    "length (c2sKey s) = KeySize" "length (s2cKey s) = KeySize" "length (authKey s) = KeySize"
    by (rule NewAuthSession_works [OF assms(1,2)])
  obtain dc connp cp as' fill where dial: "client_Dial L T dialTCP (Some cl) target g = (Inr dc, connp, cp)" and
    d: "channel_ok (dc_channel dc)" "NewAEAD L (c2sKey s) = Inr (the (channel_AEAD (dc_channel dc)))"
    "NewAEAD L (s2cKey s) = Inr (the (ReceiveAEAD (dc_channel dc)))" "sendDirection (dc_channel dc) = 1" "receiveDirection (dc_channel dc) = 2"
    "counter (the (SendNonces (dc_channel dc))) = 1" "receiveSequence (dc_channel dc) = 0" "fits (bytes_of_string target, fill)" and
    c: "conn_in (dc_conn dc) = NetConn as' False e" "net_stream as False = frame_packet success_frame @ net_stream as' False"
    "wplan (conn_out (dc_conn dc)) = []" "readBuffer dc = []" and
    snt: "sent (conn_out (dc_conn dc)) = sent (conn_out (tls_inner u)) @ [frame_packet (client_proof_frame (authKey s)),
       frame_packet (sealed_frame (the (channel_AEAD (dc_channel dc))) 1 TypeConnOpen (salt (the (SendNonces (dc_channel dc)))) 0
         (envelope (bytes_of_string target) @ fill))]"
    by (rule client_Dial_connects [where dialTCP = dialTCP, OF assms(1-6) s(2-5) assms(7-12)])
  let ?a = "the (channel_AEAD (dc_channel dc))" and ?slt = "salt (the (SendNonces (dc_channel dc)))"
  let ?p2 = "frame_packet (sealed_frame ?a 1 TypeConnOpen ?slt 0 (envelope (bytes_of_string target) @ fill))"
  have key: "authKey s \<noteq> []" using s(5) by (auto simp: KeySize_def)
  have slt: "length ?slt = 4" using dcs.sok_cipher [OF d(1)] by simp
  have valid: "validateTunnelTarget target = None"
    using assms(11) by (auto simp: validateTarget_def validateTunnelTarget_def MaxTargetAddressLen_def maxTargetAddressLen_def
        split: if_splits sum.splits prod.splits option.splits)
  have gate: "gateway_answers L s (dc_channel dc) target (proof_packet s) ?p2"
    unfolding gateway_answers_def
  proof (intro allI impI, elim conjE)
    fix sc :: conn and first later b' e' upload and g' :: rng and options and dial :: "string \<Rightarrow> (tunnel_error, conn) result" and dest
    assume sc: "conn_in sc = NetConn (first @ later) b' e'" "conn_deadline_err sc = None" "wplan (conn_out sc) = []" and g': "rng_fail g' = None"
      and dest: "dial target = Inr dest" and net: "net_stream first True = proof_packet s" "net_stream (first @ later) False = proof_packet s @ ?p2 @ upload"
    from AuthenticateReplay_waits [OF sc key net(1)] net(2) obtain sc' where
      auth: "AuthenticateReplay s sc = ((None, None), sc')" "reader_ok (conn_in sc')" "reader_stream (conn_in sc') = ?p2 @ upload"
      "conn_out sc' = (conn_out sc)\<lparr>sent := sent (conn_out sc) @ [frame_packet success_frame]\<rparr>" by auto
    obtain st where st: "serveTunnelOptions L (Some sc') (Some s) options dial g' = Inr st"
      "tunnel_ok (ts_chan st)" "tun_receive (ts_chan st) = ?a" "NewAEAD L (s2cKey s) = Inr (tun_send (ts_chan st))"
      "received (ts_chan st) = 1" "counter (tun_nonces (ts_chan st)) = 0" "rng_fail (ts_rng st) = None" "ts_tunnel_out st = conn_out sc'"
      "reader_ok (ts_tunnel_in st)" "reader_stream (ts_tunnel_in st) = upload" "ts_dest_in st = conn_in dest" "ts_dest_out st = conn_out dest"
      by (rule serveTunnelOptions_starts [where dial = dial, OF assms(1) s(4) d(2) g' auth(2) slt d(8) valid auth(3) dest])
    have "linked (dc_channel dc) (ts_chan st)" using d st by (simp add: linked_def)
    with auth st show "\<exists>sc' st. AuthenticateReplay s sc = ((None, None), sc') \<and>
      conn_out sc' = (conn_out sc)\<lparr>sent := sent (conn_out sc) @ [frame_packet success_frame]\<rparr> \<and>
      serveTunnelOptions L (Some sc') (Some s) options dial g' = Inr st \<and> linked (dc_channel dc) (ts_chan st) \<and>
      reader_ok (ts_tunnel_in st) \<and> reader_stream (ts_tunnel_in st) = upload \<and> ts_tunnel_out st = conn_out sc' \<and>
      rng_fail (ts_rng st) = None \<and> ts_dest_in st = conn_in dest \<and> ts_dest_out st = conn_out dest" by auto
  qed
  show ?thesis
    by (rule that [OF dial d(1) c(4) c(3) c(1,2) snt [unfolded client_proof_frame_packet] s(1) gate])
qed

text \<open>
  C8.  The handshake works: a client and a gateway with the same pre-shared key on a TLS connection with
  the same exporter set up a tunnel.  The client's \<^verbatim>\<open>Dial\<close> succeeds once the success frame has
  come back; the first packet it sends authenticates it at the gateway, which answers with just that
  success frame; the second makes the gateway connect to the destination that was dialled; and then
  the two channels agree on keys, directions and sequence numbers, with what follows the second
  packet still to be read.
\<close>

theorem session_established:
  assumes "crypto_lib_ok L" "PSK cl \<noteq> []" "dialTCP (ServerAddress cl) = Inr raw" "the (tlsConfig (tlsConfigOnce T cl)) = Inr config"
    and "DialUTLSWithConfig T (Some raw) (Some config) = (Inr u, x)" "ExportKeyingMaterial (Some u) = Inr ex"
    and "conn_in (tls_inner u) = NetConn as b e" "conn_deadline_err (tls_inner u) = None" "wplan (conn_out (tls_inner u)) = []"
    and "net_stream as True = frame_packet success_frame @ tail" "validateTarget target = None" "rng_fail g = None"
    and "conn_in sc = NetConn (first @ later) b' e'" "conn_deadline_err sc = None" "wplan (conn_out sc) = []" "rng_fail g' = None"
    and "dial target = Inr dest"
  shows "\<exists>dc connp cp packet1 packet2. client_Dial L T dialTCP (Some cl) target g = (Inr dc, connp, cp) \<and>
    sent (conn_out (dc_conn dc)) = sent (conn_out (tls_inner u)) @ [packet1, packet2] \<and>
    (net_stream first True = packet1 \<and> net_stream (first @ later) False = packet1 @ packet2 @ upload \<longrightarrow>
      (\<exists>session sc' st. NewAuthSession L (PSK cl) ex = Inr session \<and> AuthenticateReplay session sc = ((None, None), sc') \<and>
        sent (conn_out sc') = sent (conn_out sc) @ [frame_packet success_frame] \<and>
        serveTunnelOptions L (Some sc') (Some session) options dial g' = Inr st \<and> linked (dc_channel dc) (ts_chan st) \<and>
        reader_ok (ts_tunnel_in st) \<and> reader_stream (ts_tunnel_in st) = upload \<and>
        ts_dest_in st = conn_in dest \<and> ts_dest_out st = conn_out dest))"
proof -
  obtain dc connp cp as' packet1 packet2 session where dc: "client_Dial L T dialTCP (Some cl) target g = (Inr dc, connp, cp)"
    "sent (conn_out (dc_conn dc)) = sent (conn_out (tls_inner u)) @ [packet1, packet2]" "NewAuthSession L (PSK cl) ex = Inr session"
    and gate: "gateway_answers L session (dc_channel dc) target packet1 packet2"
    by (rule session_links [where dialTCP = dialTCP, OF assms(1-12)])
  have "\<exists>sc' st. AuthenticateReplay session sc = ((None, None), sc') \<and> sent (conn_out sc') = sent (conn_out sc) @ [frame_packet success_frame] \<and>
      serveTunnelOptions L (Some sc') (Some session) options dial g' = Inr st \<and> linked (dc_channel dc) (ts_chan st) \<and>
      reader_ok (ts_tunnel_in st) \<and> reader_stream (ts_tunnel_in st) = upload \<and> ts_dest_in st = conn_in dest \<and> ts_dest_out st = conn_out dest"
    if "net_stream first True = packet1" "net_stream (first @ later) False = packet1 @ packet2 @ upload"
    using gate [unfolded gateway_answers_def, rule_format, of sc first later b' e' g' dial dest upload options] assms(13-17) that by force
  with dc show ?thesis by blast
qed

definition sample_options :: TunnelOptions where
  "sample_options = \<lparr>AllowedDestinations = [], opt_PaddingEnabled = None, opt_JitterMS = 0\<rparr>"

theorem session_established_witness:
  "\<exists>dc connp cp session sc sc' st.
     client_Dial sample_lib sample_tls (\<lambda>a. Inr sample_ready_conn) (Some (New ''gw:443'' ''gw'' (replicate 16 7))) ''example.com:80'' sample_rng =
       (Inr dc, connp, cp) \<and>
     NewAuthSession sample_lib (replicate 16 7) (replicate 32 6) = Inr session \<and> AuthenticateReplay session sc = ((None, None), sc') \<and>
     serveTunnelOptions sample_lib (Some sc') (Some session) sample_options (\<lambda>t. Inr (sample_conn [])) sample_rng = Inr st \<and>
     linked (dc_channel dc) (ts_chan st) \<and> reader_stream (ts_tunnel_in st) = [1, 2, 3]"
proof -
  let ?cl = "New ''gw:443'' ''gw'' (replicate 16 7)" and ?L = sample_lib
  have cl: "PSK ?cl \<noteq> []" by (simp add: sample_dial(9))
  have target: "validateTarget ''example.com:80'' = None" by code_simp
  have sc: "conn_in (sample_conn (a @ b)) = NetConn (a @ b) False EOF" "conn_deadline_err (sample_conn (a @ b)) = None"
    "wplan (conn_out (sample_conn (a @ b))) = []" for a b by (simp_all add: sample_conn_def sample_writer_def)
  note run = session_established [where dialTCP = "\<lambda>a. Inr sample_ready_conn" and dial = "\<lambda>t. Inr (sample_conn [])" and cl = ?cl and L = ?L
      and options = sample_options and upload = "[1, 2, 3]", OF sample_lib_ok cl refl sample_dial(1-7) target sample_dial(8) sc sample_dial(8) refl]
  from run [of "[]" "[]"] obtain dc connp cp p1 p2 where
    one: "client_Dial ?L sample_tls (\<lambda>a. Inr sample_ready_conn) (Some ?cl) ''example.com:80'' sample_rng = (Inr dc, connp, cp)"
    "sent (conn_out (dc_conn dc)) = sent (conn_out (tls_inner sample_tls_conn)) @ [p1, p2]" by blast
  from run [of "[Data p1]" "[Data p2, Data [1, 2, 3]]"] one sample_dial(9) [of "replicate 16 7"] show ?thesis by auto
qed

section \<open>From end to end\<close>

text \<open>
  Upload from end to end: what the destination has received is at any time a prefix of what the
  application sends to the local SOCKS5 port, in order and nothing else, however the goroutines of the
  relay and of the gateway are interleaved, however the bytes are split on the connection between
  them, and whatever comes down the tunnel; and it is every byte once the relay's and the gateway's
  upload loop have ended by themselves.
\<close>

theorem end_to_end_upload:
  assumes "relay_ready conn target g" "relay_run (relay_start conn target g) rs"
    and "serveTunnelOptions L connp sessionp options dial g0 = Inr st0" "linked (dc_channel target) (ts_chan st0)"
    and "reader_ok (ts_tunnel_in st0)" "reader_stream (ts_tunnel_in st0) = sent_since (conn_out (dc_conn target)) (conn_out (rl_conn rs))"
    and "wplan (ts_dest_out st0) = []" "tunnel_run st0 st"
  shows "\<exists>data rest. written (ts_dest_out st) = written (ts_dest_out st0) @ data \<and> reader_stream (conn_in conn) = data @ rest \<and>
    (rl_up_done rs \<and> ts_up_done st \<longrightarrow> rest = [])"
proof -
  let ?d = "dc_channel target" and ?c = "ts_chan st0"
  have l: "channel_ok ?d" "tunnel_ok ?c" "the (channel_AEAD ?d) = tun_receive ?c" "sendDirection ?d = 1"
    "counter (the (SendNonces ?d)) = received ?c" using assms(4) by (simp_all add: linked_def)
  from relay_run_up [OF assms(2) relay_start_up [OF assms(1)]] obtain xs b where
    xs: "\<forall>x \<in> set xs. fits x" "reader_stream (conn_in conn) = concat (map fst xs) @ b" "rl_up_done rs \<longrightarrow> b = []"
    "sent (conn_out (rl_conn rs)) = sent (conn_out (dc_conn target)) @ map frame_packet (up_frames ?d xs)"
    by (auto simp: moved_up_def up_sink_def relay_start_def)
  have slt: "length (salt (the (SendNonces ?d))) = 4" using dcs.sok_cipher [OF l(1)] by simp
  have str: "reader_stream (ts_tunnel_in st0) = concat (map frame_packet (sealed_seq (tun_receive ?c) 1 TypeDataPayload
      (salt (the (SendNonces ?d))) (received ?c) xs))"
    using assms(6) xs(4) l(3-5) by (simp add: sent_since_def)
  from forwardTunnelToDestination_ok [OF l(2) assms(5,7) slt xs(1) str] obtain e c' r' w' where
    fwd: "forwardTunnelToDestination ?c (ts_tunnel_in st0) (ts_dest_out st0) = (e, c', r', w')"
    "written w' = written (ts_dest_out st0) @ concat (map fst xs)" by blast
  have inv: "up_inv st0 st" by (rule served_inv [OF assms(3,8)])
  from up_final_extends [OF inv] fwd obtain more where
    more: "written (ts_dest_out st0) @ concat (map fst xs) = written (ts_dest_out st) @ more" by (auto simp: up_final_def)
  have "ts_up_done st \<longrightarrow> more = []" using inv fwd more by (auto simp: up_inv_def up_final_def)
  note more = more this
  moreover obtain data where "written (ts_dest_out st) = written (ts_dest_out st0) @ data"
    using tunnel_run_extends [OF assms(8)] by blast
  ultimately show ?thesis using xs(2,3) by (intro exI [of _ data] exI [of _ "more @ b"]) auto
qed

text \<open>A tunnel that was just set up, for the channel of \<open>sample_peer\<close>, with \<open>up\<close> on its way to the gateway.\<close>

definition sample_peer :: "arrival list \<Rightarrow> DataConn" where
  "sample_peer as = \<lparr>dc_conn = sample_conn as, dc_channel = sample_channel\<lparr>SendNonces := Some \<lparr>salt = [1, 2, 3, 4], counter = 1\<rparr>\<rparr>,
     dc_target = ''example.com:80'', readBuffer = []\<rparr>"

definition sample_served :: "bytes \<Rightarrow> conn" where
  "sample_served up = (sample_conn [])\<lparr>conn_in := BytesReader (frame_packet (sealed_frame \<lparr>cipher = sample_cipher (replicate 32 1)\<rparr> 1
     TypeConnOpen [9, 9, 9, 9] 0 (envelope (bytes_of_string ''example.com:80''))) @ up)\<rparr>"

lemma sample_peer_ready: "relay_ready (sample_conn bs) (sample_peer as) sample_rng"
  using sample_channel_ok
  by (auto simp: relay_ready_def sample_peer_def sample_conn_def sample_writer_def sample_rng_def wf_nonces_def intro!: channel_ok_sent)

lemma sample_tunnel_starts:
  obtains st where "serveTunnelOptions sample_lib (Some (sample_served up)) (Some sample_session) sample_options
      (\<lambda>t. Inr (sample_conn ds)) sample_rng = Inr st"
    "linked (dc_channel (sample_peer as)) (ts_chan st)" "reader_ok (ts_tunnel_in st)" "reader_stream (ts_tunnel_in st) = up"
    "ts_dest_in st = NetConn ds False EOF" "ts_dest_out st = sample_writer" "ts_tunnel_out st = sample_writer" "rng_fail (ts_rng st) = None"
proof -
  let ?a = "\<lparr>cipher = sample_cipher (replicate 32 1)\<rparr>"
  have a: "NewAEAD sample_lib (c2sKey sample_session) = Inr ?a"
    by (simp add: NewAEAD_def sample_lib_def sample_session_def KeySize_def)
  have b: "NewAEAD sample_lib (s2cKey sample_session) = Inr \<lparr>cipher = sample_cipher (replicate 32 2)\<rparr>"
    by (simp add: NewAEAD_def sample_lib_def sample_session_def KeySize_def)
  have key: "length (s2cKey sample_session) = KeySize" by (simp add: sample_session_def KeySize_def)
  have fit: "fits (bytes_of_string ''example.com:80'', [])" by (simp add: fits_def MaxCiphertextLen_def)
  have valid: "validateTunnelTarget ''example.com:80'' = None" by code_simp
  have peer: "channel_ok (dc_channel (sample_peer as))" using sample_peer_ready by (simp add: relay_ready_def)
  obtain st where st: "serveTunnelOptions sample_lib (Some (sample_served up)) (Some sample_session) sample_options
      (\<lambda>t. Inr (sample_conn ds)) sample_rng = Inr st" "tunnel_ok (ts_chan st)" "tun_receive (ts_chan st) = ?a"
    "NewAEAD sample_lib (s2cKey sample_session) = Inr (tun_send (ts_chan st))" "received (ts_chan st) = 1" "counter (tun_nonces (ts_chan st)) = 0"
    "rng_fail (ts_rng st) = None" "reader_ok (ts_tunnel_in st)" "reader_stream (ts_tunnel_in st) = up"
    "ts_tunnel_out st = conn_out (sample_served up)" "ts_dest_in st = conn_in (sample_conn ds)" "ts_dest_out st = conn_out (sample_conn ds)"
    by (rule serveTunnelOptions_starts [where dial = "\<lambda>t. Inr (sample_conn ds)" and dest = "sample_conn ds" and conn = "sample_served up" and
        slt = "[9, 9, 9, 9]" and rest = up and g = sample_rng and options = sample_options, OF sample_lib_ok key a _ _ _ fit valid])
      (auto simp: sample_rng_def sample_served_def)
  have "linked (dc_channel (sample_peer as)) (ts_chan st)"
    using st b peer by (simp add: linked_def sample_peer_def sample_channel_def)
  with st show ?thesis by (intro that) (simp_all add: sample_conn_def sample_served_def)
qed

theorem end_to_end_upload_witness:
  "\<exists>rs st0 st. relay_run (relay_start (sample_conn [Data [1, 2], Data [3]]) (sample_peer []) sample_rng) rs \<and>
     tunnel_run st0 st \<and> reader_stream (ts_tunnel_in st0) = sent_since sample_writer (conn_out (rl_conn rs)) \<and>
     written (ts_dest_out st) = [1, 2, 3]"
proof -
  let ?c = "sample_conn [Data [1, 2], Data [3]]"
  from relay_finishes [of "relay_start ?c (sample_peer []) sample_rng"] obtain rs where
    rs: "relay_run (relay_start ?c (sample_peer []) sample_rng) rs" "rl_up_done rs" by blast
  have out: "conn_out (dc_conn (sample_peer [])) = sample_writer" by (simp add: sample_peer_def sample_conn_def)
  obtain st0 where st0: "serveTunnelOptions sample_lib (Some (sample_served (sent_since sample_writer (conn_out (rl_conn rs))))) (Some sample_session)
      sample_options (\<lambda>t. Inr (sample_conn [])) sample_rng = Inr st0" "linked (dc_channel (sample_peer [])) (ts_chan st0)" "reader_ok (ts_tunnel_in st0)"
      "reader_stream (ts_tunnel_in st0) = sent_since sample_writer (conn_out (rl_conn rs))" "ts_dest_out st0 = sample_writer"
    by (rule sample_tunnel_starts)
  obtain st where st: "tunnel_run st0 st" "ts_up_done st" using up_finishes served_start [OF st0(1)] by blast
  have "wplan (ts_dest_out st0) = []" using st0(5) by (simp add: sample_writer_def)
  from end_to_end_upload [OF sample_peer_ready rs(1) st0(1-3) st0(4) [folded out] this st(1)] rs st st0(4,5) show ?thesis
    by (auto simp: sample_conn_def sample_writer_def)
qed

text \<open>
  Download from end to end: what the application is given at the local SOCKS5 port is at any time a
  prefix of what the destination sends, in order and nothing else, under the same freedom of
  interleaving and splitting; and it is every byte once the gateway's and the relay's download loop
  have ended by themselves.
\<close>

theorem end_to_end_download:
  assumes "serveTunnelOptions L connp sessionp options dial g0 = Inr st0" "linked (dc_channel target) (ts_chan st0)"
    and "reader_ok (ts_dest_in st0)" "wplan (ts_tunnel_out st0) = []" "rng_fail (ts_rng st0) = None" "tunnel_run st0 st"
    and "relay_ready conn target g" "readBuffer target = []" "reader_ok (conn_in (dc_conn target))"
    and "reader_stream (conn_in (dc_conn target)) = sent_since (ts_tunnel_out st0) (ts_tunnel_out st)"
    and "relay_run (relay_start conn target g) rs"
  shows "\<exists>data rest. written (rl_client_out rs) = written (conn_out conn) @ data \<and> reader_stream (ts_dest_in st0) = data @ rest \<and>
    (ts_down_done st \<and> rl_down_done rs \<longrightarrow> rest = [])"
proof -
  let ?d = "dc_channel target" and ?c = "ts_chan st0"
  have l: "channel_ok ?d" "tunnel_ok ?c" "the (ReceiveAEAD ?d) = tun_send ?c" "receiveDirection ?d = 2"
    "receiveSequence ?d = counter (tun_nonces ?c)" using assms(2) by (simp_all add: linked_def)
  from tunnel_run_sent [OF assms(6) l(2) assms(4,5,3) served_start(2) [OF assms(1)]] obtain xs where sent: "sent_so_far st0 xs st" by blast
  have xs: "\<forall>x \<in> set xs. fits x" "reader_stream (ts_dest_in st0) = concat (map fst xs) @ reader_stream (ts_dest_in st)"
    "ts_down_done st \<longrightarrow> reader_stream (ts_dest_in st) = []"
    "sent_since (ts_tunnel_out st0) (ts_tunnel_out st) = concat (map frame_packet (down_frames ?c xs))"
    using sent by (simp_all add: sent_so_far_def sent_down_def sent_since_def)
  have slt: "length (salt (tun_nonces ?c)) = 4" using tcs.sok_cipher [OF l(2)] by simp
  have inc: "incoming target (salt (tun_nonces ?c)) xs"
    using l slt xs assms(9,10) by (simp add: incoming_def)
  from relay_run_inv [OF assms(11) relay_start_inv [OF assms(7) inc]] obtain k b where
    "concat (map fst xs) = k @ b" "written (rl_client_out rs) = written (conn_out conn) @ k" "rl_down_done rs \<longrightarrow> b = []"
    using assms(8) by (auto simp: relay_inv_def moved_down_def down_sink_def plaintext_def relay_start_def)
  with xs(2,3) show ?thesis by (intro exI [of _ k] exI [of _ "b @ reader_stream (ts_dest_in st)"]) auto
qed

theorem end_to_end_download_witness:
  "\<exists>st0 st rs as. tunnel_run st0 st \<and> relay_run (relay_start (sample_conn []) (sample_peer as) sample_rng) rs \<and>
     reader_stream (ts_dest_in st0) = [72, 105] \<and> written (rl_client_out rs) = [72, 105]"
proof -
  obtain st0 where st0: "serveTunnelOptions sample_lib (Some (sample_served [])) (Some sample_session)
      sample_options (\<lambda>t. Inr (sample_conn [Data [72], Quiet, Data [105]])) sample_rng = Inr st0"
      "\<And>as. linked (dc_channel (sample_peer as)) (ts_chan st0)" "ts_dest_in st0 = NetConn [Data [72], Quiet, Data [105]] False EOF"
      "ts_tunnel_out st0 = sample_writer" "rng_fail (ts_rng st0) = None"
    by (rule sample_tunnel_starts [of "[]" "[Data [72], Quiet, Data [105]]"]) (simp add: sample_peer_def)
  obtain st where st: "tunnel_run st0 st" "ts_down_done st" using down_finishes served_start [OF st0(1)] by blast
  let ?as = "[Data (sent_since sample_writer (ts_tunnel_out st))]"
  from relay_finishes [of "relay_start (sample_conn []) (sample_peer ?as) sample_rng"] obtain rs where
    rs: "relay_run (relay_start (sample_conn []) (sample_peer ?as) sample_rng) rs" "rl_down_done rs" by blast
  have pre: "reader_ok (ts_dest_in st0)" "wplan (ts_tunnel_out st0) = []" "readBuffer (sample_peer ?as) = []"
    "reader_ok (conn_in (dc_conn (sample_peer ?as)))"
    "reader_stream (conn_in (dc_conn (sample_peer ?as))) = sent_since (ts_tunnel_out st0) (ts_tunnel_out st)"
    using st0(3,4) by (simp_all add: sample_writer_def sample_peer_def sample_conn_def)
  from end_to_end_download [OF st0(1) st0(2) pre(1,2) st0(5) st(1) sample_peer_ready pre(3-5) rs(1)] st(2) rs(2) st0(3)
  have "written (rl_client_out rs) = [72, 105]" "reader_stream (ts_dest_in st0) = [72, 105]"
    by (simp_all add: sample_conn_def sample_writer_def)
  with st(1) rs(1) show ?thesis by blast
qed

end
