(* ===== verification/Network_Safety.thy ===== *)
theory Network_Safety
  imports End_To_End
begin

text \<open>
  The two programs with an active network between them.  \<open>End_To_End\<close> says what arrives when the network
  delivers what was sent; here the bytes that arrive at either end are arbitrary, and all that is asked
  of the network is that it has no key (\<open>unforged\<close> of \<open>Secure_Channel\<close>): it can drop, delay, cut,
  repeat, reorder and make up bytes.  First the client's download under any input
  (\<^verbatim>\<open>DataConn.Read\<close> of \<^verbatim>\<open>src/pkg/client/client.go\<close> in the relay of
  \<^verbatim>\<open>src/pkg/socks5/relay.go\<close>), then both directions together.
\<close>

section \<open>What the client takes from any input\<close>

lemma fill_buffer_authentic:
  assumes "channel_ok d" "ReceiveAEAD d = Some a" "reader_ok r" "fill_buffer d r buf = (res, d', r')"
  shows "\<exists>ps fs rest. authentic a (receiveDirection d) TypeDataPayload (receiveSequence d) ps fs \<and>
    reader_stream r = concat (map frame_packet fs) @ rest \<and>
    (case res of
       Inl e \<Rightarrow> buf @ concat ps = []
     | Inr b \<Rightarrow> b = buf @ concat ps \<and> reader_stream r' = rest \<and> reader_ok r' \<and>
         d' = d\<lparr>receiveSequence := receiveSequence d + of_nat (length ps)\<rparr>)"
  using assms
proof (induction d r buf rule: fill_buffer.induct)
  case (1 d r buf)
  note eq = 1(5) [unfolded fill_buffer.simps [of d r buf]]
  show ?case
  proof (cases "buf = []")
    case False
    with eq 1(4) show ?thesis by (intro exI [of _ "[]"] exI [of _ "[]"] exI [of _ "reader_stream r"]) auto
  next
    case True
    obtain res1 d1 r1 where recv: "channel_receive TypeDataPayload d r = (res1, d1, r1)" by (metis surj_pair)
    with ReadDataFrame_channel [OF 1(2), of r] have rd: "ReadDataFrame (Some d) (Some r) = (res1, Some d1, Some r1)" by simp
    show ?thesis
    proof (cases res1)
      case (Inl e)
      with eq rd True have "res = Inl e" by simp
      with True show ?thesis by (intro exI [of _ "[]"] exI [of _ "[]"] exI [of _ "reader_stream r"]) simp
    next
      case (Inr p)
      note only = channel_receive_only [OF 1(2-4) recv [unfolded Inr]]
      then obtain s fill where s: "length s = 4" "fits (p, fill)" "reader_stream r =
        frame_packet (sealed_frame a (receiveDirection d) TypeDataPayload s (receiveSequence d) (envelope p @ fill)) @ reader_stream r1" by blast
      let ?f = "sealed_frame a (receiveDirection d) TypeDataPayload s (receiveSequence d) (envelope p @ fill)"
      from only have d1: "d1 = d\<lparr>receiveSequence := receiveSequence d + 1\<rparr>" "reader_ok r1" by simp_all
      have rest: "fill_buffer d1 r1 p = (res, d', r')" using eq rd True Inr by simp
      have "channel_ok d1" "ReceiveAEAD d1 = Some a" using 1(2,3) d1 by (simp_all add: channel_ok_received)
      from 1(1) [OF _ rd [unfolded Inr, symmetric] refl refl, unfolded option.sel, OF _ this d1(2) rest] True obtain ps fs more where
        IH: "authentic a (receiveDirection d1) TypeDataPayload (receiveSequence d1) ps fs" "reader_stream r1 = concat (map frame_packet fs) @ more"
        "case res of Inl e \<Rightarrow> p @ concat ps = []
          | Inr b \<Rightarrow> b = p @ concat ps \<and> reader_stream r' = more \<and> reader_ok r' \<and> d' = d1\<lparr>receiveSequence := receiveSequence d1 + of_nat (length ps)\<rparr>"
        by blast
      have "authentic a (receiveDirection d) TypeDataPayload (receiveSequence d) (p # ps) (?f # fs)"
        using s(1,2) IH(1) d1(1) by (intro authentic_Cons) simp_all
      with IH(2,3) d1(1) s(3) True show ?thesis
        by (intro exI [of _ "p # ps"] exI [of _ "?f # fs"] exI [of _ more]) (simp add: add.assoc split: sum.splits)
    qed
  qed
qed

text \<open>
  \<open>still_reading d0 n rest b c\<close>: the connection \<open>c\<close>, whose channel was \<open>d0\<close>, has taken \<open>n\<close> frames, still
  has to read \<open>rest\<close>, and holds \<open>b\<close> in its buffer.
\<close>

definition still_reading :: "DataChannel \<Rightarrow> nat \<Rightarrow> bytes \<Rightarrow> bytes \<Rightarrow> DataConn \<Rightarrow> bool" where
  "still_reading d0 n rest b c \<longleftrightarrow>
     channel_ok (dc_channel c) \<and> reader_ok (conn_in (dc_conn c)) \<and> reader_stream (conn_in (dc_conn c)) = rest \<and> readBuffer c = b \<and>
     ReceiveAEAD (dc_channel c) = ReceiveAEAD d0 \<and> receiveDirection (dc_channel c) = receiveDirection d0 \<and>
     receiveSequence (dc_channel c) = receiveSequence d0 + of_nat n"

abbreviation came_in :: "DataChannel \<Rightarrow> nat \<Rightarrow> bytes list \<Rightarrow> frame list \<Rightarrow> bool" where
  "came_in d0 n \<equiv> authentic (the (ReceiveAEAD d0)) (receiveDirection d0) TypeDataPayload (receiveSequence d0 + of_nat n)"

lemma DataConn_Read_authentic:
  assumes "still_reading d0 n rest b c" "DataConn_Read m c = ((data, err), c')"
  obtains ps fs rest' b' where "came_in d0 n ps fs" "rest = concat (map frame_packet fs) @ rest'" "data @ b' = b @ concat ps"
    "err \<noteq> None \<or> still_reading d0 (n + length ps) rest' b' c'"
proof -
  let ?d = "dc_channel c" and ?r = "conn_in (dc_conn c)"
  have c: "channel_ok ?d" "reader_ok ?r" "reader_stream ?r = rest" "readBuffer c = b" "ReceiveAEAD ?d = ReceiveAEAD d0"
    "receiveDirection ?d = receiveDirection d0" "receiveSequence ?d = receiveSequence d0 + of_nat n"
    using assms(1) by (simp_all add: still_reading_def)
  from c(1) obtain a where a: "ReceiveAEAD ?d = Some a" by (auto elim!: channel_okE)
  obtain res d' r' where fill: "fill_buffer ?d ?r (readBuffer c) = (res, d', r')" by (metis surj_pair)
  have a0: "the (ReceiveAEAD d0) = a" using a c(5) by simp
  from fill_buffer_authentic [OF c(1) a c(2) fill] obtain ps fs rest' where
    au: "came_in d0 n ps fs" "rest = concat (map frame_packet fs) @ rest'" and
    res: "case res of Inl e \<Rightarrow> b @ concat ps = []
       | Inr q \<Rightarrow> q = b @ concat ps \<and> reader_stream r' = rest' \<and> reader_ok r' \<and> d' = ?d\<lparr>receiveSequence := receiveSequence ?d + of_nat (length ps)\<rparr>"
    unfolding c(3,4,6,7) a0 by blast
  show ?thesis
  proof (cases res)
    case (Inl e)
    with assms(2) fill have "data = []" "err \<noteq> None" by (auto simp: DataConn_Read_def)
    with au res Inl show ?thesis by (intro that [of ps fs rest' "[]"]) simp_all
  next
    case (Inr q)
    with assms(2) fill have eq: "data = take m q" "c' = c\<lparr>dc_channel := d', dc_conn := (dc_conn c)\<lparr>conn_in := r'\<rparr>, readBuffer := drop m q\<rparr>"
      by (simp_all add: DataConn_Read_def)
    from res Inr have q: "q = b @ concat ps" by simp
    have "data @ drop m q = b @ concat ps" unfolding eq(1) append_take_drop_id q ..
    moreover have "still_reading d0 (n + length ps) rest' (drop m q) c'"
      using eq(2) res Inr c by (simp add: still_reading_def channel_ok_received add.assoc)
    ultimately show ?thesis using au by (intro that [of ps fs rest' "drop m q"]) simp_all
  qed
qed

lemma down_copy_authentic:
  assumes "still_reading d0 n rest b (rl_target st)" "wplan (rl_client_out st) = []" "down_copy st = (res, st')"
  obtains ps fs rest' b' where "came_in d0 n ps fs" "rest = concat (map frame_packet fs) @ rest'"
    "written (rl_client_out st') @ b' = written (rl_client_out st) @ b @ concat ps" "wplan (rl_client_out st') = []"
    "res \<noteq> None \<or> still_reading d0 (n + length ps) rest' b' (rl_target st')"
proof -
  obtain data err c' where rd: "DataConn_Read (32 * 1024) (rl_target st) = ((data, err), c')" by (metis surj_pair)
  from DataConn_Read_authentic [OF assms(1) rd] obtain ps fs rest' b' where
    au: "came_in d0 n ps fs" "rest = concat (map frame_packet fs) @ rest'" "data @ b' = b @ concat ps"
    "err \<noteq> None \<or> still_reading d0 (n + length ps) rest' b' c'" .
  have st': "rl_target st' = c'" "written (rl_client_out st') = written (rl_client_out st) @ data" "wplan (rl_client_out st') = []" "err \<noteq> None \<longrightarrow> res \<noteq> None"
    using assms(2,3) rd by (auto simp: down_copy_def copy_iteration_def target_read_def client_write_def Let_def split: option.splits if_splits)
  with au show ?thesis by (intro that [of ps fs rest' b']) auto
qed

text \<open>The way down of a relay, whatever comes through the tunnel.\<close>

definition came_down :: "relay_state \<Rightarrow> relay_state \<Rightarrow> bool" where
  "came_down st0 st \<longleftrightarrow> wplan (rl_client_out st) = [] \<and>
     (\<exists>ps fs rest b. came_in (rl_chan st0) 0 ps fs \<and> reader_stream (conn_in (rl_conn st0)) = concat (map frame_packet fs) @ rest \<and>
        written (rl_client_out st) @ b = written (rl_client_out st0) @ readBuffer (rl_target st0) @ concat ps \<and>
        (rl_down_done st \<or> still_reading (rl_chan st0) (length ps) rest b (rl_target st)))"

lemma came_down_step:
  assumes "came_down st0 st" "down_copy st = (res, st1)" "\<not> rl_down_done st"
  shows "came_down st0 (st1\<lparr>rl_down_done := res \<noteq> None, rl_write_closed := cl, rl_errs := es\<rparr>)"
proof -
  from assms(1,3) obtain ps fs rest b where h: "came_in (rl_chan st0) 0 ps fs"
    "reader_stream (conn_in (rl_conn st0)) = concat (map frame_packet fs) @ rest" "wplan (rl_client_out st) = []"
    "written (rl_client_out st) @ b = written (rl_client_out st0) @ readBuffer (rl_target st0) @ concat ps"
    "still_reading (rl_chan st0) (length ps) rest b (rl_target st)" by (auto simp: came_down_def)
  from down_copy_authentic [OF h(5,3) assms(2)] obtain qs gs rest' b' where
    s: "came_in (rl_chan st0) (length ps) qs gs" "rest = concat (map frame_packet gs) @ rest'"
    "written (rl_client_out st1) @ b' = written (rl_client_out st) @ b @ concat qs" "wplan (rl_client_out st1) = []"
    "res \<noteq> None \<or> still_reading (rl_chan st0) (length ps + length qs) rest' b' (rl_target st1)" .
  have "came_in (rl_chan st0) 0 (ps @ qs) (fs @ gs)" using h(1) s(1) by (simp add: authentic_append)
  moreover have "written (rl_client_out st1) @ b' = written (rl_client_out st0) @ readBuffer (rl_target st0) @ concat (ps @ qs)"
    using s(3) h(4) by (metis append.assoc concat_append)
  moreover have "reader_stream (conn_in (rl_conn st0)) = concat (map frame_packet (fs @ gs)) @ rest'" using h(2) s(2) by simp
  ultimately show ?thesis using s(4,5) unfolding came_down_def
    by (intro conjI exI [of _ "ps @ qs"] exI [of _ "fs @ gs"] exI [of _ rest'] exI [of _ b']) simp_all
qed

lemma same_down_reading:
  assumes "same_down st st'" "channel_ok (rl_chan st')" "still_reading d0 n rest b (rl_target st)"
  shows "still_reading d0 n rest b (rl_target st')"
  using assms same_down_receives [OF assms(1)] by (simp add: same_down_def still_reading_def)

lemma came_down_other:
  assumes "came_down st0 st" "same_down st st1" "channel_ok (rl_chan st1)"
  shows "came_down st0 (st1\<lparr>rl_up_done := d, rl_errs := es\<rparr>)"
proof -
  have "rl_client_out st1 = rl_client_out st" "rl_down_done st1 = rl_down_done st" using assms(2) by (simp_all add: same_down_def)
  with assms(1) same_down_reading [OF assms(2,3)] show ?thesis unfolding came_down_def by fastforce
qed

lemma relay_run_down:
  assumes "relay_run st0 st" "moved_up st0 up st0" "came_down st0 st0"
  shows "moved_up st0 up st \<and> came_down st0 st"
  using assms(1)
proof (induction rule: rtranclp_induct)
  case (step st st')
  then have inv: "moved_up st0 up st" "came_down st0 st" by simp_all
  have "came_down st0 st'"
    using step(2)
  proof cases
    case (rl_up res st1)
    note same = up_copy_same_down [OF rl_up(3)]
    from came_down_other [OF inv(2) conjunct1 [OF same] moved_up_step(2) [OF inv(1) rl_up(3) conjunct2 [OF same]]]
    show ?thesis unfolding rl_up(1) .
  next
    case (rl_down res st1)
    from came_down_step [OF inv(2) rl_down(3,2)] show ?thesis unfolding rl_down(1) .
  qed
  with relay_step_up [OF step(2) inv(1)] show ?case by simp
qed (use assms(2,3) in simp)

lemma relay_run_authentic:
  assumes "relay_ready conn target g" "reader_ok (conn_in (dc_conn target))" "relay_run (relay_start conn target g) rs"
  obtains ps fs rest b where "came_in (dc_channel target) 0 ps fs"
    "reader_stream (conn_in (dc_conn target)) = concat (map frame_packet fs) @ rest"
    "written (rl_client_out rs) @ b = written (conn_out conn) @ readBuffer target @ concat ps"
proof -
  let ?st = "relay_start conn target g"
  have "still_reading (rl_chan ?st) 0 (reader_stream (conn_in (rl_conn ?st))) (readBuffer target) (rl_target ?st)"
    using assms(1,2) by (simp add: still_reading_def relay_start_def relay_ready_def)
  moreover have "wplan (rl_client_out ?st) = []" using assms(1) by (simp add: relay_start_def relay_ready_def)
  ultimately have "came_down ?st ?st"
    unfolding came_down_def by (intro conjI exI [of _ "[]"] exI [of _ "reader_stream (conn_in (rl_conn ?st))"] exI [of _ "readBuffer target"])
      (simp_all add: relay_start_def)
  from relay_run_down [OF assms(3) relay_start_up [OF assms(1)] this] have "came_down ?st rs" by simp
  then show ?thesis by (auto simp: came_down_def relay_start_def intro: that)
qed

lemma relay_run_extends: "relay_run st0 st \<Longrightarrow> \<exists>more. written (rl_client_out st) = written (rl_client_out st0) @ more"
proof (induction rule: rtranclp_induct)
  case (step st st')
  have "\<exists>more. written (rl_client_out st') = written (rl_client_out st) @ more"
    using step(2)
  proof cases
    case (rl_up res st1)
    with up_copy_same_down [OF rl_up(3)] show ?thesis by (simp add: same_down_def)
  next
    case (rl_down res st1)
    then show ?thesis
      by (auto simp: down_copy_def copy_iteration_def target_read_def client_write_def Let_def
          split: option.splits if_splits prod.splits dest!: io_Write_written)
  qed
  with step(3) show ?case by auto
qed simp

section \<open>Both directions\<close>

text \<open>The packets that were put on a connection after it had sent \<open>w0\<close>.\<close>

definition packets_since :: "writer \<Rightarrow> writer \<Rightarrow> bytes list" where
  "packets_since w0 w = drop (length (sent w0)) (sent w)"

lemma frames_few: "\<forall>x \<in> set xs. fst x \<noteq> [] \<Longrightarrow> length xs \<le> length (concat (map fst xs))"
proof (induction xs)
  case (Cons x xs)
  then have "1 \<le> length (fst x)" by (simp add: Suc_le_eq)
  with Cons show ?case by simp
qed simp

lemma cut_prefix:
  assumes "w @ b = w0 @ as" "as @ qs = bs" "\<exists>d. w = w0 @ d"
  shows "\<exists>data rest. w = w0 @ data \<and> bs = data @ rest"
  using assms by fastforce

text \<open>
  Whatever the network between the two programs does to the bytes of a connection once the tunnel
  stands, as long as it cannot make up frames that a key opens: what the destination has received is at
  any time a prefix of what the application sends, and what the application has received is a prefix of
  what the destination sends. So nothing is altered, inserted, repeated or reordered, and nothing that is
  missing is skipped over; for every interleaving of the goroutines in both programs, and for fewer than
  \<open>2^64\<close> bytes.
\<close>

theorem network_cannot_alter:
  assumes "relay_ready conn target g" "reader_ok (conn_in (dc_conn target))" "relay_run (relay_start conn target g) rs"
    and "serveTunnelOptions L connp sessionp options dial g0 = Inr st0" "tunnel_run st0 st" "linked (dc_channel target) (ts_chan st0)"
    and "reader_ok (ts_tunnel_in st0)" "reader_ok (ts_dest_in st0)" "wplan (ts_tunnel_out st0) = []" "rng_fail (ts_rng st0) = None"
  shows "(length (reader_stream (conn_in conn)) < 2 ^ 64 \<and>
       unforged (tun_receive (ts_chan st0)) 1 TypeDataPayload (packets_since (conn_out (dc_conn target)) (conn_out (rl_conn rs)))
         (reader_stream (ts_tunnel_in st0)) \<longrightarrow>
       passes_on (ts_dest_out st0) (ts_dest_out st) (reader_stream (conn_in conn)) False) \<and>
    (length (reader_stream (ts_dest_in st0)) < 2 ^ 64 \<and>
       unforged (tun_send (ts_chan st0)) 2 TypeDataPayload (packets_since (ts_tunnel_out st0) (ts_tunnel_out st))
         (reader_stream (conn_in (dc_conn target))) \<longrightarrow>
       passes_on (conn_out conn) (rl_client_out rs) (readBuffer target @ reader_stream (ts_dest_in st0)) False)"
proof (intro conjI impI; elim conjE)
  let ?d = "dc_channel target" and ?c = "ts_chan st0"
  have l: "channel_ok ?d" "tunnel_ok ?c" "the (channel_AEAD ?d) = tun_receive ?c" "sendDirection ?d = 1"
    "counter (the (SendNonces ?d)) = received ?c" "the (ReceiveAEAD ?d) = tun_send ?c" "receiveDirection ?d = 2"
    "receiveSequence ?d = counter (tun_nonces ?c)" using assms(6) by (simp_all add: linked_def)
  have ok: "cipher_ok (cipher (tun_receive ?c))" "cipher_ok (cipher (tun_send ?c))" "length (salt (tun_nonces ?c)) = 4"
    "length (salt (the (SendNonces ?d))) = 4" "IsValidType TypeDataPayload"
    using l(1,2) by (auto simp: tunnel_ok_def wf_nonces_def IsValidType_def elim!: channel_okE)
  {
    let ?up = "packets_since (conn_out (dc_conn target)) (conn_out (rl_conn rs))"
    assume few: "length (reader_stream (conn_in conn)) < 2 ^ 64" and net: "unforged (tun_receive ?c) 1 TypeDataPayload ?up (reader_stream (ts_tunnel_in st0))"
    from relay_run_up [OF assms(3) relay_start_up [OF assms(1)]] obtain k b where
      "reader_stream (conn_in conn) = k @ b" "up_sink ?d (conn_out (dc_conn target)) rs k" by (auto simp: moved_up_def relay_start_def)
    then obtain xs where
      xs: "reader_stream (conn_in conn) = concat (map fst xs) @ b" "\<forall>x \<in> set xs. fits x" "\<forall>x \<in> set xs. fst x \<noteq> []" "?up = map frame_packet (up_frames ?d xs)"
      by (auto simp: up_sink_def packets_since_def)
    from tunnel_run_authentic [OF assms(4,5) l(2) assms(7)] obtain ps fs rest n where
      au: "authentic (tun_receive ?c) 1 TypeDataPayload (received ?c) ps fs" "reader_stream (ts_tunnel_in st0) = concat (map frame_packet fs) @ rest"
      "written (ts_dest_out st) = written (ts_dest_out st0) @ take n (concat ps)" .
    have "length xs < 2 ^ 64" using few xs(1) frames_few [OF xs(3)] by simp
    from authentic_prefix [OF ok(1,5,4) xs(2) this au(1,2)] net xs(4) l obtain qs where "map fst xs = ps @ qs" by auto
    with xs(1) have "reader_stream (conn_in conn) = take n (concat ps) @ drop n (concat ps) @ concat qs @ b" by simp
    with au(3) show "passes_on (ts_dest_out st0) (ts_dest_out st) (reader_stream (conn_in conn)) False" unfolding passes_on_def by blast
  }
  {
    let ?down = "packets_since (ts_tunnel_out st0) (ts_tunnel_out st)"
    assume few: "length (reader_stream (ts_dest_in st0)) < 2 ^ 64" and net: "unforged (tun_send ?c) 2 TypeDataPayload ?down (reader_stream (conn_in (dc_conn target)))"
    from tunnel_run_sent [OF assms(5) l(2) assms(9,10,8) served_start(2) [OF assms(4)]] obtain xs where "sent_so_far st0 xs st" by blast
    then have xs: "\<forall>x \<in> set xs. fits x" "\<forall>x \<in> set xs. fst x \<noteq> []" "reader_stream (ts_dest_in st0) = concat (map fst xs) @ reader_stream (ts_dest_in st)"
      "?down = map frame_packet (down_frames ?c xs)"
      by (simp_all add: sent_so_far_def sent_down_def packets_since_def)
    from relay_run_authentic [OF assms(1,2,3)] obtain ps fs rest b where
      au: "came_in ?d 0 ps fs" "reader_stream (conn_in (dc_conn target)) = concat (map frame_packet fs) @ rest"
      "written (rl_client_out rs) @ b = written (conn_out conn) @ readBuffer target @ concat ps" .
    have n: "length xs < 2 ^ 64" using few xs(3) frames_few [OF xs(2)] by simp
    have "came_in ?d 0 = authentic (tun_send ?c) 2 TypeDataPayload (counter (tun_nonces ?c))" using l by simp
    from authentic_prefix [OF ok(2,5,3) xs(1) n au(1) [unfolded this] au(2)] net xs(4) obtain qs where "map fst xs = ps @ qs" by auto
    with xs(3) have all: "(readBuffer target @ concat ps) @ concat qs @ reader_stream (ts_dest_in st) = readBuffer target @ reader_stream (ts_dest_in st0)"
      by simp
    from relay_run_extends [OF assms(3)] have "\<exists>d. written (rl_client_out rs) = written (conn_out conn) @ d" by (simp add: relay_start_def)
    from cut_prefix [OF au(3) all this]
    show "passes_on (conn_out conn) (rl_client_out rs) (readBuffer target @ reader_stream (ts_dest_in st0)) False" unfolding passes_on_def by blast
  }
qed

text \<open>Such a network may deliver all packets of the relay twice.\<close>

lemma replay_unforged:
  assumes "relay_ready conn target g" "relay_run (relay_start conn target g) rs"
  shows "unforged a dir t (packets_since (conn_out (dc_conn target)) (conn_out (rl_conn rs)))
    (concat (packets_since (conn_out (dc_conn target)) (conn_out (rl_conn rs)) @ packets_since (conn_out (dc_conn target)) (conn_out (rl_conn rs))))"
proof -
  let ?ps = "packets_since (conn_out (dc_conn target)) (conn_out (rl_conn rs))" and ?d = "dc_channel target"
  from relay_run_up [OF assms(2) relay_start_up [OF assms(1)]] obtain k where "up_sink ?d (conn_out (dc_conn target)) rs k"
    by (auto simp: moved_up_def relay_start_def)
  then obtain xs where "\<forall>x \<in> set xs. fits x \<and> fst x \<noteq> []" "sent (conn_out (rl_conn rs)) = sent (conn_out (dc_conn target)) @ map frame_packet (up_frames ?d xs)"
    unfolding up_sink_def by blast
  then have xs: "\<forall>x \<in> set xs. fits x" "?ps = map frame_packet (up_frames ?d xs)" by (simp_all add: packets_since_def)
  have chan: "channel_ok ?d" using assms(1) by (simp add: relay_ready_def)
  have data: "IsValidType TypeDataPayload" by (simp add: IsValidType_def)
  have "sendable f" if "f \<in> set (up_frames ?d xs)" for f
    by (rule sealed_seq_sendable [OF _ _ data xs(1) that]) (use dcs.sok_cipher [OF chan] in simp_all)
  then show ?thesis using unforged_replays [of "up_frames ?d xs @ up_frames ?d xs" ?ps] unfolding xs(2) by auto
qed

end
