(* ===== verification/Config.thy ===== *)
theory Config
  imports Go_IP
begin

text \<open>
  Packages \<^verbatim>\<open>config\<close> (\<^verbatim>\<open>src/pkg/config/config.go\<close>) and \<^verbatim>\<open>logger\<close>
  (\<^verbatim>\<open>src/pkg/logger/logger.go\<close>): the configuration and what \<^verbatim>\<open>Load\<close> checks of it, and the
  level that decides which log calls produce output.  The file system and the YAML library are
  parameters: \<open>readFile\<close> is the content of a file or an error, \<open>unmarshal\<close> the configuration that
  \<^verbatim>\<open>yaml.Unmarshal\<close> fills in.  The standard functions on file paths are those of a Unix system.
\<close>

section \<open>config.go\<close>

record Config =
  conf_ListenAddress :: string
  conf_ServerAddress :: string
  conf_LogLevel :: string
  conf_CertFile :: string
  conf_KeyFile :: string
  conf_FallbackAddress :: string
  conf_ServerName :: string
  conf_CAFile :: string
  conf_AllowedDestinations :: "string list"
  conf_PaddingEnabled :: "bool option"
  conf_JitterMS :: int
  conf_AllowRemoteBind :: bool
  conf_PprofAddress :: string

datatype config_error =
    ReadConfigErr nat
  | ParseConfigErr nat
  | JitterOutOfRange
  | PprofAddressErr addr_error
  | PprofNotLoopback
  | PprofPort

definition validatePprofAddress :: "string \<Rightarrow> config_error option" where
  "validatePprofAddress address =
     (case SplitHostPort address of
        Inl e \<Rightarrow> Some (PprofAddressErr e)
      | Inr (host, portText) \<Rightarrow>
          if (case ParseIP host of None \<Rightarrow> True | Some ip \<Rightarrow> \<not> IsLoopback ip) then Some PprofNotLoopback
          else
            (case Atoi portText of
               None \<Rightarrow> Some PprofPort
             | Some port \<Rightarrow> if port < 1 \<or> port > 65535 then Some PprofPort else None))"

definition Load ::
  "(string \<Rightarrow> (nat, bytes) result) \<Rightarrow> (bytes \<Rightarrow> (nat, Config) result) \<Rightarrow> string \<Rightarrow> (config_error, Config) result" where
  "Load readFile unmarshal path =
     (case readFile path of
        Inl e \<Rightarrow> Inl (ReadConfigErr e)
      | Inr data \<Rightarrow>
          (case unmarshal data of
             Inl e \<Rightarrow> Inl (ParseConfigErr e)
           | Inr cfg \<Rightarrow>
               if conf_JitterMS cfg < 0 \<or> conf_JitterMS cfg > 5000 then Inl JitterOutOfRange
               else if conf_PprofAddress cfg \<noteq> '''' then
                 (case validatePprofAddress (conf_PprofAddress cfg) of
                    Some e \<Rightarrow> Inl e
                  | None \<Rightarrow> Inr cfg)
               else Inr cfg))"

section \<open>logger.go\<close>

text \<open>Levels are the integers of \<^verbatim>\<open>log/slog\<close>; a record is written when its level reaches the logger's.\<close>

definition LevelDebug :: int where "LevelDebug = -4"
definition LevelInfo :: int where "LevelInfo = 0"
definition LevelWarn :: int where "LevelWarn = 4"
definition LevelError :: int where "LevelError = 8"

record Logger =
  log_level :: int
  log_out :: "(int \<times> string) list"

definition default_Logger :: Logger where
  "default_Logger = \<lparr>log_level = LevelInfo, log_out = []\<rparr>"

definition SetLevel :: "string \<Rightarrow> Logger \<Rightarrow> Logger" where
  "SetLevel level l =
     l\<lparr>log_level :=
       (if level = ''debug'' then LevelDebug
        else if level = ''warn'' \<or> level = ''warning'' then LevelWarn
        else if level = ''error'' then LevelError
        else LevelInfo)\<rparr>"

definition log_at :: "int \<Rightarrow> string \<Rightarrow> Logger \<Rightarrow> Logger" where
  "log_at lv message l = (if lv \<ge> log_level l then l\<lparr>log_out := log_out l @ [(lv, message)]\<rparr> else l)"

definition log_Info :: "string \<Rightarrow> Logger \<Rightarrow> Logger" where "log_Info = log_at LevelInfo"
definition log_Warn :: "string \<Rightarrow> Logger \<Rightarrow> Logger" where "log_Warn = log_at LevelWarn"
definition log_Error :: "string \<Rightarrow> Logger \<Rightarrow> Logger" where "log_Error = log_at LevelError"

section \<open>File paths\<close>

fun split_path :: "string \<Rightarrow> string list" where
  "split_path [] = [[]]"
| "split_path (c # s) =
     (if c = CHR ''/'' then [] # split_path s
      else (case split_path s of [] \<Rightarrow> [[c]] | x # xs \<Rightarrow> (c # x) # xs))"

definition filepath_IsAbs :: "string \<Rightarrow> bool" where
  "filepath_IsAbs p \<longleftrightarrow> p \<noteq> [] \<and> hd p = CHR ''/''"

text \<open>
  The elements of the cleaned path, in reverse: empty elements and ``.'' are dropped, ``..'' takes the
  element before it away, and is kept at the start of a path that is not rooted.
\<close>

fun clean_elements :: "bool \<Rightarrow> string list \<Rightarrow> string list \<Rightarrow> string list" where
  "clean_elements rooted [] out = rev out"
| "clean_elements rooted (x # xs) out =
     (if x = [] \<or> x = ''.'' then clean_elements rooted xs out
      else if x = ''..'' then
        (case out of
           [] \<Rightarrow> clean_elements rooted xs (if rooted then [] else [x])
         | o1 # rest \<Rightarrow> clean_elements rooted xs (if o1 = ''..'' then x # out else rest))
      else clean_elements rooted xs (x # out))"

definition filepath_Clean :: "string \<Rightarrow> string" where
  "filepath_Clean p =
     (let rooted = filepath_IsAbs p;
          body = join_with ''/'' (clean_elements rooted (split_path p) [])
      in if rooted then ''/'' @ body else if body = [] then ''.'' else body)"

definition filepath_Join :: "string \<Rightarrow> string \<Rightarrow> string" where
  "filepath_Join a b =
     (if a = [] then (if b = [] then [] else filepath_Clean b)
      else filepath_Clean (a @ ''/'' @ b))"

text \<open>The directory: what precedes the last slash, with the slash, cleaned.\<close>

definition filepath_Dir :: "string \<Rightarrow> string" where
  "filepath_Dir p = filepath_Clean (rev (dropWhile (\<lambda>c. c \<noteq> CHR ''/'') (rev p)))"

definition filepath_Abs :: "(nat, string) result \<Rightarrow> string \<Rightarrow> (nat, string) result" where
  "filepath_Abs getwd p =
     (if filepath_IsAbs p then Inr (filepath_Clean p)
      else (case getwd of Inl e \<Rightarrow> Inl e | Inr wd \<Rightarrow> Inr (filepath_Join wd p)))"

section \<open>What a loaded configuration satisfies\<close>

lemma validatePprofAddress_None:
  "validatePprofAddress address = None \<longleftrightarrow>
     (\<exists>host portText ip port. SplitHostPort address = Inr (host, portText) \<and> ParseIP host = Some ip \<and> IsLoopback ip \<and>
        Atoi portText = Some port \<and> 1 \<le> port \<and> port \<le> 65535)"
  by (auto simp: validatePprofAddress_def split: sum.splits option.splits if_splits)

lemma Load_Inr:
  "Load readFile unmarshal path = Inr cfg \<longleftrightarrow>
     (\<exists>data. readFile path = Inr data \<and> unmarshal data = Inr cfg) \<and> 0 \<le> conf_JitterMS cfg \<and> conf_JitterMS cfg \<le> 5000 \<and>
     (conf_PprofAddress cfg = '''' \<or> validatePprofAddress (conf_PprofAddress cfg) = None)"
  by (auto simp: Load_def split: sum.splits option.splits if_splits)

lemma SetLevel_filters:
  "log_out (log_Info m (SetLevel level l)) =
     log_out l @ (if level \<in> {''warn'', ''warning'', ''error''} then [] else [(LevelInfo, m)])"
  by (auto simp: SetLevel_def log_Info_def log_at_def LevelInfo_def LevelWarn_def LevelError_def LevelDebug_def)

end
