(* ===== verification/Commands.thy ===== *)
theory Commands
  imports Socks5_Relay Gateway_Server Config
begin

text \<open>
  The two programs: \<^verbatim>\<open>main\<close> in \<^verbatim>\<open>src/cmd/client/main.go\<close> and \<^verbatim>\<open>run\<close> in
  \<^verbatim>\<open>src/cmd/server/main.go\<close>, from the parsed flags to the servers they start.  A fatal exit is a
  value of the error type.  \<open>env\<close> is the value of \<^verbatim>\<open>GHOST_PSK\<close>, empty when it is not set;
  \<open>getwd\<close> is the working directory.
\<close>

section \<open>cmd/client\<close>

datatype client_exit =
    FatalConfig config_error
  | FatalConfigPath nat
  | RefusingBind string
  | ServerNotConfigured
  | FatalClient client_error

definition loopback_names :: "string list" where
  "loopback_names = [''127.0.0.1'', ''::1'', ''localhost'']"

text \<open>The listen address and the client whose \<^verbatim>\<open>Dial\<close> the SOCKS5 server uses.\<close>

definition client_main ::
  "(string \<Rightarrow> (nat, bytes) result) \<Rightarrow> (bytes \<Rightarrow> (nat, Config) result) \<Rightarrow> (nat, string) result \<Rightarrow> string \<Rightarrow> string \<Rightarrow>
   (client_exit, string \<times> Client) result" where
  "client_main readFile unmarshal getwd env configPath =
     (case Load readFile unmarshal configPath of
        Inl e \<Rightarrow> Inl (FatalConfig e)
      | Inr cfg \<Rightarrow>
          (case filepath_Abs getwd configPath of
             Inl e \<Rightarrow> Inl (FatalConfigPath e)
           | Inr configAbs \<Rightarrow>
               let caFile =
                     (if conf_CAFile cfg \<noteq> '''' \<and> \<not> filepath_IsAbs (conf_CAFile cfg)
                      then filepath_Join (filepath_Dir configAbs) (conf_CAFile cfg) else conf_CAFile cfg);
                   listen = (if conf_ListenAddress cfg = '''' then ''127.0.0.1:1080'' else conf_ListenAddress cfg)
               in if (case SplitHostPort listen of
                        Inl _ \<Rightarrow> True
                      | Inr (host, _) \<Rightarrow> \<not> conf_AllowRemoteBind cfg \<and> host \<notin> set loopback_names)
                  then Inl (RefusingBind listen)
                  else if conf_ServerAddress cfg = '''' \<or> conf_ServerName cfg = '''' then Inl ServerNotConfigured
                  else
                    (case FromEnvironment env (conf_ServerAddress cfg) (conf_ServerName cfg) of
                       Inl e \<Rightarrow> Inl (FatalClient e)
                     | Inr c \<Rightarrow>
                         Inr (listen, c\<lparr>CAFile := caFile, client_PaddingEnabled := conf_PaddingEnabled cfg,
                           client_JitterMS := conf_JitterMS cfg\<rparr>))))"

section \<open>cmd/server\<close>

definition minPSKLen :: nat where "minPSKLen = 16"

datatype run_error =
    RunConfigErr config_error
  | NoListenAddress
  | RunPSKNotSet
  | RunPSKDecodeErr hex_error
  | RunPSKTooShort
  | RunTLSErr tls_error
  | RunListenErr nat

record gateway_setup =
  gs_listen :: string
  gs_server :: Server
  gs_options :: TunnelOptions
  gs_fallback :: string
  gs_pprof :: "string option"

text \<open>
  Everything \<^verbatim>\<open>run\<close> decides before it serves; \<open>netListen\<close> is the outcome of opening the
  listener.  The profiling server runs when an address is configured.
\<close>

definition run_setup ::
  "tls_lib \<Rightarrow> (string \<Rightarrow> (nat, bytes) result) \<Rightarrow> (bytes \<Rightarrow> (nat, Config) result) \<Rightarrow> (string \<Rightarrow> nat option) \<Rightarrow>
   string \<Rightarrow> string \<Rightarrow> string \<Rightarrow> (run_error, gateway_setup) result" where
  "run_setup T readFile unmarshal netListen env cfgPath listenFlag =
     (case Load readFile unmarshal cfgPath of
        Inl e \<Rightarrow> Inl (RunConfigErr e)
      | Inr cfg \<Rightarrow>
          let listen = (if listenFlag \<noteq> '''' then listenFlag else conf_ListenAddress cfg)
          in if listen = '''' then Inl NoListenAddress
             else if env = '''' then Inl RunPSKNotSet
             else
               (case hex_DecodeString env of
                  Inl e \<Rightarrow> Inl (RunPSKDecodeErr e)
                | Inr psk \<Rightarrow>
                    if length psk < minPSKLen then Inl RunPSKTooShort
                    else
                      (case TLSServerConfig T (conf_CertFile cfg) (conf_KeyFile cfg) of
                         Inl e \<Rightarrow> Inl (RunTLSErr e)
                       | Inr config \<Rightarrow>
                           (case netListen listen of
                              Some e \<Rightarrow> Inl (RunListenErr e)
                            | None \<Rightarrow>
                                Inr \<lparr>gs_listen = listen,
                                     gs_server = \<lparr>srv_PSK = psk, Exporter = exportServerKeyingMaterial,
                                       Prepare = Some (prepareGatewayTLS T (Some config)), OnFallback = True, OnAuthenticated = True\<rparr>,
                                     gs_options = \<lparr>AllowedDestinations = conf_AllowedDestinations cfg,
                                       opt_PaddingEnabled = conf_PaddingEnabled cfg, opt_JitterMS = conf_JitterMS cfg\<rparr>,
                                     gs_fallback = conf_FallbackAddress cfg,
                                     gs_pprof = (if conf_PprofAddress cfg \<noteq> '''' then Some (conf_PprofAddress cfg) else None)\<rparr>))))"

text \<open>
  The callbacks that \<^verbatim>\<open>run\<close> installs: the fallback relays to the decoy, an authenticated connection
  is served as a tunnel and closed afterwards.
\<close>

datatype gateway_outcome =
    OutClosed conn
  | OutProxy proxy_start
  | OutTunnel "(tunnel_error, tunnel_state) result"

fun run_callback ::
  "(string \<Rightarrow> string \<Rightarrow> bool) \<Rightarrow> (string \<Rightarrow> (tunnel_error, IP list) result) \<Rightarrow> (string \<Rightarrow> (tunnel_error, conn) result) \<Rightarrow>
   (string \<Rightarrow> conn option) \<Rightarrow> crypto_lib \<Rightarrow> gateway_setup \<Rightarrow> rng \<Rightarrow> disposition \<Rightarrow> gateway_outcome" where
  "run_callback unifold lookup dialTCP dialDecoy L s g (Closed c) = OutClosed c"
| "run_callback unifold lookup dialTCP dialDecoy L s g (FellBack c replay) =
     OutProxy (proxyToNginx dialDecoy c replay (gs_fallback s))"
| "run_callback unifold lookup dialTCP dialDecoy L s g (Tunnelled c session) =
     OutTunnel (ServeTunnelWithOptions unifold lookup dialTCP L (Some c) (Some session) (gs_options s) g)"

section \<open>Properties\<close>

lemma client_main_Inr:
  assumes "client_main readFile unmarshal getwd env path = Inr (listen, c)"
  obtains cfg where "Load readFile unmarshal path = Inr cfg"
    "\<exists>host port. SplitHostPort listen = Inr (host, port) \<and> (conf_AllowRemoteBind cfg \<or> host \<in> set loopback_names)"
    "hex_DecodeString env = Inr (PSK c)" "16 \<le> length (PSK c)" "ServerAddress c = conf_ServerAddress cfg" "ServerAddress c \<noteq> ''''"
    "ServerName c = conf_ServerName cfg" "ServerName c \<noteq> ''''" "client_JitterMS c = conf_JitterMS cfg"
    "client_PaddingEnabled c = conf_PaddingEnabled cfg" "tlsConfig c = None"
  using assms
  by (auto simp: client_main_def FromEnvironment_def New_def Let_def split: sum.splits prod.splits if_splits)

lemma run_setup_Inr:
  assumes "run_setup T readFile unmarshal netListen env path flag = Inr s"
  obtains cfg config where "Load readFile unmarshal path = Inr cfg" "TLSServerConfig T (conf_CertFile cfg) (conf_KeyFile cfg) = Inr config"
    "Prepare (gs_server s) = Some (prepareGatewayTLS T (Some config))" "Exporter (gs_server s) = exportServerKeyingMaterial"
    "hex_DecodeString env = Inr (srv_PSK (gs_server s))" "16 \<le> length (srv_PSK (gs_server s))"
    "OnFallback (gs_server s)" "OnAuthenticated (gs_server s)" "gs_pprof s = None \<or> gs_pprof s = Some (conf_PprofAddress cfg)"
    "opt_JitterMS (gs_options s) = conf_JitterMS cfg" "gs_pprof s \<noteq> Some ''''"
  using assms
  by (auto simp: run_setup_def minPSKLen_def Let_def split: sum.splits prod.splits if_splits option.splits)

text \<open>
  C27.  The client program does not become an open proxy by accident: when it starts, its listener is
  bound to a loopback name, unless the configuration allows a remote bind explicitly; it knows a
  server address and name, has a key of at least 16 bytes, and its jitter is between 0 and 5000 ms.
\<close>

theorem client_main_safe:
  assumes "client_main readFile unmarshal getwd env path = Inr (listen, c)"
  shows "\<exists>cfg data host port. readFile path = Inr data \<and> unmarshal data = Inr cfg \<and> SplitHostPort listen = Inr (host, port) \<and>
    (\<not> conf_AllowRemoteBind cfg \<longrightarrow> host \<in> {''127.0.0.1'', ''::1'', ''localhost''}) \<and>
    ServerAddress c \<noteq> '''' \<and> ServerName c \<noteq> '''' \<and> 16 \<le> length (PSK c) \<and> 0 \<le> client_JitterMS c \<and> client_JitterMS c \<le> 5000"
proof -
  from assms obtain cfg where cfg: "Load readFile unmarshal path = Inr cfg"
    "\<exists>host port. SplitHostPort listen = Inr (host, port) \<and> (conf_AllowRemoteBind cfg \<or> host \<in> set loopback_names)"
    "16 \<le> length (PSK c)" "ServerAddress c \<noteq> ''''" "ServerName c \<noteq> ''''" "client_JitterMS c = conf_JitterMS cfg"
    by (rule client_main_Inr)
  from cfg(1) obtain data where "readFile path = Inr data" "unmarshal data = Inr cfg" "0 \<le> conf_JitterMS cfg" "conf_JitterMS cfg \<le> 5000"
    by (auto simp: Load_Inr)
  with cfg show ?thesis by (auto simp: loopback_names_def)
qed

definition sample_Config :: Config where
  "sample_Config =
     \<lparr>conf_ListenAddress = '''', conf_ServerAddress = ''127.0.0.1:443'', conf_LogLevel = ''info'', conf_CertFile = ''server.crt'',
      conf_KeyFile = ''server.key'', conf_FallbackAddress = '''', conf_ServerName = ''localhost'', conf_CAFile = ''server.crt'',
      conf_AllowedDestinations = [], conf_PaddingEnabled = Some True, conf_JitterMS = 0, conf_AllowRemoteBind = False,
      conf_PprofAddress = ''127.0.0.1:6060''\<rparr>"

definition sample_env :: string where
  "sample_env = ''000102030405060708090a0b0c0d0e0f''"

theorem client_main_safe_witness:
  "\<exists>c. client_main (\<lambda>p. Inr []) (\<lambda>d. Inr sample_Config) (Inr ''/etc/ghost'') sample_env ''client.yaml'' = Inr (''127.0.0.1:1080'', c) \<and>
     CAFile c = ''/etc/ghost/server.crt'' \<and> 16 \<le> length (PSK c)"
proof -
  have run: "map_sum id (\<lambda>(l, c). (l, CAFile c))
      (client_main (\<lambda>p. Inr []) (\<lambda>d. Inr sample_Config) (Inr ''/etc/ghost'') sample_env ''client.yaml'') =
      Inr (''127.0.0.1:1080'', ''/etc/ghost/server.crt'')" by code_simp
  then obtain c where c: "client_main (\<lambda>p. Inr []) (\<lambda>d. Inr sample_Config) (Inr ''/etc/ghost'') sample_env ''client.yaml'' =
      Inr (''127.0.0.1:1080'', c)" "CAFile c = ''/etc/ghost/server.crt''" by (auto simp: map_sum_def split: sum.splits)
  with client_main_safe [OF c(1)] show ?thesis by blast
qed

text \<open>
  C28.  The two programs agree on the key: started with the same value of \<^verbatim>\<open>GHOST_PSK\<close>, the client
  and the gateway hold the same pre-shared key, of at least 16 bytes; and a profiling server is only
  ever bound to a loopback address.
\<close>

theorem programs_share_key:
  assumes "client_main readFile unmarshal getwd env path = Inr (listen, c)"
    and "run_setup T readFile' unmarshal' netListen env path' flag = Inr s"
  shows "srv_PSK (gs_server s) = PSK c \<and> 16 \<le> length (PSK c) \<and>
    (case gs_pprof s of
       None \<Rightarrow> True
     | Some a \<Rightarrow> (\<exists>host port ip. SplitHostPort a = Inr (host, port) \<and> ParseIP host = Some ip \<and> IsLoopback ip))"
proof -
  from assms(1) have c: "hex_DecodeString env = Inr (PSK c)" "16 \<le> length (PSK c)" by (rule client_main_Inr, simp)+
  from assms(2) obtain cfg where s: "Load readFile' unmarshal' path' = Inr cfg" "hex_DecodeString env = Inr (srv_PSK (gs_server s))"
    "gs_pprof s = None \<or> gs_pprof s = Some (conf_PprofAddress cfg)" "gs_pprof s \<noteq> Some ''''"
    by (rule run_setup_Inr)
  from s(1,3,4) have "case gs_pprof s of None \<Rightarrow> True | Some a \<Rightarrow> validatePprofAddress a = None"
    by (auto simp: Load_Inr)
  with c s(2) show ?thesis by (auto simp: validatePprofAddress_None split: option.splits)
qed

theorem programs_share_key_witness:
  "\<exists>listen c s. client_main (\<lambda>p. Inr []) (\<lambda>d. Inr sample_Config) (Inr ''/etc/ghost'') sample_env ''client.yaml'' = Inr (listen, c) \<and>
     run_setup (refusing_tls\<lparr>lib_KeyPair := \<lambda>a b. Some 0\<rparr>) (\<lambda>p. Inr []) (\<lambda>d. Inr sample_Config) (\<lambda>a. None) sample_env ''server.yaml'' ''0.0.0.0:443'' = Inr s \<and>
     srv_PSK (gs_server s) = PSK c"
proof -
  have "\<not> isl (client_main (\<lambda>p. Inr []) (\<lambda>d. Inr sample_Config) (Inr ''/etc/ghost'') sample_env ''client.yaml'')" by code_simp
  then obtain listen c where c: "client_main (\<lambda>p. Inr []) (\<lambda>d. Inr sample_Config) (Inr ''/etc/ghost'') sample_env ''client.yaml'' = Inr (listen, c)"
    by (metis isl_def obj_sumE surj_pair)
  have load: "Load (\<lambda>p. Inr []) (\<lambda>d. Inr sample_Config) ''server.yaml'' = Inr sample_Config" by code_simp
  have key: "hex_DecodeString sample_env = Inr (map of_nat [0..<16])" by code_simp
  have env: "sample_env \<noteq> ''''" by (simp add: sample_env_def)
  have files: "conf_CertFile sample_Config = ''server.crt''" "conf_KeyFile sample_Config = ''server.key''" by (simp_all add: sample_Config_def)
  obtain s where s: "run_setup (refusing_tls\<lparr>lib_KeyPair := \<lambda>a b. Some 0\<rparr>) (\<lambda>p. Inr []) (\<lambda>d. Inr sample_Config) (\<lambda>a. None) sample_env ''server.yaml'' ''0.0.0.0:443'' = Inr s"
    using env by (simp add: run_setup_def load key files TLSServerConfig_def minPSKLen_def)
  from programs_share_key [OF c s] c s show ?thesis by blast
qed


lemma run_setup_decoy:
  assumes "run_setup T readFile unmarshal netListen env path flag = Inr s"
    and "conn_in conn = NetConn as b e" "conn_deadline_err conn = None" "net_stream as True = x # xs" "x \<noteq> 0x16"
    and "gs_fallback s \<noteq> ''''" "dialDecoy (gs_fallback s) = Some upstream"
  obtains r st0 where "run_callback unifold lookup dialTCP dialDecoy L s g (handle L (gs_server s) conn) = OutProxy (ProxyRunning st0)"
    "px_replay st0 = r" "armed_stream r = net_stream as True" "reader_ok (arm_deadline True r)"
    "px_upstream_out st0 = conn_out upstream" "px_upstream_in st0 = conn_in upstream" "px_client_out st0 = conn_out conn"
    "\<not> px_up_done st0" "\<not> px_down_done st0"
proof -
  from assms(1) obtain config where "Prepare (gs_server s) = Some (prepareGatewayTLS T (Some config))" "OnFallback (gs_server s)"
    by (rule run_setup_Inr)
  then obtain c r where fb: "handle L (gs_server s) conn = FellBack c (Some r)" "conn_out c = conn_out conn"
    "armed_stream r = net_stream as True" "reader_ok (arm_deadline True r)"
    using plain_probe_falls_back [OF assms(2-5)] by metis
  let ?st0 = "\<lparr>px_replay = r, px_upstream_out = conn_out upstream, px_upstream_in = conn_in upstream, px_client_out = conn_out conn,
    px_up_done = False, px_down_done = False, px_closed = False, px_up_total = 0, px_down_total = 0\<rparr>"
  from fb assms(6,7) show ?thesis by (intro that [of ?st0 r]) (simp_all add: proxyToNginx_def)
qed

text \<open>
  A prober that does not speak TLS sees the decoy and nothing else: a connection to the running
  gateway whose first byte is not that of a TLS handshake record is relayed to the configured decoy.
  In every interleaving of the relay, what the decoy has received is a prefix of what the prober sent,
  from its first byte on, and what the prober has received is a prefix of what the decoy sent; a copy
  that ended without an error on either side has delivered everything.
\<close>

theorem probe_sees_decoy:
  assumes "run_setup T readFile unmarshal netListen env path flag = Inr s"
    and "conn_in conn = NetConn as b e" "conn_deadline_err conn = None" "net_stream as True = x # xs" "x \<noteq> 0x16"
    and "gs_fallback s \<noteq> ''''" "dialDecoy (gs_fallback s) = Some upstream" "reader_ok (arm_deadline True (conn_in upstream))"
  shows "\<exists>st0. run_callback unifold lookup dialTCP dialDecoy L s g (handle L (gs_server s) conn) = OutProxy (ProxyRunning st0) \<and>
    (\<forall>st. proxy_step\<^sup>*\<^sup>* st0 st \<longrightarrow>
      (\<exists>data rest. written (px_upstream_out st) = written (conn_out upstream) @ data \<and> net_stream as True = data @ rest \<and>
        (px_up_done st \<and> \<not> px_closed st \<longrightarrow> rest = [])) \<and>
      (\<exists>data rest. written (px_client_out st) = written (conn_out conn) @ data \<and> armed_stream (conn_in upstream) = data @ rest \<and>
        (px_down_done st \<and> \<not> px_closed st \<longrightarrow> rest = [])))"
proof -
  obtain r st0 where out: "run_callback unifold lookup dialTCP dialDecoy L s g (handle L (gs_server s) conn) = OutProxy (ProxyRunning st0)"
    and st0: "px_replay st0 = r" "armed_stream r = net_stream as True" "reader_ok (arm_deadline True r)"
    "px_upstream_out st0 = conn_out upstream" "px_upstream_in st0 = conn_in upstream" "px_client_out st0 = conn_out conn"
    "\<not> px_up_done st0" "\<not> px_down_done st0"
    by (rule run_setup_decoy [where dialDecoy = dialDecoy, OF assms(1-7)])
  have "copied r (conn_out upstream) (px_replay st) (px_upstream_out st) (px_closed st) (px_up_done st) \<and>
      copied (conn_in upstream) (conn_out conn) (px_upstream_in st) (px_client_out st) (px_closed st) (px_down_done st)"
    if "proxy_step\<^sup>*\<^sup>* st0 st" for st
    using proxy_run_copied [OF that] st0 assms(8) by simp
  with out st0(2) copied_prefix show ?thesis by metis
qed

theorem probe_sees_decoy_witness:
  "\<exists>s st0. run_setup (refusing_tls\<lparr>lib_KeyPair := \<lambda>a b. Some 0\<rparr>) (\<lambda>p. Inr []) (\<lambda>d. Inr (sample_Config\<lparr>conf_FallbackAddress := ''nginx:8080''\<rparr>))
       (\<lambda>a. None) sample_env ''server.yaml'' ''0.0.0.0:443'' = Inr s \<and>
     run_callback (\<lambda>a b. False) (\<lambda>h. Inr []) (\<lambda>a. Inr (sample_conn [])) (\<lambda>a. Some (sample_conn [Data [79, 75]])) sample_lib s sample_rng
       (handle sample_lib (gs_server s) (sample_conn [Data [71, 69], Data [84]])) = OutProxy (ProxyRunning st0)"
proof -
  let ?cfg = "sample_Config\<lparr>conf_FallbackAddress := ''nginx:8080''\<rparr>"
  have load: "Load (\<lambda>p. Inr []) (\<lambda>d. Inr ?cfg) ''server.yaml'' = Inr ?cfg" by code_simp
  have key: "hex_DecodeString sample_env = Inr (map of_nat [0..<16])" by code_simp
  have env: "sample_env \<noteq> ''''" by (simp add: sample_env_def)
  have files: "conf_CertFile sample_Config = ''server.crt''" "conf_KeyFile sample_Config = ''server.key''" by (simp_all add: sample_Config_def)
  obtain s where s: "run_setup (refusing_tls\<lparr>lib_KeyPair := \<lambda>a b. Some 0\<rparr>) (\<lambda>p. Inr []) (\<lambda>d. Inr ?cfg) (\<lambda>a. None) sample_env ''server.yaml'' ''0.0.0.0:443'' = Inr s"
    "gs_fallback s = ''nginx:8080''"
    using env by (simp add: run_setup_def load key files TLSServerConfig_def minPSKLen_def)
  have "conn_in (sample_conn [Data [71, 69], Data [84]]) = NetConn [Data [71, 69], Data [84]] False EOF"
    "conn_deadline_err (sample_conn [Data [71, 69], Data [84]]) = None" "net_stream [Data [71, 69], Data [84]] True = 71 # [69, 84]"
    "(71 :: byte) \<noteq> 0x16" "gs_fallback s \<noteq> ''''" "reader_ok (arm_deadline True (conn_in (sample_conn [Data [79, 75]])))"
    using s(2) by (simp_all add: sample_conn_def)
  from probe_sees_decoy [where dialDecoy = "\<lambda>a. Some (sample_conn [Data [79, 75]])", OF s(1) this(1-5) refl this(6),
      of "\<lambda>a b. False" "\<lambda>h. Inr []" "\<lambda>a. Inr (sample_conn [])" sample_lib sample_rng] s(1) show ?thesis by blast
qed

end
