(* ===== verification/Go_Concurrency.thy ===== *)
theory Go_Concurrency
  imports Go_Prelude
begin

text \<open>
  A server that starts one goroutine per accepted connection, as both programs do.  The goroutines
  are the members of a list, in the order in which they were started; a step of the pool is a step of
  one of them, and a new one is appended.  The locale \<open>goroutines\<close> states what is asked of the steps
  of a single one: they keep its invariant, they end, and one that has not ended has a step.  What is
  concluded about the pool is that its members do not see each other: each is in a state that it
  reaches alone.
\<close>

inductive pool_step :: "('s \<Rightarrow> 's \<Rightarrow> bool) \<Rightarrow> 's list \<Rightarrow> 's list \<Rightarrow> bool" for step :: "'s \<Rightarrow> 's \<Rightarrow> bool" where
  pool_member: "i < length ss \<Longrightarrow> step (ss ! i) s' \<Longrightarrow> pool_step step ss (ss[i := s'])"

inductive_cases pool_stepE: "pool_step step ss ss'"

locale goroutines =
  fixes step :: "'s \<Rightarrow> 's \<Rightarrow> bool"
    and valid :: "'s \<Rightarrow> bool"
    and ended :: "'s \<Rightarrow> bool"
  assumes step_valid: "valid s \<Longrightarrow> step s s' \<Longrightarrow> valid s'"
    and step_wf: "wf {(s', s). valid s \<and> step s s'}"
    and step_progress: "valid s \<Longrightarrow> \<not> ended s \<Longrightarrow> \<exists>s'. step s s'"
    and ended_final: "valid s \<Longrightarrow> ended s \<Longrightarrow> \<not> step s s'"
begin

lemma run_valid: "step\<^sup>*\<^sup>* s0 s \<Longrightarrow> valid s0 \<Longrightarrow> valid s"
  by (induction rule: rtranclp_induct) (auto intro: step_valid)

lemma pool_alone:
  assumes "pool_step step ss ss'" "list_all2 step\<^sup>*\<^sup>* starts ss"
  shows "list_all2 step\<^sup>*\<^sup>* starts ss'"
  using assms(1)
proof cases
  case (pool_member i s')
  then have "step\<^sup>*\<^sup>* (starts ! i) s'"
    using assms(2) by (auto simp: list_all2_conv_all_nth intro: rtranclp.rtrancl_into_rtrancl)
  with assms(2) pool_member(1,2) show ?thesis
    by (simp add: list_all2_conv_all_nth nth_list_update)
qed

lemma pool_valid:
  assumes "list_all2 step\<^sup>*\<^sup>* starts ss" "\<forall>s \<in> set starts. valid s" "s \<in> set ss"
  shows "valid s"
proof -
  from assms(3) obtain i where i: "i < length ss" "s = ss ! i" by (auto simp: in_set_conv_nth)
  with assms(1) have "step\<^sup>*\<^sup>* (starts ! i) s" "i < length starts" by (auto simp: list_all2_conv_all_nth)
  with run_valid assms(2) show ?thesis by simp
qed

text \<open>A pool to which nothing is added comes to an end.\<close>

lemma pool_order_wf: "wf (listrel1 {(s', s). valid s \<and> step s s'})"
  by (simp add: step_wf)

lemma pool_step_order:
  assumes "pool_step step ss ss'" "\<forall>s \<in> set ss. valid s"
  shows "(ss', ss) \<in> listrel1 {(s', s). valid s \<and> step s s'}"
  using assms(1)
proof cases
  case (pool_member i s')
  have "ss = take i ss @ ss ! i # drop (Suc i) ss" using pool_member(2) by (rule id_take_nth_drop)
  moreover have "ss' = take i ss @ s' # drop (Suc i) ss" using pool_member(1,2) by (simp add: upd_conv_take_nth_drop)
  moreover have "(s', ss ! i) \<in> {(s', s). valid s \<and> step s s'}" using assms(2) pool_member by simp
  ultimately show ?thesis by (intro listrel1I)
qed

lemma pool_progress:
  assumes "\<forall>s \<in> set ss. valid s" "\<exists>s \<in> set ss. \<not> ended s"
  shows "\<exists>ss'. pool_step step ss ss'"
proof -
  from assms(2) obtain i where i: "i < length ss" "\<not> ended (ss ! i)" by (auto simp: in_set_conv_nth)
  from assms(1) i(1) have "valid (ss ! i)" by simp
  from step_progress [OF this i(2)] obtain s' where "step (ss ! i) s'" ..
  from pool_step.pool_member [of i ss step, OF i(1) this] show ?thesis ..
qed

end

end
