(* ===== verification/Client_Process.thy ===== *)
theory Client_Process
  imports Commands Go_Concurrency
begin

text \<open>
  The client as a running process: the accept loop of \<^verbatim>\<open>src/pkg/socks5/server.go\<close> as
  \<^verbatim>\<open>src/cmd/client/main.go\<close> starts it, with one goroutine per SOCKS5 connection.  The goroutines
  share the one \<^verbatim>\<open>*client.Client\<close> whose \<^verbatim>\<open>Dial\<close> they call; its TLS configuration is built by
  the first of them that gets so far (\<^verbatim>\<open>tlsConfigOnce\<close>).  The process has no end of its own: nothing
  closes the listener.
\<close>

section \<open>One connection's goroutine\<close>

text \<open>
  The parts of the environment that a goroutine uses.  The error of \<^verbatim>\<open>Dial\<close> is opaque to package
  \<^verbatim>\<open>socks5\<close>, a number there.
\<close>

record client_env =
  ce_crypto :: crypto_lib
  ce_tls :: tls_lib
  ce_dialTCP :: "string \<Rightarrow> (nat, conn) result"
  ce_error :: "client_error \<Rightarrow> nat"
  ce_LocalAddr :: "DataConn \<Rightarrow> net_addr"

definition client_dialer :: "client_env \<Rightarrow> Client \<Rightarrow> rng \<Rightarrow> string \<Rightarrow> (nat, DataConn) result" where
  "client_dialer E cl g target =
     (case fst (client_Dial (ce_crypto E) (ce_tls E) (ce_dialTCP E) (Some cl) target g) of
        Inl e \<Rightarrow> Inl (ce_error E e)
      | Inr dc \<Rightarrow> Inr dc)"

text \<open>
  \<open>Asked c g g'\<close>: just accepted, with the random bytes for \<^verbatim>\<open>Dial\<close> and for the relay.  A connection
  that failed was closed; a relay that has returned was followed by closing both connections.
\<close>

datatype client_session =
    Asked conn rng rng
  | Refused socks_error conn
  | Relaying relay_state
  | Finished "relay_error option" relay_state

definition client_outcome :: "client_env \<Rightarrow> Client \<Rightarrow> conn \<Rightarrow> rng \<Rightarrow> rng \<Rightarrow> client_session" where
  "client_outcome E cl c g g' =
     (case handleConnection (client_dialer E cl g) (ce_LocalAddr E) c of
        SocksFailed e c' \<Rightarrow> Refused e (conn_Close c')
      | SocksRelay c' target \<Rightarrow> Relaying (relay_start c' target g'))"

text \<open>
  Whether handling a connection gets to the call of \<^verbatim>\<open>Dial\<close>, seen from how it ends when every dial
  fails; and the shared client after it.
\<close>

definition dials :: "conn \<Rightarrow> bool" where
  "dials c =
     (case handleConnection (\<lambda>a. Inl 0) (\<lambda>t :: unit. OtherAddr) c of
        SocksFailed (ConnectTargetErr e) c' \<Rightarrow> True
      | SocksFailed (ConnectFailedReplyFailed e re) c' \<Rightarrow> True
      | _ \<Rightarrow> False)"

definition client_after :: "client_env \<Rightarrow> Client \<Rightarrow> conn \<Rightarrow> Client" where
  "client_after E cl c =
     (if dials c \<and> length (PSK cl) \<noteq> 0 \<and> \<not> isl (ce_dialTCP E (ServerAddress cl)) then tlsConfigOnce (ce_tls E) cl else cl)"

inductive relaying_step :: "client_session \<Rightarrow> client_session \<Rightarrow> bool" where
  cs_relay: "relay_step st st' \<Longrightarrow> relaying_step (Relaying st) (Relaying st')"
| cs_close: "relay st = Some r \<Longrightarrow> relaying_step (Relaying st) (Finished r st)"

inductive_cases relaying_stepE: "relaying_step ses ses'"

text \<open>The steps of a goroutine that has the client \<open>cl\<close> for itself.\<close>

inductive client_session_step :: "client_env \<Rightarrow> Client \<Rightarrow> client_session \<Rightarrow> client_session \<Rightarrow> bool" for E cl where
  cs_handle: "client_session_step E cl (Asked c g g') (client_outcome E cl c g g')"
| cs_relaying: "relaying_step ses ses' \<Longrightarrow> client_session_step E cl ses ses'"

inductive_cases client_session_stepE: "client_session_step E cl ses ses'"

section \<open>The process\<close>

datatype client_event = Connects conn rng rng | ConnectError

record client_process =
  cp_accepts :: "client_event list"
  cp_client :: Client
  cp_sessions :: "client_session list"

definition client_start :: "Client \<Rightarrow> client_event list \<Rightarrow> client_process" where
  "client_start cl as = \<lparr>cp_accepts = as, cp_client = cl, cp_sessions = []\<rparr>"

inductive client_step :: "client_env \<Rightarrow> client_process \<Rightarrow> client_process \<Rightarrow> bool" for E where
  cp_accept: "cp_accepts p = Connects c g g' # as \<Longrightarrow>
     client_step E p (p\<lparr>cp_accepts := as, cp_sessions := cp_sessions p @ [Asked c g g']\<rparr>)"
| cp_accept_error: "cp_accepts p = ConnectError # as \<Longrightarrow> client_step E p (p\<lparr>cp_accepts := as\<rparr>)"
| cp_handle: "i < length (cp_sessions p) \<Longrightarrow> cp_sessions p ! i = Asked c g g' \<Longrightarrow>
     client_step E p (p\<lparr>cp_client := client_after E (cp_client p) c,
       cp_sessions := (cp_sessions p)[i := client_outcome E (cp_client p) c g g']\<rparr>)"
| cp_relaying: "pool_step relaying_step (cp_sessions p) ss \<Longrightarrow> client_step E p (p\<lparr>cp_sessions := ss\<rparr>)"

inductive_cases client_stepE: "client_step E p p'"

abbreviation client_run :: "client_env \<Rightarrow> client_process \<Rightarrow> client_process \<Rightarrow> bool" where
  "client_run E \<equiv> (client_step E)\<^sup>*\<^sup>*"

section \<open>The shared client\<close>

lemma tlsConfigOnce_fields [simp]:
  "PSK (tlsConfigOnce T cl) = PSK cl" "ServerAddress (tlsConfigOnce T cl) = ServerAddress cl"
  "tlsConfigOnce T (tlsConfigOnce T cl) = tlsConfigOnce T cl"
  by (auto simp: tlsConfigOnce_def split: option.splits)

text \<open>It makes no difference to a dial whether the configuration was there before.\<close>

lemma client_Dial_once: "fst (client_Dial L T dialTCP (Some (tlsConfigOnce T cl)) t g) = fst (client_Dial L T dialTCP (Some cl) t g)"
proof -
  have "fst (case x of Inl e \<Rightarrow> f e | Inr y \<Rightarrow> h y) = (case x of Inl e \<Rightarrow> fst (f e) | Inr y \<Rightarrow> fst (h y))" for x and f :: "nat \<Rightarrow> 'z \<times> 'w" and h :: "conn \<Rightarrow> 'z \<times> 'w"
    by (simp split: sum.split)
  then show ?thesis by (cases "dialTCP (ServerAddress cl)") (simp_all add: client_Dial_def Let_def)
qed

lemma client_outcome_once: "client_outcome E (tlsConfigOnce (ce_tls E) cl) c g g' = client_outcome E cl c g g'"
proof -
  have "client_dialer E (tlsConfigOnce (ce_tls E) cl) g = client_dialer E cl g"
    by (simp add: fun_eq_iff client_dialer_def client_Dial_once)
  then show ?thesis by (simp add: client_outcome_def)
qed

lemma client_after_once:
  "cl' = cl \<or> cl' = tlsConfigOnce (ce_tls E) cl \<Longrightarrow> client_after E cl' c = cl \<or> client_after E cl' c = tlsConfigOnce (ce_tls E) cl"
  by (auto simp: client_after_def)

text \<open>What \<open>dials\<close> and \<open>client_after\<close> stand for.\<close>

lemma not_dials: "\<not> dials c \<Longrightarrow> handleConnection d la c = handleConnection d' la' c"
  by (auto simp: dials_def handleConnection_def connectToTarget_def Let_def split: option.splits prod.splits sum.splits if_splits)

lemma client_Dial_client:
  "snd (snd (client_Dial L T dialTCP (Some cl) t g)) =
     Some (if length (PSK cl) \<noteq> 0 \<and> \<not> isl (dialTCP (ServerAddress cl)) then tlsConfigOnce T cl else cl)"
  by (auto simp: client_Dial_def Let_def split: sum.split prod.split option.split)

section \<open>Sessions end\<close>

fun client_session_rank :: "client_session \<Rightarrow> nat \<times> nat \<times> nat" where
  "client_session_rank (Asked c g g') = (2, 0, 0)"
| "client_session_rank (Relaying st) = (1, relay_rank st)"
| "client_session_rank ses = (0, 0, 0)"

fun client_session_valid :: "client_session \<Rightarrow> bool" where
  "client_session_valid (Relaying st) = (length (rl_errs st) = of_bool (rl_up_done st) + of_bool (rl_down_done st))"
| "client_session_valid ses = True"

fun client_session_ended :: "client_session \<Rightarrow> bool" where
  "client_session_ended (Refused e c) = True"
| "client_session_ended (Finished r st) = True"
| "client_session_ended ses = False"

lemma client_outcome_cases:
  obtains e c' where "client_outcome E cl c g g' = Refused e c'"
  | conn target where "client_outcome E cl c g g' = Relaying (relay_start conn target g')"
  by (cases "handleConnection (client_dialer E cl g) (ce_LocalAddr E) c") (auto simp: client_outcome_def)

lemma client_outcome_valid: "client_session_valid (client_outcome E cl c g g')"
  by (rule client_outcome_cases [of E cl c g g']) (simp_all add: relay_start_def)

lemma relaying_step_valid: "relaying_step ses ses' \<Longrightarrow> client_session_valid ses \<Longrightarrow> client_session_valid ses'"
proof (erule relaying_stepE, goal_cases)
  case (1 st st')
  with relay_errs_count [OF r_into_rtranclp [of relay_step, OF 1(4)]] show ?case by simp
qed simp

lemma relaying_step_rank:
  "relaying_step ses ses' \<Longrightarrow> (client_session_rank ses', client_session_rank ses) \<in> less_than <*lex*> less_than <*lex*> less_than"
  by (erule relaying_stepE) (auto dest: relay_step_rank)

lemma client_session_step_rank:
  assumes "client_session_step E cl ses ses'"
  shows "(client_session_rank ses', client_session_rank ses) \<in> less_than <*lex*> less_than <*lex*> less_than"
  using assms
proof cases
  case (cs_handle c g g')
  then show ?thesis by (cases rule: client_outcome_cases [of E cl c g g']) auto
qed (rule relaying_step_rank)

lemma relaying_progress:
  assumes "client_session_valid (Relaying st)"
  shows "\<exists>ses'. relaying_step (Relaying st) ses'"
proof (cases "rl_up_done st \<and> rl_down_done st")
  case True
  with assms obtain a b where "rl_errs st = [a, b]" by (auto simp: numeral_eq_Suc length_Suc_conv)
  then have "\<exists>r. relay st = Some r" by (simp add: relay_def)
  then show ?thesis by (blast intro: cs_close)
next
  case False
  with relay_progress show ?thesis by (blast intro: cs_relay)
qed

interpretation cls: goroutines "client_session_step E cl" client_session_valid client_session_ended for E cl
proof
  show "wf {(s', s). client_session_valid s \<and> client_session_step E cl s s'}" for E cl
    by (rule wf_subset [OF wf_inv_image [of "less_than <*lex*> less_than <*lex*> less_than" client_session_rank]])
      (auto dest: client_session_step_rank)
  show "client_session_valid s \<Longrightarrow> client_session_step E cl s s' \<Longrightarrow> client_session_valid s'" for E cl s s'
    by (erule client_session_stepE) (auto simp: client_outcome_valid intro: relaying_step_valid)
  show "\<exists>s'. client_session_step E cl s s'" if "client_session_valid s" "\<not> client_session_ended s" for E cl s
    using that relaying_progress by (cases s) (auto intro: cs_handle cs_relaying)
  show "client_session_valid s \<Longrightarrow> client_session_ended s \<Longrightarrow> \<not> client_session_step E cl s s'" for E cl s s'
    by (auto elim!: client_session_stepE relaying_stepE)
qed

section \<open>Reachable processes\<close>

fun connections :: "client_event list \<Rightarrow> client_session list" where
  "connections [] = []"
| "connections (Connects c g g' # as) = Asked c g g' # connections as"
| "connections (ConnectError # as) = connections as"

lemma connections_append [simp]: "connections (as @ bs) = connections as @ connections bs"
  by (induction as rule: connections.induct) simp_all

lemma connections_valid: "ses \<in> set (connections as) \<Longrightarrow> client_session_valid ses"
  by (induction as rule: connections.induct) auto

lemma connections_Asked: "i < length (connections as) \<Longrightarrow> \<exists>c g g'. connections as ! i = Asked c g g'"
proof -
  have "\<exists>c g g'. ses = Asked c g g'" if "ses \<in> set (connections as)" for ses
    using that by (induction as rule: connections.induct) auto
  then show "i < length (connections as) \<Longrightarrow> \<exists>c g g'. connections as ! i = Asked c g g'" by simp
qed

definition client_inv :: "client_env \<Rightarrow> Client \<Rightarrow> client_event list \<Rightarrow> client_process \<Rightarrow> bool" where
  "client_inv E cl as p \<longleftrightarrow> (cp_client p = cl \<or> cp_client p = tlsConfigOnce (ce_tls E) cl) \<and>
     (\<exists>taken. as = taken @ cp_accepts p \<and> list_all2 (client_session_step E cl)\<^sup>*\<^sup>* (connections taken) (cp_sessions p))"

text \<open>With the shared client in either state, a step of a session in the process is one it can take alone.\<close>

lemma client_step_pool:
  assumes "client_step E p p'" "cp_client p = cl \<or> cp_client p = tlsConfigOnce (ce_tls E) cl"
  shows "(cp_client p' = cl \<or> cp_client p' = tlsConfigOnce (ce_tls E) cl) \<and>
    (cp_accepts p' = cp_accepts p \<and> pool_step (client_session_step E cl) (cp_sessions p) (cp_sessions p') \<or>
     (\<exists>a. cp_accepts p = a # cp_accepts p' \<and> cp_sessions p' = cp_sessions p @ connections [a]))"
  using assms(1)
proof cases
  case (cp_handle i c g g')
  have "client_outcome E (cp_client p) c g g' = client_outcome E cl c g g'"
    using assms(2) client_outcome_once by metis
  then have "client_session_step E cl (cp_sessions p ! i) (client_outcome E (cp_client p) c g g')"
    unfolding cp_handle(3) by (simp add: cs_handle)
  from pool_step.pool_member [of i "cp_sessions p" "client_session_step E cl", OF cp_handle(2) this] show ?thesis
    unfolding cp_handle(1) using client_after_once [OF assms(2)] by simp
next
  case (cp_relaying ss)
  from cp_relaying(2) have "pool_step (client_session_step E cl) (cp_sessions p) ss"
  proof cases
    case (pool_member i ses')
    from pool_step.pool_member [of i "cp_sessions p" "client_session_step E cl", OF pool_member(2) cs_relaying [OF pool_member(3)]] show ?thesis unfolding pool_member(1) .
  qed
  with cp_relaying(1) assms(2) show ?thesis by simp
qed (use assms(2) in simp_all)

lemma client_step_inv:
  assumes "client_step E p p'" "client_inv E cl as p"
  shows "client_inv E cl as p'"
proof -
  from assms(2) obtain taken where t: "cp_client p = cl \<or> cp_client p = tlsConfigOnce (ce_tls E) cl" "as = taken @ cp_accepts p"
    "list_all2 (client_session_step E cl)\<^sup>*\<^sup>* (connections taken) (cp_sessions p)" unfolding client_inv_def by blast
  from client_step_pool [OF assms(1) t(1)] have c: "cp_client p' = cl \<or> cp_client p' = tlsConfigOnce (ce_tls E) cl" and
    "cp_accepts p' = cp_accepts p \<and> pool_step (client_session_step E cl) (cp_sessions p) (cp_sessions p') \<or>
     (\<exists>a. cp_accepts p = a # cp_accepts p' \<and> cp_sessions p' = cp_sessions p @ connections [a])" by blast+
  from this(2) show ?thesis
  proof (elim disjE conjE exE)
    assume "cp_accepts p' = cp_accepts p" "pool_step (client_session_step E cl) (cp_sessions p) (cp_sessions p')"
    with t(2) cls.pool_alone [OF _ t(3)] c show ?thesis unfolding client_inv_def by metis
  next
    fix a assume a: "cp_accepts p = a # cp_accepts p'" "cp_sessions p' = cp_sessions p @ connections [a]"
    have "list_all2 (client_session_step E cl)\<^sup>*\<^sup>* (connections (taken @ [a])) (cp_sessions p')"
      unfolding a(2) connections_append by (intro list_all2_appendI t(3) list_all2_refl rtranclp.rtrancl_refl)
    with a(1) t(2) c show ?thesis unfolding client_inv_def by (intro conjI exI [of _ "taken @ [a]"]) simp_all
  qed
qed

lemma client_run_inv: "client_run E (client_start cl as) p \<Longrightarrow> client_inv E cl as p"
proof (induction rule: rtranclp_induct)
  case base
  show ?case by (auto simp: client_inv_def client_start_def)
qed (rule client_step_inv)

text \<open>The states of a goroutine that is alone.\<close>

definition client_session_state :: "client_env \<Rightarrow> Client \<Rightarrow> conn \<Rightarrow> rng \<Rightarrow> rng \<Rightarrow> client_session \<Rightarrow> bool" where
  "client_session_state E cl c g g' ses \<longleftrightarrow> ses = Asked c g g' \<or> ses = client_outcome E cl c g g' \<or>
     (\<exists>st0 st. client_outcome E cl c g g' = Relaying st0 \<and> relay_run st0 st \<and>
        (ses = Relaying st \<or> (\<exists>r. relay st = Some r \<and> ses = Finished r st)))"

lemma client_session_state_Relaying:
  "client_session_state E cl c g g' (Relaying st) \<longleftrightarrow> (\<exists>st0. client_outcome E cl c g g' = Relaying st0 \<and> relay_run st0 st)"
  by (fastforce simp: client_session_state_def dest: sym)

lemma client_session_run_state:
  "(client_session_step E cl)\<^sup>*\<^sup>* (Asked c g g') ses \<Longrightarrow> client_session_state E cl c g g' ses"
proof (induction rule: rtranclp_induct)
  case (step ses ses')
  from step(2) show ?case
  proof cases
    case (cs_handle c1 g1 g1')
    with step(3) show ?thesis
      by (cases rule: client_outcome_cases [of E cl c g g']) (auto simp: client_session_state_def)
  next
    case cs_relaying
    then show ?thesis
    proof cases
      case (cs_relay st st')
      with step(3) show ?thesis
        by (auto simp: client_session_state_Relaying intro: rtranclp.rtrancl_into_rtrancl)
    next
      case (cs_close st r)
      with step(3) have "client_session_state E cl c g g' (Relaying st)" by simp
      with cs_close show ?thesis unfolding client_session_state_Relaying by (auto simp: client_session_state_def)
    qed
  qed
qed (simp add: client_session_state_def)

lemma connections_run:
  assumes "client_run E (client_start cl as) p" "i < length (cp_sessions p)"
  shows "(client_session_step E cl)\<^sup>*\<^sup>* (connections as ! i) (cp_sessions p ! i)"
proof -
  from client_run_inv [OF assms(1)] obtain taken where t: "as = taken @ cp_accepts p"
    "list_all2 (client_session_step E cl)\<^sup>*\<^sup>* (connections taken) (cp_sessions p)" unfolding client_inv_def by blast
  with assms(2) list_all2_lengthD [OF t(2)] list_all2_nthD2 [OF t(2) assms(2)] show ?thesis
    by (metis connections_append nth_append)
qed

lemma client_session_at:
  assumes "client_run E (client_start cl as) p" "i < length (cp_sessions p)" "connections as ! i = Asked c g g'"
  shows "client_session_state E cl c g g' (cp_sessions p ! i)"
  using connections_run [OF assms(1,2)] assms(3) by (simp add: client_session_run_state)

text \<open>The relay of a connection that has one, at work or returned.\<close>

fun relay_of :: "client_session \<Rightarrow> relay_state option" where
  "relay_of (Relaying st) = Some st"
| "relay_of (Finished r st) = Some st"
| "relay_of ses = None"

lemma session_relays:
  assumes "client_session_state E cl c g g' ses" "client_outcome E cl c g g' = Relaying st0"
  obtains "ses = Asked c g g'" | st where "relay_of ses = Some st" "relay_run st0 st"
  using assms by (auto simp: client_session_state_def)

lemma client_inv_valid: "client_inv E cl as p \<Longrightarrow> ses \<in> set (cp_sessions p) \<Longrightarrow> client_session_valid ses"
  unfolding client_inv_def by (blast intro: cls.pool_valid connections_valid)

text \<open>Every run ends, and only when there is nothing left to accept and every session has ended.\<close>

definition client_order :: "client_env \<Rightarrow> Client \<Rightarrow> (client_process \<times> client_process) set" where
  "client_order E cl =
     inv_image (less_than <*lex*> listrel1 {(ses', ses). client_session_valid ses \<and> client_session_step E cl ses ses'})
       (\<lambda>p. (length (cp_accepts p), cp_sessions p))"

lemma client_order_wf: "wf (client_order E cl)"
  unfolding client_order_def by (intro wf_inv_image wf_lex_prod wf_less_than cls.pool_order_wf)

lemma client_step_order:
  assumes "client_step E p p'" "client_inv E cl as p"
  shows "(p', p) \<in> client_order E cl"
proof -
  have "cp_client p = cl \<or> cp_client p = tlsConfigOnce (ce_tls E) cl" using assms(2) by (simp add: client_inv_def)
  from conjunct2 [OF client_step_pool [OF assms(1) this]] show ?thesis
  proof (elim disjE conjE exE)
    assume "cp_accepts p' = cp_accepts p" and step: "pool_step (client_session_step E cl) (cp_sessions p) (cp_sessions p')"
    moreover have "\<forall>ses \<in> set (cp_sessions p). client_session_valid ses" using client_inv_valid [OF assms(2)] by blast
    ultimately show ?thesis using cls.pool_step_order [OF step] by (simp add: client_order_def)
  qed (simp add: client_order_def)
qed

lemma client_progress:
  assumes "client_inv E cl as p"
  shows "(\<nexists>p'. client_step E p p') \<longleftrightarrow> cp_accepts p = [] \<and> (\<forall>ses \<in> set (cp_sessions p). client_session_ended ses)"
proof
  assume stuck: "\<nexists>p'. client_step E p p'"
  have "cp_accepts p = []"
  proof (rule ccontr)
    assume "cp_accepts p \<noteq> []"
    then obtain a as' where "cp_accepts p = a # as'" by (cases "cp_accepts p") simp_all
    with stuck show False by (cases a) (blast intro: cp_accept cp_accept_error)+
  qed
  moreover have "client_session_ended ses" if ses: "ses \<in> set (cp_sessions p)" for ses
  proof (cases ses)
    case (Asked c g g')
    from ses obtain i where "i < length (cp_sessions p)" "cp_sessions p ! i = Asked c g g'" unfolding Asked by (auto simp: in_set_conv_nth)
    from cp_handle [OF this] stuck show ?thesis by blast
  next
    case (Relaying st)
    from ses obtain i where i: "i < length (cp_sessions p)" "cp_sessions p ! i = Relaying st" unfolding Relaying by (auto simp: in_set_conv_nth)
    from relaying_progress [of st] client_inv_valid [OF assms ses] obtain ses' where "relaying_step (Relaying st) ses'"
      unfolding Relaying by blast
    with pool_step.pool_member [of i "cp_sessions p" relaying_step ses'] i have "pool_step relaying_step (cp_sessions p) ((cp_sessions p)[i := ses'])" by simp
    from cp_relaying [OF this] stuck show ?thesis by blast
  qed simp_all
  ultimately show "cp_accepts p = [] \<and> (\<forall>ses \<in> set (cp_sessions p). client_session_ended ses)" by blast
next
  assume e: "cp_accepts p = [] \<and> (\<forall>ses \<in> set (cp_sessions p). client_session_ended ses)"
  show "\<nexists>p'. client_step E p p'"
  proof
    assume "\<exists>p'. client_step E p p'"
    then obtain p' where "client_step E p p'" ..
    then show False
    proof cases
      case (cp_handle i c g g')
      with e nth_mem [OF cp_handle(2)] show False by auto
    next
      case (cp_relaying ss)
      from cp_relaying(2) show False
      proof cases
        case (pool_member i ses')
        from pool_member(3) e nth_mem [OF pool_member(2)] show False by (auto elim!: relaying_stepE)
      qed
    qed (use e in simp_all)
  qed
qed

section \<open>Properties\<close>

text \<open>
  C16.  The client's connections do not see each other although they share one client: whichever of them
  builds the TLS configuration, at any time each is in a state that it reaches alone with the client as
  it was at the start: not handled yet, refused, relaying, or finished with the result of its relay.
  And every one comes to its end: no run is infinite, and one stops only when nothing is left to accept
  and every connection was refused or has finished.
\<close>

theorem client_sessions_isolated:
  assumes "client_run E (client_start cl as) p"
  shows "(cp_client p = cl \<or> cp_client p = tlsConfigOnce (ce_tls E) cl) \<and>
    (\<exists>taken. as = taken @ cp_accepts p \<and> length (cp_sessions p) = length (connections taken) \<and>
       (\<forall>i < length (cp_sessions p). \<exists>c g g'. connections taken ! i = Asked c g g' \<and>
          (cp_sessions p ! i = Asked c g g' \<or> cp_sessions p ! i = client_outcome E cl c g g' \<or>
           (\<exists>st0 st. client_outcome E cl c g g' = Relaying st0 \<and> relay_run st0 st \<and>
              (cp_sessions p ! i = Relaying st \<or> (\<exists>r. relay st = Some r \<and> cp_sessions p ! i = Finished r st)))))) \<and>
    ((\<nexists>p'. client_step E p p') \<longleftrightarrow> cp_accepts p = [] \<and> (\<forall>ses \<in> set (cp_sessions p). client_session_ended ses)) \<and>
    wf {(q', q). client_run E (client_start cl as) q \<and> client_step E q q'}"
proof (intro conjI)
  note inv = client_run_inv [OF assms]
  show "cp_client p = cl \<or> cp_client p = tlsConfigOnce (ce_tls E) cl" using inv by (simp add: client_inv_def)
  show "(\<nexists>p'. client_step E p p') \<longleftrightarrow> cp_accepts p = [] \<and> (\<forall>ses \<in> set (cp_sessions p). client_session_ended ses)"
    by (rule client_progress [OF inv])
  show "wf {(q', q). client_run E (client_start cl as) q \<and> client_step E q q'}"
    by (rule wf_subset [OF client_order_wf [of E cl]]) (clarify, rule client_step_order [OF _ client_run_inv], assumption+)
  from inv obtain taken where t: "as = taken @ cp_accepts p"
    "list_all2 (client_session_step E cl)\<^sup>*\<^sup>* (connections taken) (cp_sessions p)" unfolding client_inv_def by blast
  have "\<exists>c g g'. connections taken ! i = Asked c g g' \<and> client_session_state E cl c g g' (cp_sessions p ! i)"
    if "i < length (cp_sessions p)" for i
    using connections_Asked [of i taken] t(2) that client_session_run_state by (auto simp: list_all2_conv_all_nth)
  with t(1) list_all2_lengthD [OF t(2)]
  show "\<exists>taken. as = taken @ cp_accepts p \<and> length (cp_sessions p) = length (connections taken) \<and>
       (\<forall>i < length (cp_sessions p). \<exists>c g g'. connections taken ! i = Asked c g g' \<and>
          (cp_sessions p ! i = Asked c g g' \<or> cp_sessions p ! i = client_outcome E cl c g g' \<or>
           (\<exists>st0 st. client_outcome E cl c g g' = Relaying st0 \<and> relay_run st0 st \<and>
              (cp_sessions p ! i = Relaying st \<or> (\<exists>r. relay st = Some r \<and> cp_sessions p ! i = Finished r st)))))"
    unfolding client_session_state_def by (intro exI [of _ taken]) simp
qed

section \<open>Witnesses\<close>

definition sample_client_env :: client_env where
  "sample_client_env = \<lparr>ce_crypto = sample_lib, ce_tls = sample_tls, ce_dialTCP = (\<lambda>a. Inr sample_ready_conn), ce_error = (\<lambda>e. 0),
     ce_LocalAddr = (\<lambda>t. TCPAddr (Some [127, 0, 0, 1]) 4000)\<rparr>"

text \<open>A goroutine of a process with one connection can take the steps of its relay.\<close>

lemma connect_and_ask:
  obtains p where "client_run E (client_start cl [Connects c g g']) p" "cp_sessions p = [client_outcome E cl c g g']"
proof -
  let ?p0 = "client_start cl [Connects c g g']"
  let ?p1 = "?p0\<lparr>cp_accepts := [], cp_sessions := cp_sessions ?p0 @ [Asked c g g']\<rparr>"
  have p1: "client_step E ?p0 ?p1" by (rule cp_accept) (simp add: client_start_def)
  have "client_step E ?p1 (?p1\<lparr>cp_client := client_after E (cp_client ?p1) c,
      cp_sessions := (cp_sessions ?p1)[0 := client_outcome E (cp_client ?p1) c g g']\<rparr>)"
    by (rule cp_handle) (simp_all add: client_start_def)
  from rtranclp.rtrancl_into_rtrancl [of "client_step E", OF r_into_rtranclp [of "client_step E", OF p1] this] show ?thesis
    by (rule that) (simp add: client_start_def)
qed

lemma relay_in_process:
  assumes "relay_run st0 st" "client_run E start q" "cp_sessions q = [Relaying st0]"
  obtains p where "client_run E start p" "cp_sessions p = [Relaying st]"
proof -
  have "\<exists>p. client_run E start p \<and> cp_sessions p = [Relaying st]"
    using assms(1)
  proof (induction rule: rtranclp_induct)
    case base
    with assms(2,3) show ?case by blast
  next
    case (step st st')
    then obtain p where p: "client_run E start p" "cp_sessions p = [Relaying st]" by blast
    have "pool_step relaying_step [Relaying st] ([Relaying st][0 := Relaying st'])"
      by (rule pool_member) (simp_all add: cs_relay [OF step(2)])
    then have "client_step E p (p\<lparr>cp_sessions := [Relaying st']\<rparr>)" using p(2) by (intro cp_relaying) simp
    from rtranclp.rtrancl_into_rtrancl [OF p(1) this] show ?case by fastforce
  qed
  then show ?thesis using that by blast
qed

theorem client_sessions_isolated_witness:
  "\<exists>p. client_run sample_client_env (client_start (New ''gw:443'' ''gw'' (replicate 16 7)) [Connects (sample_conn []) sample_rng sample_rng]) p \<and>
     length (cp_sessions p) = 1 \<and> cp_accepts p = [] \<and> client_session_ended (cp_sessions p ! 0)"
proof -
  let ?cl = "New ''gw:443'' ''gw'' (replicate 16 7)" and ?as = "[Connects (sample_conn []) sample_rng sample_rng]" and ?E = sample_client_env
  let ?start = "client_start ?cl ?as"
  let ?p1 = "?start\<lparr>cp_accepts := [], cp_sessions := cp_sessions ?start @ [Asked (sample_conn []) sample_rng sample_rng]\<rparr>"
  have "client_step ?E ?start ?p1" by (rule cp_accept) (simp add: client_start_def)
  then have run: "client_run ?E ?start ?p1" by (rule r_into_rtranclp)
  have "wf {(q', q). client_run ?E ?start q \<and> client_step ?E q q'}" using client_sessions_isolated [OF run] by blast
  then have "\<exists>q. client_run ?E p q \<and> (\<nexists>q'. client_step ?E q q')" if "client_run ?E ?start p" for p
    using that
  proof (induction p rule: wf_induct_rule)
    case (less p)
    show ?case
    proof (cases "\<exists>p'. client_step ?E p p'")
      case True
      then obtain p' where "client_step ?E p p'" ..
      with less rtranclp.rtrancl_into_rtrancl [OF less(2)] show ?thesis by (blast intro: converse_rtranclp_into_rtranclp)
    qed blast
  qed
  from this [OF run] obtain q where "client_run ?E ?p1 q" and stuck: "\<nexists>q'. client_step ?E q q'" by blast
  with run have q: "client_run ?E ?start q" by (meson rtranclp_trans)
  from client_sessions_isolated [OF q] stuck obtain taken where "?as = taken @ cp_accepts q" "length (cp_sessions q) = length (connections taken)"
    "cp_accepts q = []" "\<forall>ses \<in> set (cp_sessions q). client_session_ended ses" by blast
  with q show ?thesis by (intro exI [of _ q]) auto
qed

end
