(* ===== verification/Gateway_Process.thy ===== *)
theory Gateway_Process
  imports Commands Go_Concurrency
begin

text \<open>
  The gateway as a running process: \<^verbatim>\<open>main\<close> and the concurrent part of \<^verbatim>\<open>run\<close> in
  \<^verbatim>\<open>src/cmd/server/main.go\<close>.  Beside the accept loop there are a goroutine that waits for the
  context and shuts down, the profiling server's goroutine, and one goroutine per accepted
  connection (\<open>session\<close>).  A \<open>gateway_step\<close> is a step of one of them or of the environment: a signal
  arrives, a connection is there to be accepted.  What the profiling server answers is the business
  of \<^verbatim>\<open>net/http\<close>; only its life is modelled.  Of signals only the first one that
  ends the context is; a later one, or one that cannot be caught, kills the process.
\<close>

section \<open>One connection's goroutine\<close>

text \<open>The parts of the environment that a connection's goroutine calls.\<close>

record gateway_env =
  env_unifold :: "string \<Rightarrow> string \<Rightarrow> bool"
  env_lookup :: "string \<Rightarrow> (tunnel_error, IP list) result"
  env_dial :: "string \<Rightarrow> (tunnel_error, conn) result"
  env_decoy :: "string \<Rightarrow> conn option"
  env_crypto :: crypto_lib

datatype session = Arrived conn rng | Handled gateway_outcome

definition outcome_of :: "gateway_env \<Rightarrow> gateway_setup \<Rightarrow> conn \<Rightarrow> rng \<Rightarrow> gateway_outcome" where
  "outcome_of E s c g =
     run_callback (env_unifold E) (env_lookup E) (env_dial E) (env_decoy E) (env_crypto E) s g (handle (env_crypto E) (gs_server s) c)"

inductive session_step :: "gateway_env \<Rightarrow> gateway_setup \<Rightarrow> session \<Rightarrow> session \<Rightarrow> bool" for E s where
  ses_handle: "session_step E s (Arrived c g) (Handled (outcome_of E s c g))"
| ses_tunnel: "tunnel_step st st' \<Longrightarrow> session_step E s (Handled (OutTunnel (Inr st))) (Handled (OutTunnel (Inr st')))"
| ses_decoy: "proxy_step st st' \<Longrightarrow>
     session_step E s (Handled (OutProxy (ProxyRunning st))) (Handled (OutProxy (ProxyRunning st')))"

inductive_cases session_stepE: "session_step E s ses ses'"
inductive_cases session_step_ArrivedE: "session_step E s (Arrived c g) ses'"
inductive_cases session_step_HandledE: "session_step E s (Handled out) ses'"

section \<open>The process\<close>

datatype listener_event = Incoming conn rng | AcceptError

datatype profile_server = NoProfile | ProfileServing | ProfileFailed | ProfileStopped
datatype watcher = Waiting | ShuttingDownProfile | WatcherDone
datatype main_state = Serving | Returned

record gateway_process =
  gp_accepts :: "listener_event list"
  gp_listening :: bool
  gp_signalled :: bool
  gp_ctx_done :: bool
  gp_profile :: profile_server
  gp_watcher :: watcher
  gp_main :: main_state
  gp_sessions :: "session list"
  gp_exit :: "nat option"

text \<open>
  The process when \<^verbatim>\<open>run\<close> starts to serve; \<open>as\<close> is what the listener is going to yield.  An error
  of \<^verbatim>\<open>run\<close> before that makes \<^verbatim>\<open>main\<close> log it and exit with status 1.
\<close>

definition gateway_main :: "(run_error, gateway_setup) result \<Rightarrow> listener_event list \<Rightarrow> gateway_process" where
  "gateway_main setup as =
     (case setup of
        Inl e \<Rightarrow> \<lparr>gp_accepts = as, gp_listening = False, gp_signalled = False, gp_ctx_done = False, gp_profile = NoProfile, gp_watcher = Waiting,
                   gp_main = Returned, gp_sessions = [], gp_exit = Some 1\<rparr>
      | Inr s \<Rightarrow> \<lparr>gp_accepts = as, gp_listening = True, gp_signalled = False, gp_ctx_done = False,
                   gp_profile = (case gs_pprof s of None \<Rightarrow> NoProfile | Some a \<Rightarrow> ProfileServing), gp_watcher = Waiting,
                   gp_main = Serving, gp_sessions = [], gp_exit = None\<rparr>)"

text \<open>
  In the order of the source: a signal ends the context; the profiling server fails (its error is
  logged and \<^verbatim>\<open>stop\<close> ends the context); the watching goroutine closes the listener and then
  shuts the profiling server down; the accept loop takes a connection or skips an error; on the closed
  listener it returns, \<^verbatim>\<open>run\<close> returns without an error (its deferred \<^verbatim>\<open>stop\<close> ends the context)
  and then \<^verbatim>\<open>main\<close>, which ends the process with status 0; a connection's goroutine takes a step;
  or it reads from a nil reader, a panic that ends the process with status 2.
\<close>

inductive gateway_step :: "gateway_env \<Rightarrow> gateway_setup \<Rightarrow> gateway_process \<Rightarrow> gateway_process \<Rightarrow> bool" for E s where
  gp_signal: "gp_exit p = None \<Longrightarrow> \<not> gp_ctx_done p \<Longrightarrow> gateway_step E s p (p\<lparr>gp_signalled := True, gp_ctx_done := True\<rparr>)"
| gp_profile_fails: "gp_exit p = None \<Longrightarrow> gp_profile p = ProfileServing \<Longrightarrow>
     gateway_step E s p (p\<lparr>gp_profile := ProfileFailed, gp_ctx_done := True\<rparr>)"
| gp_close: "gp_exit p = None \<Longrightarrow> gp_watcher p = Waiting \<Longrightarrow> gp_ctx_done p \<Longrightarrow>
     gateway_step E s p (p\<lparr>gp_listening := False, gp_watcher := (if gs_pprof s = None then WatcherDone else ShuttingDownProfile)\<rparr>)"
| gp_shutdown: "gp_exit p = None \<Longrightarrow> gp_watcher p = ShuttingDownProfile \<Longrightarrow>
     gateway_step E s p (p\<lparr>gp_profile := (if gp_profile p = ProfileServing then ProfileStopped else gp_profile p), gp_watcher := WatcherDone\<rparr>)"
| gp_accept: "gp_exit p = None \<Longrightarrow> gp_main p = Serving \<Longrightarrow> gp_listening p \<Longrightarrow> gp_accepts p = Incoming c g # as \<Longrightarrow>
     gateway_step E s p (p\<lparr>gp_accepts := as, gp_sessions := gp_sessions p @ [Arrived c g]\<rparr>)"
| gp_accept_error: "gp_exit p = None \<Longrightarrow> gp_main p = Serving \<Longrightarrow> gp_listening p \<Longrightarrow> gp_accepts p = AcceptError # as \<Longrightarrow>
     gateway_step E s p (p\<lparr>gp_accepts := as\<rparr>)"
| gp_return: "gp_exit p = None \<Longrightarrow> gp_main p = Serving \<Longrightarrow> \<not> gp_listening p \<Longrightarrow>
     gateway_step E s p (p\<lparr>gp_main := Returned, gp_ctx_done := True\<rparr>)"
| gp_exits: "gp_exit p = None \<Longrightarrow> gp_main p = Returned \<Longrightarrow> gateway_step E s p (p\<lparr>gp_exit := Some 0\<rparr>)"
| gp_session: "gp_exit p = None \<Longrightarrow> pool_step (session_step E s) (gp_sessions p) ss \<Longrightarrow> gateway_step E s p (p\<lparr>gp_sessions := ss\<rparr>)"
| gp_panic: "gp_exit p = None \<Longrightarrow> Handled (OutProxy ProxyNilReader) \<in> set (gp_sessions p) \<Longrightarrow> gateway_step E s p (p\<lparr>gp_exit := Some 2\<rparr>)"

inductive_cases gateway_stepE: "gateway_step E s p p'"

abbreviation gateway_run :: "gateway_env \<Rightarrow> gateway_setup \<Rightarrow> gateway_process \<Rightarrow> gateway_process \<Rightarrow> bool" where
  "gateway_run E s \<equiv> (gateway_step E s)\<^sup>*\<^sup>*"

section \<open>Sessions end\<close>

definition proxy_measure :: "proxy_state \<Rightarrow> nat" where
  "proxy_measure st =
     (if px_up_done st then 0 else Suc (reader_rank (px_replay st))) +
     (if px_down_done st then 0 else Suc (reader_rank (px_upstream_in st)))"

lemma proxy_step_measure:
  assumes "proxy_step st st'"
  shows "proxy_measure st' < proxy_measure st"
  using assms
proof cases
  case (px_up res r' w' n')
  then show ?thesis by (cases res) (auto simp: proxy_measure_def dest: relay_iteration_rank)
next
  case (px_down res r' w' n')
  then show ?thesis by (cases res) (auto simp: proxy_measure_def dest: relay_iteration_rank)
qed (auto simp: proxy_measure_def)

lemma proxy_progress: "\<not> (px_up_done st \<and> px_down_done st) \<Longrightarrow> \<exists>st'. proxy_step st st'"
  by (metis surj_pair proxy_step.intros)

fun outcome_left :: "gateway_outcome \<Rightarrow> nat" where
  "outcome_left (OutTunnel (Inr st)) = run_measure st"
| "outcome_left (OutProxy (ProxyRunning st)) = proxy_measure st"
| "outcome_left out = 0"

fun session_left :: "gateway_env \<Rightarrow> gateway_setup \<Rightarrow> session \<Rightarrow> nat" where
  "session_left E s (Arrived c g) = Suc (outcome_left (outcome_of E s c g))"
| "session_left E s (Handled out) = outcome_left out"

text \<open>The counters of a served tunnel agree with its flags.\<close>

fun session_valid :: "session \<Rightarrow> bool" where
  "session_valid (Handled (OutTunnel (Inr st))) = errs_inv st"
| "session_valid ses = True"

fun session_ended :: "session \<Rightarrow> bool" where
  "session_ended (Arrived c g) = False"
| "session_ended (Handled (OutTunnel (Inr st))) = (ts_closed st \<and> up_ended st \<and> down_ended st)"
| "session_ended (Handled (OutProxy (ProxyRunning st))) = (px_up_done st \<and> px_down_done st)"
| "session_ended (Handled out) = True"

lemma outcome_of_valid: "session_valid (Handled (outcome_of E s c g))"
proof (cases "handle (env_crypto E) (gs_server s) c")
  case (Tunnelled c' session)
  let ?r = "ServeTunnelWithOptions (env_unifold E) (env_lookup E) (env_dial E) (env_crypto E) (Some c') (Some session) (gs_options s) g"
  have "outcome_of E s c g = OutTunnel ?r" using Tunnelled by (simp add: outcome_of_def)
  then show ?thesis by (cases ?r) (auto simp: ServeTunnelWithOptions_def dest: served_start(7))
qed (simp_all add: outcome_of_def)

lemma session_step_valid: "session_valid ses \<Longrightarrow> session_step E s ses ses' \<Longrightarrow> session_valid ses'"
  by (erule session_stepE) (auto simp: outcome_of_valid dest: tunnel_step_errs)

lemma session_step_left: "session_valid ses \<Longrightarrow> session_step E s ses ses' \<Longrightarrow> session_left E s ses' < session_left E s ses"
  by (erule session_stepE) (auto dest: tunnel_step_measure proxy_step_measure)

lemma session_progress: "session_valid ses \<Longrightarrow> \<not> session_ended ses \<Longrightarrow> \<exists>ses'. session_step E s ses ses'"
proof (induction ses rule: session_ended.induct)
  case (2 st)
  with tunnel_progress [of st] show ?case by (auto intro: ses_tunnel)
next
  case (3 st)
  with proxy_progress [of st] show ?case by (auto intro: ses_decoy)
qed (auto intro: ses_handle)

lemma session_ended_final: "session_valid ses \<Longrightarrow> session_ended ses \<Longrightarrow> \<not> session_step E s ses ses'"
proof
  assume "session_valid ses" "session_ended ses" "session_step E s ses ses'"
  from this(3,1,2) show False
  proof cases
    case (ses_tunnel st st')
    from ses_tunnel(3) \<open>session_valid ses\<close> \<open>session_ended ses\<close> show False
      unfolding ses_tunnel(1) by cases (auto simp: errs_inv_def)
  next
    case (ses_decoy st st')
    from ses_decoy(3) \<open>session_ended ses\<close> show False unfolding ses_decoy(1) by cases auto
  qed simp
qed

interpretation gws: goroutines "session_step E s" session_valid session_ended for E s
proof
  show "wf {(s', sa). session_valid sa \<and> session_step E s sa s'}" for E s
    by (rule wf_subset [OF wf_measure [of "session_left E s"]]) (auto dest: session_step_left)
qed (auto intro: session_step_valid session_progress dest: session_ended_final)

section \<open>Reachable processes\<close>

text \<open>The connections among the events of a listener, as the states their goroutines start in.\<close>

fun arrivals :: "listener_event list \<Rightarrow> session list" where
  "arrivals [] = []"
| "arrivals (Incoming c g # as) = Arrived c g # arrivals as"
| "arrivals (AcceptError # as) = arrivals as"

lemma arrivals_append [simp]: "arrivals (as @ bs) = arrivals as @ arrivals bs"
  by (induction as rule: arrivals.induct) simp_all

lemma arrivals_valid: "ses \<in> set (arrivals as) \<Longrightarrow> session_valid ses"
  by (induction as rule: arrivals.induct) auto

text \<open>
  What holds of a process at any time: every connection taken so far has its goroutine, in a state that
  it reaches alone; and the shutdown comes in its order: context, listener, accept loop, exit.
\<close>

definition sessions_inv :: "gateway_env \<Rightarrow> gateway_setup \<Rightarrow> listener_event list \<Rightarrow> gateway_process \<Rightarrow> bool" where
  "sessions_inv E s as p \<longleftrightarrow>
     (\<exists>taken. as = taken @ gp_accepts p \<and> list_all2 (session_step E s)\<^sup>*\<^sup>* (arrivals taken) (gp_sessions p))"

definition shutdown_inv :: "gateway_setup \<Rightarrow> gateway_process \<Rightarrow> bool" where
  "shutdown_inv s p \<longleftrightarrow>
     (gp_ctx_done p \<longrightarrow> gp_signalled p \<or> gp_profile p = ProfileFailed) \<and> (\<not> gp_listening p \<longrightarrow> gp_ctx_done p) \<and> (gp_watcher p = Waiting \<longleftrightarrow> gp_listening p) \<and>
     (gp_main p = Returned \<longrightarrow> \<not> gp_listening p) \<and> (gp_exit p = Some 0 \<longrightarrow> gp_main p = Returned) \<and>
     (gp_exit p = None \<or> gp_exit p = Some 0 \<or> gp_exit p = Some 2) \<and>
     (gp_exit p = Some 2 \<longrightarrow> Handled (OutProxy ProxyNilReader) \<in> set (gp_sessions p)) \<and>
     (gp_profile p = NoProfile \<longleftrightarrow> gs_pprof s = None) \<and> (gp_watcher p = ShuttingDownProfile \<longrightarrow> gs_pprof s \<noteq> None)"

lemma gateway_step_sessions:
  assumes "gateway_step E s p p'" "sessions_inv E s as p"
  shows "sessions_inv E s as p'"
proof -
  from assms(2) obtain taken where t: "as = taken @ gp_accepts p" "list_all2 (session_step E s)\<^sup>*\<^sup>* (arrivals taken) (gp_sessions p)"
    by (auto simp: sessions_inv_def)
  from assms(1) show ?thesis
  proof cases
    case (gp_accept c g bs)
    with t show ?thesis
      by (auto simp: sessions_inv_def intro!: exI [of _ "taken @ [Incoming c g]"] list_all2_appendI)
  next
    case (gp_accept_error bs)
    with t show ?thesis by (auto simp: sessions_inv_def intro!: exI [of _ "taken @ [AcceptError]"])
  next
    case (gp_session ss)
    with t gws.pool_alone show ?thesis by (auto simp: sessions_inv_def)
  qed (use t in \<open>auto simp: sessions_inv_def\<close>)
qed

lemma gateway_step_shutdown:
  assumes "gateway_step E s p p'" "shutdown_inv s p"
  shows "shutdown_inv s p'"
  using assms(1) by cases (use assms(2) in \<open>auto simp: shutdown_inv_def\<close>)

lemma gateway_run_inv:
  assumes "gateway_run E s (gateway_main (Inr s) as) p"
  shows "sessions_inv E s as p \<and> shutdown_inv s p"
  using assms
proof (induction rule: rtranclp_induct)
  case base
  show ?case
    by (auto simp: gateway_main_def sessions_inv_def shutdown_inv_def split: option.splits intro!: exI [of _ "[]"])
next
  case (step p p')
  with gateway_step_sessions [OF step(2)] gateway_step_shutdown [OF step(2)] show ?case by blast
qed

text \<open>A session of a reachable process that is being served is the outcome of handling its connection, run on.\<close>

definition session_state :: "gateway_env \<Rightarrow> gateway_setup \<Rightarrow> conn \<Rightarrow> rng \<Rightarrow> session \<Rightarrow> bool" where
  "session_state E s c g ses \<longleftrightarrow> ses = Arrived c g \<or> ses = Handled (outcome_of E s c g) \<or>
     (\<exists>st0 st. outcome_of E s c g = OutTunnel (Inr st0) \<and> tunnel_run st0 st \<and> ses = Handled (OutTunnel (Inr st))) \<or>
     (\<exists>st0 st. outcome_of E s c g = OutProxy (ProxyRunning st0) \<and> proxy_step\<^sup>*\<^sup>* st0 st \<and> ses = Handled (OutProxy (ProxyRunning st)))"

lemma session_state_tunnel:
  "session_state E s c g (Handled (OutTunnel (Inr st))) \<longleftrightarrow> (\<exists>st0. outcome_of E s c g = OutTunnel (Inr st0) \<and> tunnel_run st0 st)"
  by (fastforce simp: session_state_def dest: sym)

lemma session_state_decoy:
  "session_state E s c g (Handled (OutProxy (ProxyRunning st))) \<longleftrightarrow>
     (\<exists>st0. outcome_of E s c g = OutProxy (ProxyRunning st0) \<and> proxy_step\<^sup>*\<^sup>* st0 st)"
  by (fastforce simp: session_state_def dest: sym)

lemma session_run_state:
  assumes "(session_step E s)\<^sup>*\<^sup>* (Arrived c g) ses"
  shows "session_state E s c g ses"
  using assms
proof (induction rule: rtranclp_induct)
  case (step ses ses')
  from step(2,3) show ?case
  proof cases
    case (ses_tunnel st st')
    with step(3) show ?thesis by (auto simp: session_state_tunnel intro: rtranclp.rtrancl_into_rtrancl)
  next
    case (ses_decoy st st')
    with step(3) show ?thesis by (auto simp: session_state_decoy intro: rtranclp.rtrancl_into_rtrancl)
  qed (auto simp: session_state_def)
qed (simp add: session_state_def)

lemma arrivals_run:
  assumes "list_all2 (session_step E s)\<^sup>*\<^sup>* (arrivals as) ss" "i < length ss"
  shows "\<exists>c g. arrivals as ! i = Arrived c g \<and> (session_step E s)\<^sup>*\<^sup>* (Arrived c g) (ss ! i)"
proof -
  have "\<exists>c g. ses = Arrived c g" if "ses \<in> set (arrivals bs)" for ses bs
    using that by (induction bs rule: arrivals.induct) auto
  moreover have "arrivals as ! i \<in> set (arrivals as)" using assms by (simp add: list_all2_conv_all_nth)
  ultimately obtain c g where "arrivals as ! i = Arrived c g" by blast
  with assms show ?thesis by (auto simp: list_all2_conv_all_nth)
qed

text \<open>Whatever the goroutines are doing, from a signal on the process can go straight to its exit.\<close>

lemma exit_now:
  assumes "shutdown_inv s p" "gp_exit p = None" "gp_ctx_done p"
  obtains q where "gateway_run E s p q" "gp_exit q = Some 0" "gp_sessions q = gp_sessions p" "gp_profile q = gp_profile p"
    "gp_accepts q = gp_accepts p" "gp_signalled q = gp_signalled p"
proof -
  obtain p1 where p1: "gateway_run E s p p1" "gp_exit p1 = None" "\<not> gp_listening p1" "gp_sessions p1 = gp_sessions p"
    "gp_profile p1 = gp_profile p" "gp_accepts p1 = gp_accepts p" "gp_signalled p1 = gp_signalled p"
  proof (cases "gp_watcher p = Waiting")
    case True
    from r_into_rtranclp [of "gateway_step E s", OF gp_close [OF assms(2) True assms(3)]] show ?thesis
      using assms(2) by (intro that) (assumption, simp_all)
  next
    case False
    with assms(1,2) show ?thesis by (intro that [of p]) (simp_all add: shutdown_inv_def)
  qed
  obtain p2 where p2: "gateway_run E s p p2" "gp_exit p2 = None" "gp_main p2 = Returned" "gp_sessions p2 = gp_sessions p"
    "gp_profile p2 = gp_profile p" "gp_accepts p2 = gp_accepts p" "gp_signalled p2 = gp_signalled p"
  proof (cases "gp_main p1")
    case Serving
    from rtranclp.rtrancl_into_rtrancl [OF p1(1) gp_return [OF p1(2) Serving p1(3)]] show ?thesis
      using p1 by (intro that) (assumption, simp_all)
  next
    case Returned
    with p1 show ?thesis by (intro that [of p1]) simp_all
  qed
  from rtranclp.rtrancl_into_rtrancl [OF p2(1) gp_exits [OF p2(2,3)]] show ?thesis
    using p2 by (intro that) (assumption, simp_all)
qed

section \<open>The process ends\<close>

lemma gateway_step_running: "gateway_step E s p p' \<Longrightarrow> gp_exit p = None"
  by (induction rule: gateway_step.induct)

definition process_left :: "gateway_process \<Rightarrow> nat" where
  "process_left p =
     length (gp_accepts p) + of_bool (\<not> gp_ctx_done p) + (case gp_watcher p of Waiting \<Rightarrow> 2 | ShuttingDownProfile \<Rightarrow> 1 | WatcherDone \<Rightarrow> 0) +
     of_bool (gp_profile p = ProfileServing) + of_bool (gp_main p = Serving) + of_bool (gp_exit p = None)"

definition process_order :: "gateway_env \<Rightarrow> gateway_setup \<Rightarrow> (gateway_process \<times> gateway_process) set" where
  "process_order E s =
     inv_image (less_than <*lex*> listrel1 {(ses', ses). session_valid ses \<and> session_step E s ses ses'}) (\<lambda>p. (process_left p, gp_sessions p))"

lemma process_order_wf: "wf (process_order E s)"
  unfolding process_order_def by (intro wf_inv_image wf_lex_prod wf_less_than gws.pool_order_wf)

lemma sessions_inv_valid: "sessions_inv E s as p \<Longrightarrow> ses \<in> set (gp_sessions p) \<Longrightarrow> session_valid ses"
  unfolding sessions_inv_def by (blast intro: gws.pool_valid arrivals_valid)

lemma gateway_step_order:
  assumes "gateway_step E s p p'" "sessions_inv E s as p"
  shows "(p', p) \<in> process_order E s"
  using assms(1)
proof cases
  case (gp_session ss)
  have "\<forall>ses \<in> set (gp_sessions p). session_valid ses" using sessions_inv_valid [OF assms(2)] by blast
  from gws.pool_step_order [OF gp_session(3) this] gp_session(1) show ?thesis
    by (simp add: process_order_def process_left_def)
qed (auto simp: process_order_def process_left_def split: watcher.splits)

lemma gateway_progress:
  assumes "shutdown_inv s p" "gp_exit p = None"
  shows "\<exists>p'. gateway_step E s p p'"
proof (cases "gp_ctx_done p")
  case True
  show ?thesis
  proof (cases "gp_watcher p = Waiting")
    case False
    with assms have "\<not> gp_listening p" by (simp add: shutdown_inv_def)
    with assms(2) show ?thesis by (cases "gp_main p") (blast intro: gp_return gp_exits)+
  qed (use True assms in \<open>blast intro: gp_close\<close>)
qed (use assms in \<open>blast intro: gp_signal\<close>)

section \<open>What the outcomes are\<close>

lemma prepareGatewayTLS_deadline:
  "prepareGatewayTLS T config raw = (Inr nc, raw') \<Longrightarrow> \<exists>u. nc = UTLSConn u \<and> conn_deadline_err (tls_inner u) = None"
  by (auto simp: prepareGatewayTLS_def conn_SetReadDeadline_def Let_def split: prod.splits sum.splits if_splits option.splits)

lemma AuthenticateReplay_reader:
  "conn_deadline_err c = None \<Longrightarrow> AuthenticateReplay session c = ((replay, Some e), c') \<Longrightarrow> replay \<noteq> None"
  by (auto simp: AuthenticateReplay_def conn_SetReadDeadline_def Let_def split: prod.splits option.splits if_splits)

text \<open>With the preparation that the program installs no nil reader gets to the relay.\<close>

lemma no_nil_reader:
  assumes "run_setup T readFile unmarshal netListen env path flag = Inr s"
  shows "outcome_of E s c g \<noteq> OutProxy ProxyNilReader"
proof -
  obtain config where prep: "Prepare (gs_server s) = Some (prepareGatewayTLS T (Some config))"
    by (rule run_setup_Inr [OF assms])
  have "replay \<noteq> None" if "handle L (gs_server s) c = FellBack c' replay" for L c' replay
  proof (cases "prepareGatewayTLS T (Some config) (c\<lparr>conn_in := CaptureConn (conn_in c) []\<rparr>)")
    case (Pair res raw')
    show ?thesis
    proof (cases res)
      case (Inl e)
      with that prep Pair show ?thesis by (auto simp: handle_def split: if_splits)
    next
      case (Inr nc)
      with prepareGatewayTLS_deadline Pair obtain u where u: "nc = UTLSConn u" "conn_deadline_err (tls_inner u) = None" by blast
      with that prep Pair Inr AuthenticateReplay_reader [OF u(2)] show ?thesis
        by (auto simp: handle_def handle_prepared_def split: sum.splits prod.splits option.splits if_splits)
    qed
  qed
  then show ?thesis
    by (cases "handle (env_crypto E) (gs_server s) c")
      (auto simp: outcome_of_def proxyToNginx_def split: if_splits option.splits)
qed

lemma no_panic:
  assumes "run_setup T readFile unmarshal netListen env path flag = Inr s" "sessions_inv E s as p"
  shows "Handled (OutProxy ProxyNilReader) \<notin> set (gp_sessions p)"
proof
  assume "Handled (OutProxy ProxyNilReader) \<in> set (gp_sessions p)"
  then obtain i where i: "i < length (gp_sessions p)" "gp_sessions p ! i = Handled (OutProxy ProxyNilReader)" by (auto simp: in_set_conv_nth)
  from assms(2) obtain taken where t: "list_all2 (session_step E s)\<^sup>*\<^sup>* (arrivals taken) (gp_sessions p)" by (auto simp: sessions_inv_def)
  from arrivals_run [OF t i(1)] i(2) obtain c g where "(session_step E s)\<^sup>*\<^sup>* (Arrived c g) (Handled (OutProxy ProxyNilReader))" by auto
  from session_run_state [OF this] no_nil_reader [OF assms(1), of E c g] show False by (auto simp: session_state_def)
qed

section \<open>Properties\<close>

lemma session_at:
  assumes "gateway_run E s (gateway_main (Inr s) as) p" "i < length (gp_sessions p)" "arrivals as ! i = Arrived c g"
  shows "(session_step E s)\<^sup>*\<^sup>* (Arrived c g) (gp_sessions p ! i)"
proof -
  from gateway_run_inv [OF assms(1)] obtain taken where t: "as = taken @ gp_accepts p"
    "list_all2 (session_step E s)\<^sup>*\<^sup>* (arrivals taken) (gp_sessions p)" by (auto simp: sessions_inv_def)
  then have "arrivals as ! i = arrivals taken ! i" using assms(2) by (subst t(1)) (simp add: list_all2_lengthD nth_append)
  with t(2) assms(2,3) show ?thesis by (auto simp: list_all2_conv_all_nth)
qed


text \<open>
  C5.  The gateway ends when it is told to and only then: no run is infinite, a run stops only at the exit
  of the process, and from the moment the context is done every state can go to the exit.  The exit
  status is 0, which comes only after a signal or a failure of the profiling server, with the
  listener closed and the accept loop returned; no connection gets to the nil reader that panics.
\<close>

theorem gateway_stops:
  assumes "run_setup T readFile unmarshal netListen env path flag = Inr s"
  shows "wf {(p', p). gateway_run E s (gateway_main (Inr s) as) p \<and> gateway_step E s p p'} \<and>
    (\<forall>p. gateway_run E s (gateway_main (Inr s) as) p \<longrightarrow>
       ((\<nexists>p'. gateway_step E s p p') \<longleftrightarrow> gp_exit p \<noteq> None) \<and>
       (gp_ctx_done p \<longrightarrow> (\<exists>q. gateway_run E s p q \<and> gp_exit q = Some 0)) \<and>
       (gp_exit p \<noteq> None \<longrightarrow> gp_exit p = Some 0 \<and> gp_main p = Returned \<and> \<not> gp_listening p \<and>
          (gp_signalled p \<or> gp_profile p = ProfileFailed)))"
proof -
  let ?start = "gateway_main (Inr s) as"
  have "wf {(p', p). gateway_run E s ?start p \<and> gateway_step E s p p'}"
    by (rule wf_subset [OF process_order_wf [of E s]]) (auto dest: gateway_step_order gateway_run_inv)
  moreover have "((\<nexists>p'. gateway_step E s p p') \<longleftrightarrow> gp_exit p \<noteq> None) \<and>
      (gp_ctx_done p \<longrightarrow> (\<exists>q. gateway_run E s p q \<and> gp_exit q = Some 0)) \<and>
      (gp_exit p \<noteq> None \<longrightarrow> gp_exit p = Some 0 \<and> gp_main p = Returned \<and> \<not> gp_listening p \<and>
         (gp_signalled p \<or> gp_profile p = ProfileFailed))"
    if run: "gateway_run E s ?start p" for p
  proof -
    from gateway_run_inv [OF run] have inv: "sessions_inv E s as p" "shutdown_inv s p" by simp_all
    have exit: "gp_exit p \<noteq> None \<longrightarrow> gp_exit p = Some 0"
      using inv(2) no_panic [OF assms inv(1)] by (auto simp: shutdown_inv_def)
    have "(\<nexists>p'. gateway_step E s p p') \<longleftrightarrow> gp_exit p \<noteq> None"
      using gateway_progress [OF inv(2), of E] gateway_step_running [of E s p] by metis
    moreover have "\<exists>q. gateway_run E s p q \<and> gp_exit q = Some 0" if ctx: "gp_ctx_done p"
    proof (cases "gp_exit p = None")
      case True
      from exit_now [OF inv(2) True ctx, of E] show ?thesis by blast
    qed (use exit in blast)
    moreover have "gp_exit p \<noteq> None \<longrightarrow> gp_main p = Returned \<and> \<not> gp_listening p \<and> (gp_signalled p \<or> gp_profile p = ProfileFailed)"
      using exit inv(2) unfolding shutdown_inv_def by blast
    ultimately show ?thesis using exit by blast
  qed
  ultimately show ?thesis by blast
qed

text \<open>
  C39.  Shutting down does not wait for anybody: whatever connections are being served, after a signal
  the process can exit with status 0 before any of them has taken another step, and before the
  profiling server has been shut down.
\<close>

theorem shutdown_drops_sessions:
  assumes "gateway_run E s (gateway_main (Inr s) as) p" "gp_exit p = None"
  shows "\<exists>q. gateway_run E s p q \<and> gp_exit q = Some 0 \<and> gp_sessions q = gp_sessions p \<and> gp_profile q = gp_profile p"
proof -
  have inv: "shutdown_inv s p" using gateway_run_inv [OF assms(1)] by simp
  show ?thesis
  proof (cases "gp_ctx_done p")
    case True
    with exit_now [OF inv assms(2)] show ?thesis by metis
  next
    case False
    note step = gp_signal [OF assms(2) False, of E s]
    have "shutdown_inv s (p\<lparr>gp_signalled := True, gp_ctx_done := True\<rparr>)" using gateway_step_shutdown [OF step inv] .
    with exit_now [OF this, of E] assms(2) obtain q where
      "gateway_run E s (p\<lparr>gp_signalled := True, gp_ctx_done := True\<rparr>) q" "gp_exit q = Some 0" "gp_sessions q = gp_sessions p" "gp_profile q = gp_profile p"
      by auto
    with converse_rtranclp_into_rtranclp [of "gateway_step E s", OF step] show ?thesis by blast
  qed
qed

text \<open>
  C40.  When the profiling server cannot listen, the whole gateway ends, and it ends with the exit status
  of success: without any signal and without having accepted a connection the process can exit with
  status 0.
\<close>

theorem profile_failure_exits_cleanly:
  assumes "gs_pprof s = Some a"
  shows "\<exists>q. gateway_run E s (gateway_main (Inr s) as) q \<and> gp_exit q = Some 0 \<and> gp_profile q = ProfileFailed \<and>
    \<not> gp_signalled q \<and> gp_sessions q = [] \<and> gp_accepts q = as"
proof -
  let ?p = "gateway_main (Inr s) as" and ?p1 = "(gateway_main (Inr s) as)\<lparr>gp_profile := ProfileFailed, gp_ctx_done := True\<rparr>"
  have p: "gp_exit ?p = None" "gp_profile ?p = ProfileServing" "gp_sessions ?p = []" "gp_accepts ?p = as" "\<not> gp_signalled ?p"
    using assms by (simp_all add: gateway_main_def)
  note step = gp_profile_fails [OF p(1,2), of E s]
  have "shutdown_inv s ?p1" using gateway_run_inv [of E s as, OF r_into_rtranclp, OF step] by simp
  from exit_now [OF this, of E] p obtain q where "gateway_run E s ?p1 q" "gp_exit q = Some 0" "gp_sessions q = []"
    "gp_profile q = ProfileFailed" "gp_accepts q = as" "gp_signalled q = False" by auto
  with converse_rtranclp_into_rtranclp [of "gateway_step E s", OF step] show ?thesis by blast
qed

section \<open>Witnesses\<close>

definition decoy_config :: Config where
  "decoy_config = sample_Config\<lparr>conf_FallbackAddress := ''nginx:8080''\<rparr>"

text \<open>A TLS library whose server side refuses every handshake, or leads to the plaintext connection \<open>c\<close>.\<close>

definition decoy_tls :: "conn option \<Rightarrow> tls_lib" where
  "decoy_tls plain = refusing_tls\<lparr>lib_KeyPair := \<lambda>a b. Some 0, lib_Server := \<lambda>config raw. (case plain of None \<Rightarrow> Inl raw
     | Some c \<Rightarrow> Inr \<lparr>tls_inner = c, tls_ConnectionState = \<lparr>tls_Version = VersionTLS13, tls_Export = (\<lambda>label n. Some (replicate n 6))\<rparr>\<rparr>)\<rparr>"

definition decoy_setup :: "conn option \<Rightarrow> (run_error, gateway_setup) result" where
  "decoy_setup plain =
     run_setup (decoy_tls plain) (\<lambda>p. Inr []) (\<lambda>d. Inr decoy_config) (\<lambda>a. None) sample_env ''server.yaml'' ''0.0.0.0:443''"

definition sample_gateway_env :: "conn option \<Rightarrow> gateway_env" where
  "sample_gateway_env upstream = \<lparr>env_unifold = (\<lambda>a b. False), env_lookup = (\<lambda>h. Inr [[93, 184, 216, 34]]),
     env_dial = (\<lambda>a. Inr (sample_conn [])), env_decoy = (\<lambda>a. upstream), env_crypto = sample_lib\<rparr>"

lemma decoy_setup_Inr:
  obtains s config where "decoy_setup plain = Inr s" "gs_fallback s = ''nginx:8080''" "gs_pprof s = Some ''127.0.0.1:6060''"
    "Prepare (gs_server s) = Some (prepareGatewayTLS (decoy_tls plain) (Some config))" "Exporter (gs_server s) = exportServerKeyingMaterial"
    "OnAuthenticated (gs_server s)" "srv_PSK (gs_server s) = map of_nat [0..<16]" "AllowedDestinations (gs_options s) = []"
proof -
  have load: "Load (\<lambda>p. Inr []) (\<lambda>d. Inr decoy_config) ''server.yaml'' = Inr decoy_config" by code_simp
  have key: "hex_DecodeString sample_env = Inr (map of_nat [0..<16])" by code_simp
  have env: "sample_env \<noteq> ''''" by (simp add: sample_env_def)
  have files: "conf_CertFile decoy_config = ''server.crt''" "conf_KeyFile decoy_config = ''server.key''" "conf_AllowedDestinations decoy_config = []"
    "conf_FallbackAddress decoy_config = ''nginx:8080''" "conf_PprofAddress decoy_config = ''127.0.0.1:6060''"
    by (simp_all add: decoy_config_def sample_Config_def)
  show ?thesis
    using env by (intro that) (auto simp: decoy_setup_def decoy_tls_def run_setup_def load key files TLSServerConfig_def minPSKLen_def)
qed

lemma accept_one:
  obtains p where "gateway_run E s (gateway_main (Inr s) [Incoming c g]) p" "gp_sessions p = [Arrived c g]" "gp_exit p = None"
    "gp_accepts p = []" "gp_main p = Serving" "gp_listening p"
proof -
  let ?p0 = "gateway_main (Inr s) [Incoming c g]"
  have "gateway_step E s ?p0 (?p0\<lparr>gp_accepts := [], gp_sessions := gp_sessions ?p0 @ [Arrived c g]\<rparr>)"
    by (rule gp_accept) (simp_all add: gateway_main_def)
  from r_into_rtranclp [of "gateway_step E s", OF this] show ?thesis
    by (rule that) (simp_all add: gateway_main_def)
qed

lemma accept_and_handle:
  obtains p where "gateway_run E s (gateway_main (Inr s) [Incoming c g]) p" "gp_sessions p = [Handled (outcome_of E s c g)]" "gp_exit p = None"
proof -
  obtain q where q: "gateway_run E s (gateway_main (Inr s) [Incoming c g]) q" "gp_sessions q = [Arrived c g]" "gp_exit q = None"
    by (rule accept_one)
  have "pool_step (session_step E s) [Arrived c g] ([Arrived c g][0 := Handled (outcome_of E s c g)])"
    by (rule pool_member) (simp_all add: ses_handle)
  then have "gateway_step E s q (q\<lparr>gp_sessions := [Handled (outcome_of E s c g)]\<rparr>)"
    using q(2) by (intro gp_session [OF q(3)]) simp
  from rtranclp.rtrancl_into_rtrancl [OF q(1) this] show ?thesis by (rule that) (simp_all add: q(3))
qed

text \<open>A goroutine that serves a tunnel can take its steps in the process.\<close>

lemma tunnel_in_process:
  assumes "tunnel_run st0 st" "gateway_run E s start q" "gp_exit q = None" "gp_sessions q = [Handled (OutTunnel (Inr st0))]"
  obtains p where "gateway_run E s start p" "gp_sessions p = [Handled (OutTunnel (Inr st))]"
proof -
  have "\<exists>p. gateway_run E s start p \<and> gp_exit p = None \<and> gp_sessions p = [Handled (OutTunnel (Inr st))]"
    using assms(1)
  proof (induction rule: rtranclp_induct)
    case base
    with assms(2-4) show ?case by blast
  next
    case (step st st')
    then obtain p where p: "gateway_run E s start p" "gp_exit p = None" "gp_sessions p = [Handled (OutTunnel (Inr st))]" by blast
    have "pool_step (session_step E s) [Handled (OutTunnel (Inr st))] ([Handled (OutTunnel (Inr st))][0 := Handled (OutTunnel (Inr st'))])"
      by (rule pool_member) (simp_all add: ses_tunnel [OF step(2)])
    then have "gateway_step E s p (p\<lparr>gp_sessions := [Handled (OutTunnel (Inr st'))]\<rparr>)" using p(3) by (intro gp_session [OF p(2)]) simp
    from rtranclp.rtrancl_into_rtrancl [OF p(1) this] p(2) show ?case by fastforce
  qed
  then show ?thesis using that by blast
qed


theorem gateway_stops_witness:
  "\<exists>s p q. decoy_setup None = Inr s \<and> gateway_run (sample_gateway_env None) s (gateway_main (Inr s) []) p \<and> gp_signalled p \<and>
     gateway_run (sample_gateway_env None) s p q \<and> gp_exit q = Some 0 \<and> gp_main q = Returned"
proof -
  obtain s where s: "decoy_setup None = Inr s" by (rule decoy_setup_Inr)
  let ?E = "sample_gateway_env None" and ?start = "gateway_main (Inr s) []"
  let ?p = "?start\<lparr>gp_signalled := True, gp_ctx_done := True\<rparr>"
  have step: "gateway_step ?E s ?start ?p" by (rule gp_signal) (simp_all add: gateway_main_def)
  note run = r_into_rtranclp [of "gateway_step ?E s", OF step]
  note stops = gateway_stops [OF s [unfolded decoy_setup_def], of ?E "[]", THEN conjunct2, rule_format]
  have "gp_ctx_done ?p" by simp
  with stops [OF run] obtain q where q: "gateway_run ?E s ?p q" "gp_exit q = Some 0" by blast
  have "gateway_run ?E s ?start q" using run q(1) by (rule rtranclp_trans)
  with stops [of q] q(2) have "gp_main q = Returned" by blast
  with s run q show ?thesis by (intro exI [of _ s] exI [of _ ?p] exI [of _ q]) simp
qed

theorem shutdown_drops_sessions_witness:
  "\<exists>s p q. gateway_run (sample_gateway_env None) s (gateway_main (Inr s) [Incoming (sample_conn []) sample_rng]) p \<and>
     gateway_run (sample_gateway_env None) s p q \<and> gp_exit q = Some 0 \<and> gp_sessions q = [Arrived (sample_conn []) sample_rng]"
proof -
  obtain s where "decoy_setup None = Inr s" by (rule decoy_setup_Inr)
  obtain p where p: "gateway_run (sample_gateway_env None) s (gateway_main (Inr s) [Incoming (sample_conn []) sample_rng]) p"
    "gp_sessions p = [Arrived (sample_conn []) sample_rng]" "gp_exit p = None" by (rule accept_one)
  from shutdown_drops_sessions [OF p(1,3)] p show ?thesis by metis
qed

theorem profile_failure_exits_cleanly_witness:
  "\<exists>s q. decoy_setup None = Inr s \<and> gateway_run (sample_gateway_env None) s (gateway_main (Inr s) []) q \<and> gp_exit q = Some 0 \<and> \<not> gp_signalled q"
proof -
  obtain s where s: "decoy_setup None = Inr s" "gs_pprof s = Some ''127.0.0.1:6060''" by (rule decoy_setup_Inr)
  from profile_failure_exits_cleanly [OF s(2), of "sample_gateway_env None" "[]"] s(1) show ?thesis by blast
qed

end
