(* ===== verification/Gateway_Safety.thy ===== *)
theory Gateway_Safety
  imports Gateway_Process
begin

text \<open>
  What the running gateway guarantees about each of its connections, whatever the others do: who is
  shown the decoy, and that nothing is dialled or forwarded for a peer without the key.  The
  statements are about a reachable process of \<open>gateway_step\<close> and the goroutine of one accepted
  connection; they come from the isolation of the goroutines and the lemmas on handling a single one.
\<close>

section \<open>What the peer of a decoy session sees\<close>

text \<open>
  \<open>shows_decoy stream base upstream st\<close>: the decoy has received a prefix of \<open>stream\<close> and nothing else,
  the peer a prefix of what the decoy has sent, and a copy that ended without an error on either side
  has delivered everything.
\<close>

definition shows_decoy :: "bytes \<Rightarrow> writer \<Rightarrow> conn \<Rightarrow> proxy_state \<Rightarrow> bool" where
  "shows_decoy stream base upstream st \<longleftrightarrow>
     (\<exists>data rest. written (px_upstream_out st) = written (conn_out upstream) @ data \<and> stream = data @ rest \<and>
        (px_up_done st \<and> \<not> px_closed st \<longrightarrow> rest = [])) \<and>
     (\<exists>data rest. written (px_client_out st) = written base @ data \<and> reader_stream (arm_deadline False (conn_in upstream)) = data @ rest \<and>
        (px_down_done st \<and> \<not> px_closed st \<longrightarrow> rest = []))"

lemma decoy_session:
  assumes "handle (env_crypto E) (gs_server s) c = FellBack c' (Some r)" "gs_fallback s \<noteq> ''''" "env_decoy E (gs_fallback s) = Some upstream"
    and "reader_ok (arm_deadline True r)" "reader_ok (arm_deadline False r)"
    and "reader_ok (arm_deadline True (conn_in upstream))" "reader_ok (arm_deadline False (conn_in upstream))"
    and "session_state E s c g (Handled out)"
  shows "\<exists>st. out = OutProxy (ProxyRunning st) \<and> shows_decoy (reader_stream (arm_deadline False r)) (conn_out c') upstream st"
proof -
  let ?start = "\<lparr>px_replay = r, px_upstream_out = conn_out upstream, px_upstream_in = conn_in upstream, px_client_out = conn_out c',
    px_up_done = False, px_down_done = False, px_closed = False, px_up_total = 0, px_down_total = 0\<rparr>"
  have out: "outcome_of E s c g = OutProxy (ProxyRunning ?start)"
    using assms(1-3) by (simp add: outcome_of_def proxyToNginx_def)
  with assms(8) obtain st where st: "out = OutProxy (ProxyRunning st)" "proxy_step\<^sup>*\<^sup>* ?start st"
    by (auto simp: session_state_def)
  from proxy_run_copied [OF st(2)] assms(4,6) have
    "copied r (conn_out upstream) (px_replay st) (px_upstream_out st) (px_closed st) (px_up_done st)"
    "copied (conn_in upstream) (conn_out c') (px_upstream_in st) (px_client_out st) (px_closed st) (px_down_done st)" by auto
  from copied_wire [OF this(1) assms(5)] copied_wire [OF this(2) assms(7)] st(1) show ?thesis
    unfolding shows_decoy_def by blast
qed

lemma run_setup_prepare:
  assumes "run_setup T readFile unmarshal netListen env path flag = Inr s"
  obtains certFile keyFile config where "TLSServerConfig T certFile keyFile = Inr config"
    "Prepare (gs_server s) = Some (prepareGatewayTLS T (Some config))" "OnFallback (gs_server s)" "OnAuthenticated (gs_server s)"
    "cfg_MinVersion config = VersionTLS13" "cfg_MaxVersion config = VersionTLS13"
proof -
  obtain cfg :: Config and config where c: "TLSServerConfig T (conf_CertFile cfg) (conf_KeyFile cfg) = Inr config"
    "Prepare (gs_server s) = Some (prepareGatewayTLS T (Some config))" "OnFallback (gs_server s)" "OnAuthenticated (gs_server s)"
    by (rule run_setup_Inr [OF assms]) blast
  moreover from c(1) have "cfg_MinVersion config = VersionTLS13" "cfg_MaxVersion config = VersionTLS13"
    by (auto simp: TLSServerConfig_def split: if_splits option.splits)
  ultimately show ?thesis by (rule that)
qed

text \<open>A failed preparation, with everything it consumed in the replay.\<close>

lemma unprepared_falls_back:
  assumes "Prepare srv = Some (prepareGatewayTLS T (Some config))" "OnFallback srv" "tls_server_ok T config"
    and "cfg_MinVersion config = VersionTLS13" "cfg_MaxVersion config = VersionTLS13" "conn_in c = NetConn as b e"
    and "prepareGatewayTLS T (Some config) (c\<lparr>conn_in := CaptureConn (conn_in c) []\<rparr>) = (Inl err, raw)"
  obtains r where "handle L srv c = FellBack raw (Some r)" "reader_stream (arm_deadline False r) = net_stream as False"
    "reader_ok (arm_deadline True r)" "reader_ok (arm_deadline False r)"
proof -
  have "capturing as e (conn_in (c\<lparr>conn_in := CaptureConn (conn_in c) []\<rparr>))" using assms(6) by (simp add: capturing_def)
  from prepare_failure [OF assms(7) this assms(3-5)] have raw: "capturing as e (conn_in raw)" by simp
  have "handle L srv c = FellBack raw (Some (MultiReader [BytesReader (captured (conn_in raw)), conn_in raw]))"
    using assms(1,2,7) by (simp add: handle_def)
  with capturing_replay [OF raw] show ?thesis using that by blast
qed

text \<open>A prepared connection without a proof.\<close>

lemma unproved_falls_back:
  assumes "Prepare srv = Some (prepareGatewayTLS T config)" "OnFallback srv"
    and "prepareGatewayTLS T config (c\<lparr>conn_in := CaptureConn (conn_in c) []\<rparr>) = (Inr nc, raw)"
    and "net_inner nc = Some tc" "conn_in tc = NetConn as b e"
    and "Exporter srv nc = Inr material" "NewAuthSession L (srv_PSK srv) material = Inr ses" "\<not> valid_proof ses (net_stream as True)"
  obtains c' r where "handle L srv c = FellBack c' (Some r)" "reader_stream (arm_deadline False r) = net_stream as False"
    "reader_ok (arm_deadline True r)" "reader_ok (arm_deadline False r)" "conn_out c' = conn_out tc"
proof -
  have dl: "conn_deadline_err tc = None" using prepareGatewayTLS_deadline [OF assms(3)] assms(4) by auto
  obtain seen buf as' where auth: "AuthenticateReplay ses tc = auth_outcome ses tc (net_stream as True) seen buf (NetConn as' False e)"
    "net_stream as False = seen @ buf @ net_stream as' False"
    by (rule AuthenticateReplay_cases [OF assms(5) dl, of ses])
  let ?r = "MultiReader [BytesReader seen, BufioReader (NetConn as' False e) buf None]"
  have "handle L srv c = FellBack (tc\<lparr>conn_in := NetConn as' False e\<rparr>) (Some ?r)"
    using assms auth(1) by (simp add: handle_def handle_prepared_def auth_outcome_def Let_def)
  with auth(2) show ?thesis by (intro that [of "tc\<lparr>conn_in := NetConn as' False e\<rparr>" ?r]) simp_all
qed

section \<open>Properties\<close>

text \<open>
  C6.  A peer that does not get through the TLS handshake sees the decoy: whatever other connections the
  running gateway serves, a connection whose preparation fails (nothing arrives before the deadline,
  the first byte is not that of a TLS handshake record, the handshake fails) is relayed to the
  configured decoy.  What the decoy has received is a prefix of all the peer sends, from its very first
  byte on; what the peer has received since is a prefix of what the decoy sends; a copy that ended
  without an error on either side has delivered everything.
\<close>

theorem unprepared_sees_decoy:
  assumes "run_setup T readFile unmarshal netListen env path flag = Inr s" "\<And>config. tls_server_ok T config"
    and "gateway_run E s (gateway_main (Inr s) as) p" "i < length (gp_sessions p)" "arrivals as ! i = Arrived c g"
    and "gp_sessions p ! i = Handled out" "conn_in c = NetConn bs b e"
    and "Prepare (gs_server s) = Some prepare" "prepare (c\<lparr>conn_in := CaptureConn (conn_in c) []\<rparr>) = (Inl err, raw)"
    and "gs_fallback s \<noteq> ''''" "env_decoy E (gs_fallback s) = Some upstream" "conn_in upstream = NetConn us ub ue"
  shows "\<exists>st. out = OutProxy (ProxyRunning st) \<and> shows_decoy (net_stream bs False) (conn_out raw) upstream st"
proof -
  obtain config where prep: "Prepare (gs_server s) = Some (prepareGatewayTLS T (Some config))" "OnFallback (gs_server s)"
    "cfg_MinVersion config = VersionTLS13" "cfg_MaxVersion config = VersionTLS13"
    by (rule run_setup_prepare [OF assms(1)]) blast
  have "prepareGatewayTLS T (Some config) (c\<lparr>conn_in := CaptureConn (conn_in c) []\<rparr>) = (Inl err, raw)"
    using prep(1) assms(8,9) by simp
  from unprepared_falls_back [OF prep(1,2) assms(2) prep(3,4) assms(7) this, of "env_crypto E"] obtain r where
    r: "handle (env_crypto E) (gs_server s) c = FellBack raw (Some r)" "reader_stream (arm_deadline False r) = net_stream bs False"
    "reader_ok (arm_deadline True r)" "reader_ok (arm_deadline False r)" by blast
  have up: "reader_ok (arm_deadline x (conn_in upstream))" for x using assms(12) by simp
  have "session_state E s c g (Handled out)" using session_run_state [OF session_at [OF assms(3-5)]] assms(6) by simp
  from decoy_session [OF r(1) assms(10,11) r(3,4) up up this] r(2) show ?thesis by simp
qed

text \<open>
  C7.  A peer that completes the TLS handshake but does not prove the key sees the decoy as well: unless
  its first bytes before the deadline are a valid proof for the session of this very connection, all
  it sends is relayed to the decoy, from its first byte on, and all it has received since is from the
  decoy; the gateway itself has not written a byte to it.
\<close>

theorem unauthenticated_sees_decoy:
  assumes "run_setup T readFile unmarshal netListen env path flag = Inr s"
    and "gateway_run E s (gateway_main (Inr s) as) p" "i < length (gp_sessions p)" "arrivals as ! i = Arrived c g"
    and "gp_sessions p ! i = Handled out"
    and "Prepare (gs_server s) = Some prepare" "prepare (c\<lparr>conn_in := CaptureConn (conn_in c) []\<rparr>) = (Inr nc, raw)"
    and "net_inner nc = Some tc" "conn_in tc = NetConn bs b e" "Exporter (gs_server s) nc = Inr material"
    and "NewAuthSession (env_crypto E) (srv_PSK (gs_server s)) material = Inr ses"
    and "\<nexists>f rest. parse_frame (net_stream bs True) = Some (f, rest) \<and> Type f = TypeAuthResponse \<and>
      ClientProof (authKey ses) = Inr (Ciphertext f)"
    and "gs_fallback s \<noteq> ''''" "env_decoy E (gs_fallback s) = Some upstream" "conn_in upstream = NetConn us ub ue"
  shows "\<exists>st. out = OutProxy (ProxyRunning st) \<and> shows_decoy (net_stream bs False) (conn_out tc) upstream st"
proof -
  obtain config where prep: "Prepare (gs_server s) = Some (prepareGatewayTLS T (Some config))" "OnFallback (gs_server s)"
    by (rule run_setup_prepare [OF assms(1)]) blast
  have run: "prepareGatewayTLS T (Some config) (c\<lparr>conn_in := CaptureConn (conn_in c) []\<rparr>) = (Inr nc, raw)"
    using prep(1) assms(6,7) by simp
  have "\<not> valid_proof ses (net_stream bs True)" using assms(12) by (auto simp: valid_proof_def split: option.splits)
  from unproved_falls_back [OF prep run assms(8-11) this] obtain c' r where
    r: "handle (env_crypto E) (gs_server s) c = FellBack c' (Some r)" "reader_stream (arm_deadline False r) = net_stream bs False"
    "reader_ok (arm_deadline True r)" "reader_ok (arm_deadline False r)" "conn_out c' = conn_out tc" by blast
  have up: "reader_ok (arm_deadline x (conn_in upstream))" for x using assms(15) by simp
  have "session_state E s c g (Handled out)" using session_run_state [OF session_at [OF assms(2-4)]] assms(5) by simp
  from decoy_session [OF r(1) assms(13,14) r(3,4) up up this] r(2,5) show ?thesis by simp
qed

text \<open>A tunnel is only started for a connection that was prepared and has proved the key.\<close>

lemma tunnelled_only:
  assumes "Prepare srv = Some prepare" "handle L srv c = Tunnelled c' ses"
  obtains nc raw material replay where "prepare (c\<lparr>conn_in := CaptureConn (conn_in c) []\<rparr>) = (Inr nc, raw)"
    "Exporter srv nc = Inr material" "NewAuthSession L (srv_PSK srv) material = Inr ses"
    "AuthenticateReplay ses (the (net_inner nc)) = ((replay, None), c')"
  using assms
  by (auto simp: handle_def handle_prepared_def Let_def split: sum.splits prod.splits option.splits if_splits)

lemma AuthenticateReplay_proved:
  assumes "conn_in tc = NetConn bs b e" "conn_deadline_err tc = None" "AuthenticateReplay ses tc = ((replay, None), c')"
  shows "valid_proof ses (net_stream bs True) \<and> (\<exists>bs'. conn_in c' = NetConn bs' False e)"
proof -
  obtain seen buf bs' where "AuthenticateReplay ses tc = auth_outcome ses tc (net_stream bs True) seen buf (NetConn bs' False e)"
    by (rule AuthenticateReplay_cases [OF assms(1,2)])
  with assms(3) show ?thesis by (auto simp: auth_outcome_def Let_def split: if_splits prod.splits option.splits)
qed

text \<open>What a served tunnel has written to its destination is authentic data of the client.\<close>

lemma served_authentic:
  assumes "crypto_lib_ok L" "reader_ok (conn_in conn)"
    and "serveTunnelOptions L (Some conn) (Some ses) options dial g = Inr st0" "tunnel_run st0 st"
  obtains target dest a fs ps n where "dial target = Inr dest" "NewAEAD L (c2sKey ses) = Inr a"
    "authentic a 1 TypeDataPayload 1 ps fs" "written (ts_dest_out st) = written (conn_out dest) @ take n (concat ps)"
proof -
  from serveTunnelOptions_Inr [OF assms(3)] obtain channel g' target c' r' dest where
    new: "newTunnelChannel L ses options g = (Inr channel, g')" and rd: "readConnect channel (conn_in conn) = (Inr target, c', r')"
    and dial: "dial target = Inr dest" and st0: "ts_chan st0 = c'" "ts_tunnel_in st0 = r'" "ts_dest_out st0 = conn_out dest"
    by (metis option.inject tunnel_state.select_convs(1,2,5))
  note ch = newTunnelChannel_Inr [OF assms(1) new]
  from rd obtain bs where "tunnel_read TypeConnOpen channel (conn_in conn) = (Inr bs, c', r')"
    by (auto simp: readConnect_def Let_def split: prod.splits sum.splits option.splits if_splits)
  from tunnel_read_only [OF conjunct1 [OF ch] assms(2) this] ch have
    c': "tunnel_ok c'" "tun_receive c' = tun_receive channel" "received c' = 1" "reader_ok r'" by (auto simp: tunnel_ok_def)
  from tunnel_run_authentic [OF assms(3,4)] c' st0 obtain ps fs rest n where
    "authentic (tun_receive channel) 1 TypeDataPayload 1 ps fs" "written (ts_dest_out st) = written (conn_out dest) @ take n (concat ps)" by metis
  with dial ch show ?thesis by (intro that) auto
qed

text \<open>
  \<open>admitted\<close>: the connection was prepared, and its first bytes before the deadline are a valid proof for
  the session.  \<open>public_destination\<close>: the connection was dialled to an address of a resolver's answer
  that passed the policy.
\<close>

definition admitted ::
  "(conn \<Rightarrow> (prepare_error, net_conn) result \<times> conn) \<Rightarrow> crypto_lib \<Rightarrow> Server \<Rightarrow> conn \<Rightarrow> AuthSession \<Rightarrow> bool" where
  "admitted prepare L srv c ses \<longleftrightarrow>
     (\<exists>nc raw bs b e material f rest. prepare (c\<lparr>conn_in := CaptureConn (conn_in c) []\<rparr>) = (Inr nc, raw) \<and>
        conn_in (the (net_inner nc)) = NetConn bs b e \<and> Exporter srv nc = Inr material \<and>
        NewAuthSession L (srv_PSK srv) material = Inr ses \<and>
        parse_frame (net_stream bs True) = Some (f, rest) \<and> Type f = TypeAuthResponse \<and> ClientProof (authKey ses) = Inr (Ciphertext f))"

definition public_destination :: "gateway_env \<Rightarrow> string list \<Rightarrow> conn \<Rightarrow> bool" where
  "public_destination E allowed dest \<longleftrightarrow>
     (\<exists>host port ips ip. env_lookup E host = Inr ips \<and> (\<forall>x \<in> set ips. \<not> prohibited x) \<and>
        (allowed = [] \<or> allow_loop (env_unifold E) host ips allowed False) \<and>
        ip \<in> set ips \<and> env_dial E (JoinHostPort (IP_String ip) port) = Inr dest)"

lemma dialled_public:
  assumes "fst (dialPublicDestination (env_unifold E) (env_lookup E) (env_dial E) target allowed) = Inr dest"
  shows "public_destination E allowed dest"
proof -
  obtain dialled where d: "dialPublicDestination (env_unifold E) (env_lookup E) (env_dial E) target allowed = (Inr dest, dialled)"
    using assms by (metis prod.collapse)
  have "dialled \<noteq> [] \<or> (\<exists>x. Inr dest = (Inr x :: (tunnel_error, conn) result))" by simp
  from dialPublicDestination_dials [OF d this] obtain host port ips where
    p: "env_lookup E host = Inr ips" "\<not> list_ex prohibited ips" "allowed = [] \<or> allow_loop (env_unifold E) host ips allowed False"
    "dial_loop (env_dial E) port ips None = (Inr dest, dialled)" .
  from dial_loop_dialled [OF p(4)] obtain k where k: "dialled \<noteq> []" "env_dial E (last dialled) = Inr dest"
    "dialled = map (\<lambda>ip. JoinHostPort (IP_String ip) port) (take k ips)" by blast
  then obtain ip where ip: "ip \<in> set (take k ips)" "last dialled = JoinHostPort (IP_String ip) port"
    using last_in_set [OF k(1)] by auto
  have "ip \<in> set ips" using ip(1) by (rule in_set_takeD)
  with p(1-3) k(2) ip(2) show ?thesis unfolding public_destination_def list_ex_iff by auto
qed


section \<open>Witnesses\<close>

theorem unprepared_sees_decoy_witness:
  "\<exists>s p st. decoy_setup None = Inr s \<and>
     gateway_run (sample_gateway_env (Some (sample_conn [Data [79, 75]]))) s
       (gateway_main (Inr s) [Incoming (sample_conn [Data [71, 69], Data [84]]) sample_rng]) p \<and>
     gp_sessions p = [Handled (OutProxy (ProxyRunning st))] \<and> (\<exists>data rest. [71, 69, 84] = data @ rest \<and> written (px_upstream_out st) = data)"
proof -
  let ?c = "sample_conn [Data [71, 69], Data [84]]" and ?E = "sample_gateway_env (Some (sample_conn [Data [79, 75]]))"
  obtain s config where s: "decoy_setup None = Inr s" "gs_fallback s = ''nginx:8080''"
    "Prepare (gs_server s) = Some (prepareGatewayTLS (decoy_tls None) (Some config))" by (rule decoy_setup_Inr)
  obtain p where p: "gateway_run ?E s (gateway_main (Inr s) [Incoming ?c sample_rng]) p" "gp_sessions p = [Handled (outcome_of ?E s ?c sample_rng)]"
    by (rule accept_and_handle)
  have "Peek1 (CaptureConn (NetConn [Data [71, 69], Data [84]] True EOF) []) =
      (Inr 71, BufioReader (CaptureConn (NetConn [Data [84]] True EOF) [71, 69]) [71, 69] None)"
    by (simp add: Peek1_def peek_fill.simps bufio_size_def)
  then have prep: "prepareGatewayTLS (decoy_tls None) (Some config) (?c\<lparr>conn_in := CaptureConn (conn_in ?c) []\<rparr>) =
      (Inl NotTLSRecord, ?c\<lparr>conn_in := CaptureConn (NetConn [Data [84]] True EOF) [71, 69]\<rparr>)"
    by (simp add: prepareGatewayTLS_def sample_conn_def conn_SetReadDeadline_def)
  have T: "tls_server_ok (decoy_tls None) config" for config by (auto simp: tls_server_ok_def decoy_tls_def intro: reads_none)
  have i: "0 < length (gp_sessions p)" "arrivals [Incoming ?c sample_rng] ! 0 = Arrived ?c sample_rng"
    "gp_sessions p ! 0 = Handled (outcome_of ?E s ?c sample_rng)" using p(2) by simp_all
  have n: "conn_in ?c = NetConn [Data [71, 69], Data [84]] False EOF" "gs_fallback s \<noteq> ''''"
    "env_decoy ?E (gs_fallback s) = Some (sample_conn [Data [79, 75]])" "conn_in (sample_conn [Data [79, 75]]) = NetConn [Data [79, 75]] False EOF"
    using s(2) by (simp_all add: sample_conn_def sample_gateway_env_def)
  from unprepared_sees_decoy [OF s(1) [unfolded decoy_setup_def] T p(1) i n(1) s(3) prep n(2-4)] obtain st where
    "outcome_of ?E s ?c sample_rng = OutProxy (ProxyRunning st)" "shows_decoy (net_stream [Data [71, 69], Data [84]] False)
      (conn_out (?c\<lparr>conn_in := CaptureConn (NetConn [Data [84]] True EOF) [71, 69]\<rparr>)) (sample_conn [Data [79, 75]]) st" by blast
  with s(1) p show ?thesis
    by (intro exI [of _ s] exI [of _ p] exI [of _ st]) (auto simp: shows_decoy_def sample_conn_def sample_writer_def)
qed

text \<open>A TLS client of the gateway: its handshake record, then \<open>plain\<close> on the TLS connection.\<close>

lemma tls_client_prepared:
  assumes "conn_deadline_err plain = None"
  obtains raw where "prepareGatewayTLS (decoy_tls (Some plain)) (Some config)
      ((sample_conn [Data [0x16]])\<lparr>conn_in := CaptureConn (conn_in (sample_conn [Data [0x16]])) []\<rparr>) =
    (Inr (UTLSConn \<lparr>tls_inner = plain\<lparr>conn_in := arm_deadline False (conn_in plain)\<rparr>,
       tls_ConnectionState = \<lparr>tls_Version = VersionTLS13, tls_Export = (\<lambda>label n. Some (replicate n 6))\<rparr>\<rparr>), raw)"
proof -
  have "Peek1 (CaptureConn (NetConn [Data [0x16]] True EOF) []) =
      (Inr 0x16, BufioReader (CaptureConn (NetConn [] True EOF) [0x16]) [0x16] None)"
    by (simp add: Peek1_def peek_fill.simps bufio_size_def)
  with assms show ?thesis
    by (intro that) (simp add: prepareGatewayTLS_def sample_conn_def conn_SetReadDeadline_def TLSServer_def decoy_tls_def)
qed

lemma tls_client_exporter:
  "exportServerKeyingMaterial (UTLSConn \<lparr>tls_inner = c, tls_ConnectionState = \<lparr>tls_Version = VersionTLS13,
     tls_Export = (\<lambda>label n. Some (replicate n 6))\<rparr>\<rparr>) = Inr (replicate 32 6)"
  by (simp add: exportServerKeyingMaterial_def ExportServerKeyingMaterial_def ExporterLength_def)

theorem unauthenticated_sees_decoy_witness:
  "\<exists>s p st. decoy_setup (Some (sample_conn [Data [71, 69, 84]])) = Inr s \<and>
     gateway_run (sample_gateway_env (Some (sample_conn [Data [79, 75]]))) s
       (gateway_main (Inr s) [Incoming (sample_conn [Data [0x16]]) sample_rng]) p \<and>
     gp_sessions p = [Handled (OutProxy (ProxyRunning st))] \<and> (\<exists>data rest. [71, 69, 84] = data @ rest \<and> written (px_upstream_out st) = data)"
proof -
  let ?plain = "sample_conn [Data [71, 69, 84]]" and ?c = "sample_conn [Data [0x16]]" and ?E = "sample_gateway_env (Some (sample_conn [Data [79, 75]]))"
  obtain s config where s: "decoy_setup (Some ?plain) = Inr s" "gs_fallback s = ''nginx:8080''"
    "Prepare (gs_server s) = Some (prepareGatewayTLS (decoy_tls (Some ?plain)) (Some config))"
    "Exporter (gs_server s) = exportServerKeyingMaterial" "srv_PSK (gs_server s) = map of_nat [0..<16]" by (rule decoy_setup_Inr)
  obtain p where p: "gateway_run ?E s (gateway_main (Inr s) [Incoming ?c sample_rng]) p" "gp_sessions p = [Handled (outcome_of ?E s ?c sample_rng)]"
    by (rule accept_and_handle)
  have dl: "conn_deadline_err ?plain = None" by (simp add: sample_conn_def)
  obtain raw where prep: "prepareGatewayTLS (decoy_tls (Some ?plain)) (Some config) (?c\<lparr>conn_in := CaptureConn (conn_in ?c) []\<rparr>) =
    (Inr (UTLSConn \<lparr>tls_inner = ?plain\<lparr>conn_in := arm_deadline False (conn_in ?plain)\<rparr>,
       tls_ConnectionState = \<lparr>tls_Version = VersionTLS13, tls_Export = (\<lambda>label n. Some (replicate n 6))\<rparr>\<rparr>), raw)"
    by (rule tls_client_prepared [OF dl])
  let ?tc = "?plain\<lparr>conn_in := arm_deadline False (conn_in ?plain)\<rparr>"
  have ex: "Exporter (gs_server s) (UTLSConn \<lparr>tls_inner = ?tc, tls_ConnectionState = \<lparr>tls_Version = VersionTLS13,
     tls_Export = (\<lambda>label n. Some (replicate n 6))\<rparr>\<rparr>) = Inr (replicate 32 6)" unfolding s(4) by (rule tls_client_exporter)
  obtain ses where ses: "NewAuthSession (env_crypto ?E) (srv_PSK (gs_server s)) (replicate 32 6) = Inr ses"
    using NewAuthSession_works [OF sample_lib_ok, of "map of_nat [0..<16]" "replicate 32 6"] s(5) by (auto simp: sample_gateway_env_def)
  have no: "\<nexists>f rest. parse_frame (net_stream [Data [71, 69, 84]] True) = Some (f, rest) \<and> Type f = TypeAuthResponse \<and>
      ClientProof (authKey ses) = Inr (Ciphertext f)" by (simp add: parse_frame_def frame_size_defs)
  have i: "0 < length (gp_sessions p)" "arrivals [Incoming ?c sample_rng] ! 0 = Arrived ?c sample_rng"
    "gp_sessions p ! 0 = Handled (outcome_of ?E s ?c sample_rng)" using p(2) by simp_all
  have n: "net_inner (UTLSConn \<lparr>tls_inner = ?tc, tls_ConnectionState = cs\<rparr>) = Some ?tc"
    "conn_in ?tc = NetConn [Data [71, 69, 84]] False EOF" "gs_fallback s \<noteq> ''''"
    "env_decoy ?E (gs_fallback s) = Some (sample_conn [Data [79, 75]])" "conn_in (sample_conn [Data [79, 75]]) = NetConn [Data [79, 75]] False EOF" for cs
    using s(2) by (simp_all add: sample_conn_def sample_gateway_env_def)
  from unauthenticated_sees_decoy [OF s(1) [unfolded decoy_setup_def] p(1) i s(3) prep n(1,2) ex ses no n(3-5)] obtain st where
    "outcome_of ?E s ?c sample_rng = OutProxy (ProxyRunning st)"
    "shows_decoy (net_stream [Data [71, 69, 84]] False) (conn_out ?tc) (sample_conn [Data [79, 75]]) st" by blast
  with s(1) p show ?thesis
    by (intro exI [of _ s] exI [of _ p] exI [of _ st]) (auto simp: shows_decoy_def sample_conn_def sample_writer_def)
qed

text \<open>A client with the key: its proof, then a connection request, on the TLS connection.\<close>

definition keyed_conn :: "AuthSession \<Rightarrow> conn" where
  "keyed_conn ses = sample_conn [Data (proof_packet ses), Data (frame_packet (sealed_frame \<lparr>cipher = sample_cipher (c2sKey ses)\<rparr> 1
     TypeConnOpen [9, 9, 9, 9] 0 (envelope (bytes_of_string ''example.com:80''))))]"

lemma keyed_conn_tunnelled:
  assumes "decoy_setup (Some (keyed_conn ses)) = Inr s" "NewAuthSession sample_lib (map of_nat [0..<16]) (replicate 32 6) = Inr ses"
    and "length (c2sKey ses) = KeySize" "length (s2cKey ses) = KeySize" "length (authKey ses) = KeySize"
  obtains st where "outcome_of (sample_gateway_env None) s (sample_conn [Data [0x16]]) sample_rng = OutTunnel (Inr st)"
proof -
  let ?plain = "keyed_conn ses" and ?c = "sample_conn [Data [0x16]]" and ?E = "sample_gateway_env None"
  let ?tc = "?plain\<lparr>conn_in := arm_deadline False (conn_in ?plain)\<rparr>"
  let ?req = "frame_packet (sealed_frame \<lparr>cipher = sample_cipher (c2sKey ses)\<rparr> 1
     TypeConnOpen [9, 9, 9, 9] 0 (envelope (bytes_of_string ''example.com:80'') @ []))"
  obtain s' config where s: "decoy_setup (Some ?plain) = Inr s'"
    "Prepare (gs_server s') = Some (prepareGatewayTLS (decoy_tls (Some ?plain)) (Some config))"
    "Exporter (gs_server s') = exportServerKeyingMaterial" "OnAuthenticated (gs_server s')" "srv_PSK (gs_server s') = map of_nat [0..<16]"
    "AllowedDestinations (gs_options s') = []" by (rule decoy_setup_Inr)
  have [simp]: "s' = s" using s(1) assms(1) by simp
  have dl: "conn_deadline_err ?plain = None" by (simp add: keyed_conn_def sample_conn_def)
  obtain raw where prep: "prepareGatewayTLS (decoy_tls (Some ?plain)) (Some config) (?c\<lparr>conn_in := CaptureConn (conn_in ?c) []\<rparr>) =
    (Inr (UTLSConn \<lparr>tls_inner = ?tc, tls_ConnectionState = \<lparr>tls_Version = VersionTLS13, tls_Export = (\<lambda>label n. Some (replicate n 6))\<rparr>\<rparr>), raw)"
    by (rule tls_client_prepared [OF dl])
  have tc: "conn_in ?tc = NetConn ([Data (proof_packet ses)] @ [Data ?req]) False EOF" "conn_deadline_err ?tc = None" "wplan (conn_out ?tc) = []"
    by (simp_all add: keyed_conn_def sample_conn_def sample_writer_def)
  have key: "authKey ses \<noteq> []" using assms(5) by (auto simp: KeySize_def)
  have first: "net_stream [Data (proof_packet ses)] True = proof_packet ses" by simp
  from AuthenticateReplay_waits [OF tc key first] obtain sc' where
    auth: "AuthenticateReplay ses ?tc = ((None, None), sc')" "reader_ok (conn_in sc')" "reader_stream (conn_in sc') = ?req @ []" by auto
  have h: "handle sample_lib (gs_server s) ?c = Tunnelled sc' ses"
    using s prep auth(1) assms(2) tls_client_exporter by (simp add: handle_def handle_prepared_def)
  have a: "NewAEAD sample_lib (c2sKey ses) = Inr \<lparr>cipher = sample_cipher (c2sKey ses)\<rparr>"
    using assms(3) by (simp add: NewAEAD_def sample_lib_def KeySize_def)
  have fit: "fits (bytes_of_string ''example.com:80'', [])" by (simp add: fits_def MaxCiphertextLen_def)
  have valid: "validateTunnelTarget ''example.com:80'' = None" by code_simp
  have split: "SplitHostPort ''example.com:80'' = Inr (''example.com'', ''80'')" "\<not> prohibited [93, 184, 216, 34]" by code_simp+
  let ?dial = "\<lambda>target. fst (dialPublicDestination (env_unifold ?E) (env_lookup ?E) (env_dial ?E) target (AllowedDestinations (gs_options s)))"
  have dial: "?dial ''example.com:80'' = Inr (sample_conn [])" using s(6) split by (simp add: dialPublicDestination_def sample_gateway_env_def)
  obtain st where "serveTunnelOptions sample_lib (Some sc') (Some ses) (gs_options s) ?dial sample_rng = Inr st"
    by (rule serveTunnelOptions_starts [where dial = ?dial and g = sample_rng, OF sample_lib_ok assms(4) a _ auth(2) _ fit valid auth(3) dial])
      (auto simp: sample_rng_def)
  with h show ?thesis by (intro that [of st]) (simp add: outcome_of_def ServeTunnelWithOptions_def sample_gateway_env_def)
qed


end
