(* ===== verification/Spec2Isabelle.thy ===== *)
theory Spec2Isabelle
  imports Network_Safety Client_Process Gateway_Safety
begin

text \<open>
  \<^bold>\<open>Ghost Proxy: a verification development.\<close>

  Ghost Proxy (Go, \<^verbatim>\<open>src/\<close>) tunnels TCP connections through what looks like an ordinary HTTPS
  server.  An application talks SOCKS5 to the local client; the client opens a TLS 1.3 connection to
  the gateway, proves knowledge of a pre-shared key bound to that TLS session, and sends encrypted,
  padded, numbered frames; the gateway connects to the requested destination and forwards.  A peer
  that does not prove the key is relayed to a decoy web server with every byte it sent.

  \<^bold>\<open>Parts and theories.\<close>

  \<^item> \<open>Go_Prelude\<close>, \<open>Go_IO\<close>, \<open>Go_Net\<close>, \<open>Go_IP\<close>: what the program uses of the Go language and its
    standard library.  Bytes are \<^typ>\<open>8 word\<close>, \<^verbatim>\<open>uint64\<close> is \<^typ>\<open>64 word\<close>.  A \<open>reader\<close> is the
    state behind an \<^verbatim>\<open>io.Reader\<close> (network connection with arrivals and a deadline,
    \<^verbatim>\<open>bytes.Reader\<close>, \<^verbatim>\<open>bufio.Reader\<close>, \<^verbatim>\<open>io.TeeReader\<close>, \<^verbatim>\<open>io.MultiReader\<close>, the
    program's own \<^verbatim>\<open>captureConn\<close>); a \<open>writer\<close> records each \<^verbatim>\<open>Write\<close> and follows a plan of
    short writes and errors.  The locale \<open>io_reader\<close> is the contract of \<^verbatim>\<open>io.Reader\<close>, and
    \<open>write_loop\<close> that of a loop that writes everything.
  \<^item> \<open>Frame\<close> (\<^verbatim>\<open>pkg/frame\<close>): the wire format, envelopes and nonce counters.
  \<^item> \<open>Padding\<close> (\<^verbatim>\<open>pkg/padding\<close>) and \<open>Crypto\<close> (\<^verbatim>\<open>pkg/crypto\<close>): block padding, key derivation,
    the AEAD wrapper and the HMAC proofs.  SHA-256 and HMAC are computed; HKDF and ChaCha20-Poly1305
    are parameters (\<open>crypto_lib\<close>) with the hypothesis \<open>crypto_lib_ok\<close>: keys of the requested length,
    and a cipher whose \<^verbatim>\<open>Open\<close> accepts just what its \<^verbatim>\<open>Seal\<close> produced.
  \<^item> \<open>Secure_Channel\<close>: what the two ends of the channel promise each other, as the locales
    \<open>frame_sender\<close>, \<open>frame_receiver\<close> and \<open>secure_link\<close>; and what a network without the key can do to the
    frames (\<open>unforged\<close>), with the frames that a receiver then accepts (\<open>authentic_prefix\<close>).
  \<^item> \<open>Data_Channel\<close> (\<^verbatim>\<open>pkg/transport/data.go\<close>, \<^verbatim>\<open>open.go\<close>) and \<open>Gateway_Tunnel\<close>
    (\<^verbatim>\<open>pkg/gateway/tunnel.go\<close>): the two implementations of these contracts, interpreted there;
    also the destination policy and the forwarding loops of the gateway.
  \<^item> \<open>Gateway_Serve\<close>: the two goroutines of a served tunnel as the step relation \<open>tunnel_step\<close>; the
    call returns with the first result, which closes both connections and cuts the loop still running.
    The close takes effect between two iterations of a loop.
  \<^item> \<open>Gateway_Auth\<close> (\<^verbatim>\<open>pkg/gateway/auth.go\<close>, \<^verbatim>\<open>handshake.go\<close>): sessions and handshakes.
  \<^item> \<open>Transport_TLS\<close> (\<^verbatim>\<open>pkg/transport/tls.go\<close>, \<^verbatim>\<open>server.go\<close>): TLS configuration, checks and
    order of steps; uTLS, certificates and files are the parameter \<open>tls_lib\<close>.
  \<^item> \<open>Gateway_Server\<close> (\<^verbatim>\<open>pkg/gateway/server.go\<close> and parts of \<^verbatim>\<open>cmd/server/main.go\<close>): one
    accepted connection, the accept loop, and the relay to the decoy as \<open>proxy_step\<close>.
  \<^item> \<open>Ghost_Client\<close> (\<^verbatim>\<open>pkg/client\<close>): the key, \<^verbatim>\<open>Dial\<close>, and the connection \<^verbatim>\<open>DataConn\<close>.
  \<^item> \<open>Socks5\<close>, \<open>Socks5_Relay\<close> (\<^verbatim>\<open>pkg/socks5\<close>): the local server; the relay's two \<^verbatim>\<open>io.Copy\<close>
    goroutines as \<open>relay_step\<close>, with the locale \<open>copy_loop\<close> interpreted for each direction.
  \<^item> \<open>Config\<close> (\<^verbatim>\<open>pkg/config\<close>, \<^verbatim>\<open>pkg/logger\<close>) and \<open>Commands\<close> (\<^verbatim>\<open>cmd/client\<close>,
    \<^verbatim>\<open>cmd/server\<close>): what the two programs check before they serve.

  \<^item> \<open>Go_Concurrency\<close>: a pool of goroutines that share nothing, with the locale \<open>goroutines\<close>.
    \<open>Client_Process\<close> (\<^verbatim>\<open>Start\<close> of \<^verbatim>\<open>pkg/socks5\<close> as \<^verbatim>\<open>cmd/client\<close> calls it): the running client
    as \<open>client_step\<close>: the accept loop, one goroutine per SOCKS5 connection (\<open>client_session_step\<close>,
    for which the locale is interpreted), and the \<^verbatim>\<open>Client\<close> that they share.
    \<open>Gateway_Process\<close> (\<^verbatim>\<open>main\<close> and \<^verbatim>\<open>run\<close> of \<^verbatim>\<open>cmd/server\<close>): the running gateway as
    \<open>gateway_step\<close>: signals, the context, the goroutine that closes the listener, the life of the
    profiling server, the accept loop, one goroutine per connection (\<open>session_step\<close>, for which the
    locale is interpreted), and the exit of the process.  \<open>Gateway_Safety\<close>: what a reachable process
    guarantees about each of its connections.
  \<^item> \<open>End_To_End\<close>, \<open>Network_Safety\<close> and this theory: the two programs together, over a network that
    delivers what was sent, over one that may do anything but forge frames, and as running processes.

  An operation takes the state it changes and returns it; a pointer that may be nil is an option, an
  error a value of the component's error type.  Concurrency appears where goroutines share state: a
  step is one iteration of one goroutine's loop, and a run is any sequence of steps.

  \<^bold>\<open>What the theorems show.\<close>

  \<^item> From end to end: a SOCKS5 request at the running client leads to a tunnel in the running gateway, and what
    the application sends reaches the destination unchanged and the other way round, for every
    interleaving and every splitting of the bytes (\<open>connection_proxied\<close>); the handshake brings the two
    channels into agreement; the two implementations of the channel interoperate;
    and a network that has no key, whatever it does to the bytes, can only keep the rest of the data from
    arriving (\<open>connection_protected\<close>).
  \<^item> Authentication: exactness, the completeness of the replay for the decoy, what a waiting and a
    pipelining client can rely on.
  \<^item> The channel: no nonce is used twice, replay, reordering and loss are detected, frames show only
    the size of a block, padding and framing round trips, what malformed input leads to.
  \<^item> The gateway: its connections do not influence each other; whatever they do, a peer without the
    key sees the decoy only, nothing is dialled or forwarded without a proof of the key, only public
    addresses are dialled and only authentic data is forwarded; a served tunnel returns, and the
    process exits after a signal and only then, or when the profiling server fails.
  \<^item> The client: its connections do not influence each other through the client they share;
    SOCKS5 parsing and replies are exact, no connection leaks from a failed \<^verbatim>\<open>Dial\<close>,
    TLS 1.3 only, the listener stays on loopback, both programs hold the same key;
    a data connection keeps its keys, directions and salt.
  \<^item> Six theorems record behaviour that departs from what the code means to do: bytes sent together
    with the proof are lost, a network rule does not confine the connection, a destination that
    ends its sending side cuts the upload, an orderly end is reported as an error, a shutdown waits
    for no connection, and a failing profiling server ends the gateway with the status of success.

  \<^bold>\<open>Termination.\<close>  No definition uses fuel.  The loops over a connection are total because every
  successful read lowers \<open>reader_rank\<close>, a measure of what is still to arrive: a finite but arbitrary
  list of arrivals.  The step relations are shown to end and to have a step as long as a goroutine is
  running.  Statements about sequence numbers are limited to \<open>2^64\<close> frames, where the counter wraps.

  \<^bold>\<open>Not modelled.\<close>  The internals of uTLS, HKDF, ChaCha20-Poly1305, YAML, the resolver and the TCP
  stack (parameters); log output beyond its level; the real time of deadlines, delays and jitter (a
  deadline is armed or not, a silence outlasts it); write deadlines (a writer's plan has the errors);
  what the profiling server of \<^verbatim>\<open>cmd/server\<close> answers (only its life is modelled); signals after the
  first one and those that cannot be caught; the addresses of a \<^verbatim>\<open>DataConn\<close> and its deadlines other
  than that for reading, which it passes on to its connection; flag parsing; memory limits.
\<close>

section \<open>A connection through both programs\<close>

text \<open>
  The environment of a proxied connection: the client reaches the gateway and its TLS handshake leads to
  the connection \<open>u\<close> with the exporter value \<open>ex\<close>; the gateway's preparation of the accepted connection
  \<open>gc\<close> leads to \<open>sc\<close> with the same exporter value.
\<close>

definition client_online :: "client_env \<Rightarrow> Client \<Rightarrow> tls_conn \<Rightarrow> bytes \<Rightarrow> bool" where
  "client_online C cl u ex \<longleftrightarrow>
     PSK cl \<noteq> [] \<and>
     (\<exists>raw config x. ce_dialTCP C (ServerAddress cl) = Inr raw \<and> the (tlsConfig (tlsConfigOnce (ce_tls C) cl)) = Inr config \<and>
        DialUTLSWithConfig (ce_tls C) (Some raw) (Some config) = (Inr u, x)) \<and>
     ExportKeyingMaterial (Some u) = Inr ex \<and> conn_deadline_err (tls_inner u) = None \<and> wplan (conn_out (tls_inner u)) = []"

definition gateway_online :: "gateway_setup \<Rightarrow> conn \<Rightarrow> conn \<Rightarrow> bytes \<Rightarrow> bytes \<Rightarrow> bool" where
  "gateway_online s gc sc psk ex \<longleftrightarrow>
     (\<exists>prepare nc raw. Prepare (gs_server s) = Some prepare \<and> prepare (gc\<lparr>conn_in := CaptureConn (conn_in gc) []\<rparr>) = (Inr nc, raw) \<and>
        net_inner nc = Some sc \<and> Exporter (gs_server s) nc = Inr ex) \<and>
     OnAuthenticated (gs_server s) \<and> srv_PSK (gs_server s) = psk \<and> conn_deadline_err sc = None \<and> wplan (conn_out sc) = []"

lemma relay_run_sends:
  assumes "relay_ready conn target g" "relay_run (relay_start conn target g) rs"
  shows "sent (conn_out (rl_conn rs)) = sent (conn_out (dc_conn target)) @ drop (length (sent (conn_out (dc_conn target)))) (sent (conn_out (rl_conn rs)))"
  using relay_run_up [OF assms(2) relay_start_up [OF assms(1)]] by (auto simp: moved_up_def up_sink_def relay_start_def)

text \<open>
  The start of the tunnel that the gateway serves on the connection \<open>sc\<close> to \<open>dest\<close>: its channel agrees
  with the client's channel \<open>d\<close>, and \<open>up\<close> is what will come through the tunnel.
\<close>

definition tunnel_starts :: "DataChannel \<Rightarrow> conn \<Rightarrow> conn \<Rightarrow> bytes \<Rightarrow> tunnel_state \<Rightarrow> bool" where
  "tunnel_starts d sc dest up st0 \<longleftrightarrow>
     (\<exists>L connp sessionp options dial g. serveTunnelOptions L connp sessionp options dial g = Inr st0) \<and>
     linked d (ts_chan st0) \<and> reader_ok (ts_tunnel_in st0) \<and> reader_stream (ts_tunnel_in st0) = up \<and> wplan (conn_out sc) = [] \<and>
     ts_tunnel_out st0 = (conn_out sc)\<lparr>sent := sent (conn_out sc) @ [frame_packet success_frame]\<rparr> \<and> rng_fail (ts_rng st0) = None \<and>
     ts_dest_in st0 = conn_in dest \<and> ts_dest_out st0 = conn_out dest"

text \<open>A gateway session for a connection that brings the client's packets is the tunnel to the destination.\<close>

lemma outcome_tunnel:
  assumes "gateway_answers (env_crypto E) session d target p1 p2" "NewAuthSession (env_crypto E) psk ex = Inr session"
    and "gateway_online s gc sc psk ex" "conn_in sc = NetConn (first @ later) b e" "rng_fail g = None"
    and "fst (dialPublicDestination (env_unifold E) (env_lookup E) (env_dial E) target (AllowedDestinations (gs_options s))) = Inr dest"
    and "net_stream first True = p1" "net_stream (first @ later) False = p1 @ p2 @ up"
  obtains st0 where "outcome_of E s gc g = OutTunnel (Inr st0)" "tunnel_starts d sc dest up st0"
proof -
  let ?dial = "\<lambda>t. fst (dialPublicDestination (env_unifold E) (env_lookup E) (env_dial E) t (AllowedDestinations (gs_options s)))"
  from assms(3) obtain prepare nc raw where p: "Prepare (gs_server s) = Some prepare"
    "prepare (gc\<lparr>conn_in := CaptureConn (conn_in gc) []\<rparr>) = (Inr nc, raw)" "net_inner nc = Some sc" "Exporter (gs_server s) nc = Inr ex"
    "OnAuthenticated (gs_server s)" "srv_PSK (gs_server s) = psk" "conn_deadline_err sc = None" "wplan (conn_out sc) = []"
    by (auto simp: gateway_online_def)
  from assms(1) [unfolded gateway_answers_def, rule_format, of sc first later b e g ?dial dest up "gs_options s"] assms(4-8) p(7,8)
  obtain sc' st where a: "AuthenticateReplay session sc = ((None, None), sc')"
    "conn_out sc' = (conn_out sc)\<lparr>sent := sent (conn_out sc) @ [frame_packet success_frame]\<rparr>"
    "serveTunnelOptions (env_crypto E) (Some sc') (Some session) (gs_options s) ?dial g = Inr st" "linked d (ts_chan st)"
    "reader_ok (ts_tunnel_in st)" "reader_stream (ts_tunnel_in st) = up" "ts_tunnel_out st = conn_out sc'"
    "rng_fail (ts_rng st) = None" "ts_dest_in st = conn_in dest" "ts_dest_out st = conn_out dest" by auto
  have "handle (env_crypto E) (gs_server s) gc = Tunnelled sc' session"
    using p a(1) assms(2) by (simp add: handle_def handle_prepared_def)
  with a(3) have "outcome_of E s gc g = OutTunnel (Inr st)" by (simp add: outcome_of_def ServeTunnelWithOptions_def)
  moreover have "tunnel_starts d sc dest up st" unfolding tunnel_starts_def
    by (intro conjI exI, rule a(3)) (use a p(8) in simp_all)
  ultimately show ?thesis by (rule that)
qed

text \<open>The two directions over one session, for any run of the client's relay and of the gateway's tunnel.\<close>

lemma tunnel_passes_on:
  assumes "relay_ready conn target g" "readBuffer target = []" "conn_in (dc_conn target) = NetConn as' False e"
    and "net_stream as False = frame_packet success_frame @ net_stream as' False"
    and "tunnel_starts (dc_channel target) sc dest (sent_since (conn_out (dc_conn target)) (conn_out (rl_conn rs))) st0"
    and "wplan (conn_out dest) = []" "reader_ok (conn_in dest)" "relay_run (relay_start conn target g) rs" "tunnel_run st0 st"
  shows "passes_on (conn_out dest) (ts_dest_out st) (reader_stream (conn_in conn)) (rl_up_done rs \<and> ts_up_done st)"
    and "net_stream as False = sent_since (conn_out sc) (ts_tunnel_out st) \<Longrightarrow>
      passes_on (conn_out conn) (rl_client_out rs) (reader_stream (conn_in dest)) (ts_down_done st \<and> rl_down_done rs)"
proof -
  from assms(5) obtain L connp sessionp options dial g0 where st0: "serveTunnelOptions L connp sessionp options dial g0 = Inr st0"
    "linked (dc_channel target) (ts_chan st0)" "reader_ok (ts_tunnel_in st0)"
    "reader_stream (ts_tunnel_in st0) = sent_since (conn_out (dc_conn target)) (conn_out (rl_conn rs))" "wplan (conn_out sc) = []"
    "ts_tunnel_out st0 = (conn_out sc)\<lparr>sent := sent (conn_out sc) @ [frame_packet success_frame]\<rparr>" "rng_fail (ts_rng st0) = None"
    "ts_dest_in st0 = conn_in dest" "ts_dest_out st0 = conn_out dest" unfolding tunnel_starts_def by blast
  have pre: "reader_ok (ts_dest_in st0)" "wplan (ts_tunnel_out st0) = []" "tunnel_ok (ts_chan st0)" "wplan (ts_dest_out st0) = []"
    using st0 assms(6,7) by (simp_all add: linked_def)
  from end_to_end_upload [OF assms(1,8) st0(1-4) pre(4) assms(9)] st0(9)
  show "passes_on (conn_out dest) (ts_dest_out st) (reader_stream (conn_in conn)) (rl_up_done rs \<and> ts_up_done st)"
    by (simp add: passes_on_def)
  assume came: "net_stream as False = sent_since (conn_out sc) (ts_tunnel_out st)"
  obtain xs where "sent_so_far st0 xs st"
    using tunnel_run_sent [OF assms(9) pre(3,2) st0(7) pre(1) served_start(2) [OF st0(1)]] by blast
  then obtain ys where "sent (ts_tunnel_out st) = sent (ts_tunnel_out st0) @ ys" by (auto simp: sent_so_far_def sent_down_def)
  with came assms(3,4) st0(6) have str: "reader_stream (conn_in (dc_conn target)) = sent_since (ts_tunnel_out st0) (ts_tunnel_out st)"
    by (simp add: sent_since_def)
  have ok: "reader_ok (conn_in (dc_conn target))" using assms(3) by simp
  from end_to_end_download [OF st0(1,2) pre(1,2) st0(7) assms(9,1,2) ok str assms(8)] st0(8)
  show "passes_on (conn_out conn) (rl_client_out rs) (reader_stream (conn_in dest)) (ts_down_done st \<and> rl_down_done rs)"
    by (simp add: passes_on_def)
qed

text \<open>The same over a network that alters what it carries; the gateway's answer to the proof is not a data frame.\<close>

lemma unforged_other:
  assumes "unforged a dir t (frame_packet f # packets) stream" "Type f \<noteq> t"
  shows "unforged a dir t packets stream"
proof -
  have "frame_packet x \<noteq> frame_packet f" if "opens a dir t x" for x
    using that assms(2) by (auto simp: opens_def frame_packet_def)
  with assms(1) show ?thesis by (auto simp: unforged_def)
qed

lemma tunnel_protects:
  assumes "relay_ready conn target g" "readBuffer target = []" "conn_in (dc_conn target) = NetConn as' False e"
    and "tunnel_starts (dc_channel target) sc dest altered st0" "reader_ok (conn_in dest)"
    and "relay_run (relay_start conn target g) rs" "tunnel_run st0 st"
  shows "length (reader_stream (conn_in conn)) < 2 ^ 64 \<and>
       unforged (the (channel_AEAD (dc_channel target))) 1 TypeDataPayload (packets_since (conn_out (dc_conn target)) (conn_out (rl_conn rs))) altered \<Longrightarrow>
     passes_on (conn_out dest) (ts_dest_out st) (reader_stream (conn_in conn)) False"
    and "length (reader_stream (conn_in dest)) < 2 ^ 64 \<and>
       unforged (the (ReceiveAEAD (dc_channel target))) 2 TypeDataPayload (packets_since (conn_out sc) (ts_tunnel_out st)) (net_stream as' False) \<Longrightarrow>
     passes_on (conn_out conn) (rl_client_out rs) (reader_stream (conn_in dest)) False"
proof -
  from assms(4) obtain L connp sessionp options dial g0 where st0: "serveTunnelOptions L connp sessionp options dial g0 = Inr st0"
    "linked (dc_channel target) (ts_chan st0)" "reader_ok (ts_tunnel_in st0)" "reader_stream (ts_tunnel_in st0) = altered" "wplan (conn_out sc) = []"
    "ts_tunnel_out st0 = (conn_out sc)\<lparr>sent := sent (conn_out sc) @ [frame_packet success_frame]\<rparr>" "rng_fail (ts_rng st0) = None"
    "ts_dest_in st0 = conn_in dest" "ts_dest_out st0 = conn_out dest" unfolding tunnel_starts_def by blast
  have pre: "reader_ok (conn_in (dc_conn target))" "reader_ok (ts_dest_in st0)" "wplan (ts_tunnel_out st0) = []" "tunnel_ok (ts_chan st0)"
    using assms(3,5) st0 by (simp_all add: linked_def)
  have keys: "the (channel_AEAD (dc_channel target)) = tun_receive (ts_chan st0)" "the (ReceiveAEAD (dc_channel target)) = tun_send (ts_chan st0)"
    using st0(2) by (simp_all add: linked_def)
  note both = network_cannot_alter [OF assms(1) pre(1) assms(6) st0(1) assms(7) st0(2,3) pre(2,3) st0(7), unfolded st0(4,8,9) assms(2,3)]
  show "passes_on (conn_out dest) (ts_dest_out st) (reader_stream (conn_in conn)) False"
    if "length (reader_stream (conn_in conn)) < 2 ^ 64 \<and>
       unforged (the (channel_AEAD (dc_channel target))) 1 TypeDataPayload (packets_since (conn_out (dc_conn target)) (conn_out (rl_conn rs))) altered"
    using that both unfolding keys by blast
  obtain xs where "sent_so_far st0 xs st"
    using tunnel_run_sent [OF assms(7) pre(4,3) st0(7) pre(2) served_start(2) [OF st0(1)]] by blast
  then obtain ys where "sent (ts_tunnel_out st) = sent (ts_tunnel_out st0) @ ys" by (auto simp: sent_so_far_def sent_down_def)
  with st0(6) have "packets_since (conn_out sc) (ts_tunnel_out st) = frame_packet success_frame # packets_since (ts_tunnel_out st0) (ts_tunnel_out st)"
    by (simp add: packets_since_def)
  moreover have "Type success_frame \<noteq> TypeDataPayload" by (simp add: success_frame_def TypeAuthSuccess_def TypeDataPayload_def)
  ultimately show "passes_on (conn_out conn) (rl_client_out rs) (reader_stream (conn_in dest)) False"
    if "length (reader_stream (conn_in dest)) < 2 ^ 64 \<and>
       unforged (the (ReceiveAEAD (dc_channel target))) 2 TypeDataPayload (packets_since (conn_out sc) (ts_tunnel_out st)) (net_stream as' False)"
    using that both unforged_other unfolding keys by auto
qed

text \<open>
  What an application's request sets up: the client's relay, with a connection of its own, and in a
  running gateway the tunnel, for whatever (\<open>up\<close>) comes after the first two packets.
\<close>

lemma connection_established:
  assumes "crypto_lib_ok (ce_crypto C)" "env_crypto E = ce_crypto C" "client_online C cl u ex" "rng_fail g = None" "rng_fail g' = None"
    and "conn_in (tls_inner u) = NetConn as b e" "net_stream as True = frame_packet success_frame @ tail"
    and "conn_in c = NetConn cs armed ce" "conn_deadline_err c = None" "wplan (conn_out c) = []"
    and "length methods \<le> 255" "0 \<in> set methods" "host_ok h" "port < 65536"
    and "net_stream cs True = encode_greeting methods @ encode_request h port @ waiting" "validateTarget (Address (request_of h port)) = None"
    and "\<And>t. ce_LocalAddr C t = TCPAddr (Some ip) (int lport)" "length ip = 4" "lport < 65536"
  obtains conn target packet1 packet2 as' where "client_outcome C cl c g g' = Relaying (relay_start conn target g')"
    "sent (conn_out conn) = sent (conn_out c) @ [[5, 0], encode_reply 0 ip lport]"
    "net_stream cs False = encode_greeting methods @ encode_request h port @ reader_stream (conn_in conn)"
    "sent (conn_out (dc_conn target)) = sent (conn_out (tls_inner u)) @ [packet1, packet2]" "relay_ready conn target g'"
    "readBuffer target = []" "conn_in (dc_conn target) = NetConn as' False e" "net_stream as False = frame_packet success_frame @ net_stream as' False"
    "\<And>cevents cp j. client_run C (client_start cl cevents) cp \<Longrightarrow> j < length (cp_sessions cp) \<Longrightarrow> connections cevents ! j = Asked c g g' \<Longrightarrow>
       cp_sessions cp ! j = Asked c g g' \<or> (\<exists>rs. relay_of (cp_sessions cp ! j) = Some rs \<and> relay_run (relay_start conn target g') rs)"
    "\<And>s gc sc first later b' e' g2 dest gevents gp i up. gateway_online s gc sc (PSK cl) ex \<Longrightarrow> rng_fail g2 = None \<Longrightarrow>
       conn_in sc = NetConn (first @ later) b' e' \<Longrightarrow> net_stream first True = packet1 \<Longrightarrow> net_stream (first @ later) False = packet1 @ packet2 @ up \<Longrightarrow>
       fst (dialPublicDestination (env_unifold E) (env_lookup E) (env_dial E) (Address (request_of h port)) (AllowedDestinations (gs_options s))) = Inr dest \<Longrightarrow>
       gateway_run E s (gateway_main (Inr s) gevents) gp \<Longrightarrow> i < length (gp_sessions gp) \<Longrightarrow> arrivals gevents ! i = Arrived gc g2 \<Longrightarrow>
       gp_sessions gp ! i = Arrived gc g2 \<or>
       (\<exists>st0 st. gp_sessions gp ! i = Handled (OutTunnel (Inr st)) \<and> tunnel_starts (dc_channel target) sc dest up st0 \<and> tunnel_run st0 st)"
proof -
  let ?L = "ce_crypto C" and ?target = "JoinHostPort (host_name h) (Itoa port)"
  have t: "Address (request_of h port) = ?target" by (simp add: request_of_def)
  from assms(3) obtain raw config x where o: "PSK cl \<noteq> []" "ce_dialTCP C (ServerAddress cl) = Inr raw"
    "the (tlsConfig (tlsConfigOnce (ce_tls C) cl)) = Inr config" "DialUTLSWithConfig (ce_tls C) (Some raw) (Some config) = (Inr u, x)"
    "ExportKeyingMaterial (Some u) = Inr ex" "conn_deadline_err (tls_inner u) = None" "wplan (conn_out (tls_inner u)) = []"
    by (auto simp: client_online_def)
  obtain dc connp clp as' packet1 packet2 session where dial: "client_Dial ?L (ce_tls C) (ce_dialTCP C) (Some cl) ?target g = (Inr dc, connp, clp)" and
    dc: "channel_ok (dc_channel dc)" "readBuffer dc = []" "wplan (conn_out (dc_conn dc)) = []" "conn_in (dc_conn dc) = NetConn as' False e"
    "net_stream as False = frame_packet success_frame @ net_stream as' False"
    "sent (conn_out (dc_conn dc)) = sent (conn_out (tls_inner u)) @ [packet1, packet2]" and
    gate: "NewAuthSession ?L (PSK cl) ex = Inr session" "gateway_answers ?L session (dc_channel dc) ?target packet1 packet2"
    by (rule session_links [where dialTCP = "ce_dialTCP C", OF assms(1) o(1-5) assms(6) o(6,7) assms(7) assms(16) [unfolded t] assms(4)])
  have d: "client_dialer C cl g ?target = Inr dc" using dial by (simp add: client_dialer_def)
  obtain cs' where run: "handleConnection (client_dialer C cl g) (ce_LocalAddr C) c = SocksRelay (c\<lparr>conn_in := NetConn cs' False ce,
       conn_out := (conn_out c)\<lparr>sent := sent (conn_out c) @ [[5, 0], encode_reply 0 ip lport]\<rparr>\<rparr>) dc"
    "net_stream cs False = encode_greeting methods @ encode_request h port @ net_stream cs' False"
    by (rule handleConnection_relays [where dial = "client_dialer C cl g" and LocalAddr = "ce_LocalAddr C", OF assms(8-15,17-19) d])
  let ?c = "c\<lparr>conn_in := NetConn cs' False ce, conn_out := (conn_out c)\<lparr>sent := sent (conn_out c) @ [[5, 0], encode_reply 0 ip lport]\<rparr>\<rparr>"
  have outcome: "client_outcome C cl c g g' = Relaying (relay_start ?c dc g')" by (simp add: client_outcome_def run(1))
  have ready: "relay_ready ?c dc g'" using assms(5,10) dc(1,3) by (simp add: relay_ready_def)
  show ?thesis
  proof (rule that [OF outcome _ _ dc(6) ready dc(2,4,5)], goal_cases)
    case (3 cevents cp j)
    then have "client_session_state C cl c g g' (cp_sessions cp ! j)" by (rule client_session_at)
    from session_relays [OF this outcome] show ?case by blast
  next
    case (4 s gc sc first later b' e' g2 dest gevents gp i up)
    obtain st0 where out: "outcome_of E s gc g2 = OutTunnel (Inr st0)" "tunnel_starts (dc_channel dc) sc dest up st0"
      by (rule outcome_tunnel [OF gate(2,1) [folded assms(2)] 4(1,3,2) 4(6) [unfolded t] 4(4,5)])
    with session_run_state [OF session_at [OF 4(7-9)]] show ?case unfolding session_state_def by auto
  qed (use run(2) in simp_all)
qed

text \<open>
  C1.  A connection through both programs.  An application asks the SOCKS5 port of a running client for a
  destination; the client dials the gateway, and the gateway the destination.  Then the application has
  been told so; the client has sent two packets, of which the second follows only when the first was
  answered; and at any time, for every interleaving of the goroutines in both processes, every splitting
  of the bytes on the way, and whatever other connections they serve: the client's goroutine for this connection
  either has not begun or has its relay, and the gateway's either has not begun or has the tunnel;
  what the destination has received is a prefix of what the application sends after its request,
  and what the application has received is a prefix of what the destination sends; and it is
  everything once the loops of that direction have ended by themselves.
\<close>

theorem connection_proxied:
  assumes "crypto_lib_ok (ce_crypto C)" "env_crypto E = ce_crypto C" "client_online C cl u ex" "rng_fail g = None" "rng_fail g' = None"
    and "conn_in (tls_inner u) = NetConn as b e" "net_stream as True = frame_packet success_frame @ tail"
    and "conn_in c = NetConn cs armed ce" "conn_deadline_err c = None" "wplan (conn_out c) = []"
    and "length methods \<le> 255" "0 \<in> set methods" "host_ok h" "port < 65536"
    and "net_stream cs True = encode_greeting methods @ encode_request h port @ waiting" "validateTarget (Address (request_of h port)) = None"
    and "\<And>t. ce_LocalAddr C t = TCPAddr (Some ip) (int lport)" "length ip = 4" "lport < 65536"
  shows "\<exists>conn target packet1 packet2.
    client_outcome C cl c g g' = Relaying (relay_start conn target g') \<and>
    sent (conn_out conn) = sent (conn_out c) @ [[5, 0], encode_reply 0 ip lport] \<and>
    net_stream cs False = encode_greeting methods @ encode_request h port @ reader_stream (conn_in conn) \<and>
    sent (conn_out (dc_conn target)) = sent (conn_out (tls_inner u)) @ [packet1, packet2] \<and> relay_ready conn target g' \<and>
    (\<forall>cevents cp j.
       client_run C (client_start cl cevents) cp \<and> j < length (cp_sessions cp) \<and> connections cevents ! j = Asked c g g' \<longrightarrow>
       cp_sessions cp ! j = Asked c g g' \<or>
       (\<exists>rs. relay_of (cp_sessions cp ! j) = Some rs \<and>
         (\<forall>s gc sc first later b' e' g2 dest gevents gp i.
            gateway_online s gc sc (PSK cl) ex \<and> rng_fail g2 = None \<and>
            conn_in sc = NetConn (first @ later) b' e' \<and> net_stream first True = packet1 \<and>
            net_stream (first @ later) False = sent_since (conn_out (tls_inner u)) (conn_out (rl_conn rs)) \<and>
            fst (dialPublicDestination (env_unifold E) (env_lookup E) (env_dial E) (Address (request_of h port)) (AllowedDestinations (gs_options s))) = Inr dest \<and>
            wplan (conn_out dest) = [] \<and> reader_ok (conn_in dest) \<and>
            gateway_run E s (gateway_main (Inr s) gevents) gp \<and> i < length (gp_sessions gp) \<and> arrivals gevents ! i = Arrived gc g2 \<longrightarrow>
            gp_sessions gp ! i = Arrived gc g2 \<or>
            (\<exists>st. gp_sessions gp ! i = Handled (OutTunnel (Inr st)) \<and>
               passes_on (conn_out dest) (ts_dest_out st) (reader_stream (conn_in conn)) (rl_up_done rs \<and> ts_up_done st) \<and>
               (net_stream as False = sent_since (conn_out sc) (ts_tunnel_out st) \<longrightarrow>
                  passes_on (conn_out conn) (rl_client_out rs) (reader_stream (conn_in dest)) (ts_down_done st \<and> rl_down_done rs))))))"
proof (rule connection_established [OF assms], goal_cases)
  case (1 conn target p1 p2 as')
  note est = 1(1-8) and client = 1(9) and gateway = 1(10)
  show ?case
  proof (intro exI conjI allI impI, rule est(1), rule est(2), rule est(3), rule est(4), rule est(5), goal_cases)
    case (1 cevents cp j)
    with client consider "cp_sessions cp ! j = Asked c g g'"
      | rs where "relay_of (cp_sessions cp ! j) = Some rs" "relay_run (relay_start conn target g') rs" by blast
    then show ?case
    proof cases
      case (2 rs)
      show ?thesis
      proof (rule disjI2, rule exI [of _ rs], rule conjI [OF 2(1)], intro allI impI, elim conjE, goal_cases)
        case (1 s gc sc first later b' e' g2 dest gevents gp i)
        have "net_stream (first @ later) False = p1 @ p2 @ sent_since (conn_out (dc_conn target)) (conn_out (rl_conn rs))"
          unfolding 1(5) sent_since_def by (subst relay_run_sends [OF est(5) 2(2)]) (simp add: est(4))
        from gateway [OF 1(1-4) this 1(6,9-11)] tunnel_passes_on [OF est(5-8) _ 1(7,8) 2(2)] show ?case by blast
      qed
    qed simp
  qed
qed

text \<open>
  C2.  And over a network that attacks: once the two first packets and the answer to the first have
  come through, the network may do to the bytes of the connection whatever it likes, in both directions, as long as it cannot make
  up frames that a key opens. Then, again for every interleaving in both processes: what the destination
  has received is a prefix of what the application sends, and what the application has received is a
  prefix of what the destination sends. So nothing is altered, inserted, repeated or reordered, and
  nothing that is missing is skipped over (for fewer than \<open>2^64\<close> bytes).
\<close>

theorem connection_protected:
  assumes "crypto_lib_ok (ce_crypto C)" "env_crypto E = ce_crypto C" "client_online C cl u ex" "rng_fail g = None" "rng_fail g' = None"
    and "conn_in (tls_inner u) = NetConn as b e" "net_stream as True = frame_packet success_frame @ tail"
    and "conn_in c = NetConn cs armed ce" "conn_deadline_err c = None" "wplan (conn_out c) = []"
    and "length methods \<le> 255" "0 \<in> set methods" "host_ok h" "port < 65536"
    and "net_stream cs True = encode_greeting methods @ encode_request h port @ waiting" "validateTarget (Address (request_of h port)) = None"
    and "\<And>t. ce_LocalAddr C t = TCPAddr (Some ip) (int lport)" "length ip = 4" "lport < 65536"
  shows "\<exists>conn target packet1 packet2 arriving.
    client_outcome C cl c g g' = Relaying (relay_start conn target g') \<and>
    net_stream cs False = encode_greeting methods @ encode_request h port @ reader_stream (conn_in conn) \<and>
    net_stream as False = frame_packet success_frame @ arriving \<and>
    (\<forall>cevents cp j rs s gc sc first later b' e' g2 altered dest gevents gp i.
       client_run C (client_start cl cevents) cp \<and> j < length (cp_sessions cp) \<and> connections cevents ! j = Asked c g g' \<and>
       relay_of (cp_sessions cp ! j) = Some rs \<and>
       gateway_online s gc sc (PSK cl) ex \<and> rng_fail g2 = None \<and>
       conn_in sc = NetConn (first @ later) b' e' \<and> net_stream first True = packet1 \<and> net_stream (first @ later) False = packet1 @ packet2 @ altered \<and>
       fst (dialPublicDestination (env_unifold E) (env_lookup E) (env_dial E) (Address (request_of h port)) (AllowedDestinations (gs_options s))) = Inr dest \<and>
       reader_ok (conn_in dest) \<and>
       gateway_run E s (gateway_main (Inr s) gevents) gp \<and> i < length (gp_sessions gp) \<and> arrivals gevents ! i = Arrived gc g2 \<longrightarrow>
       gp_sessions gp ! i = Arrived gc g2 \<or>
       (\<exists>st. gp_sessions gp ! i = Handled (OutTunnel (Inr st)) \<and>
          (length (reader_stream (conn_in conn)) < 2 ^ 64 \<and>
             unforged (the (channel_AEAD (dc_channel target))) 1 TypeDataPayload (packets_since (conn_out (dc_conn target)) (conn_out (rl_conn rs))) altered \<longrightarrow>
           passes_on (conn_out dest) (ts_dest_out st) (reader_stream (conn_in conn)) False) \<and>
          (length (reader_stream (conn_in dest)) < 2 ^ 64 \<and>
             unforged (the (ReceiveAEAD (dc_channel target))) 2 TypeDataPayload (packets_since (conn_out sc) (ts_tunnel_out st)) arriving \<longrightarrow>
           passes_on (conn_out conn) (rl_client_out rs) (reader_stream (conn_in dest)) False)))"
proof (rule connection_established [OF assms], goal_cases)
  case (1 conn target p1 p2 as')
  note est = 1(1-8) and client = 1(9) and gateway = 1(10)
  show ?case
  proof (rule exI [of _ conn], rule exI [of _ target], rule exI [of _ p1], rule exI [of _ p2], rule exI [of _ "net_stream as' False"],
      intro conjI allI impI, goal_cases)
    case (4 cevents cp j rs s gc sc first later b' e' g2 altered dest gevents gp i)
    from 4 have h: "client_run C (client_start cl cevents) cp" "j < length (cp_sessions cp)" "connections cevents ! j = Asked c g g'"
      "relay_of (cp_sessions cp ! j) = Some rs" by simp_all
    from client [OF h(1-3)] h(4) have rs: "relay_run (relay_start conn target g') rs" by auto
    from 4 show ?case
    proof (elim conjE, goal_cases)
      case 1
      from gateway [OF 1(5-10,12-14)] tunnel_protects [OF est(5-7) _ 1(11) rs] show ?case by blast
    qed
  qed (use est in simp_all)
qed

lemma outcome_start:
  assumes "outcome_of E s c g = OutTunnel (Inr st0)"
  shows "\<not> ts_up_done st0 \<and> \<not> ts_closed st0"
proof (cases "handle (env_crypto E) (gs_server s) c")
  case (Tunnelled c' session)
  with assms have "ServeTunnelWithOptions (env_unifold E) (env_lookup E) (env_dial E) (env_crypto E) (Some c') (Some session) (gs_options s) g = Inr st0"
    by (simp add: outcome_of_def)
  then show ?thesis by (auto simp: ServeTunnelWithOptions_def dest: served_start)
qed (use assms in \<open>simp_all add: outcome_of_def\<close>)

text \<open>The gateway of \<open>decoy_setup\<close> prepares a TLS client's connection with the plaintext connection \<open>sc\<close>.\<close>

lemma decoy_setup_online:
  assumes "conn_in sc = NetConn as False e" "conn_deadline_err sc = None" "wplan (conn_out sc) = []"
  obtains s where "decoy_setup (Some sc) = Inr s" "gateway_online s (sample_conn [Data [0x16]]) sc (map of_nat [0..<16]) (replicate 32 6)"
    "AllowedDestinations (gs_options s) = []"
proof -
  let ?c = "sample_conn [Data [0x16]]"
  obtain s config where s: "decoy_setup (Some sc) = Inr s" "Prepare (gs_server s) = Some (prepareGatewayTLS (decoy_tls (Some sc)) (Some config))"
    "Exporter (gs_server s) = exportServerKeyingMaterial" "OnAuthenticated (gs_server s)" "srv_PSK (gs_server s) = map of_nat [0..<16]"
    "AllowedDestinations (gs_options s) = []" by (rule decoy_setup_Inr)
  obtain raw where prep: "prepareGatewayTLS (decoy_tls (Some sc)) (Some config) (?c\<lparr>conn_in := CaptureConn (conn_in ?c) []\<rparr>) =
    (Inr (UTLSConn \<lparr>tls_inner = sc\<lparr>conn_in := arm_deadline False (conn_in sc)\<rparr>,
       tls_ConnectionState = \<lparr>tls_Version = VersionTLS13, tls_Export = (\<lambda>label n. Some (replicate n 6))\<rparr>\<rparr>), raw)"
    by (rule tls_client_prepared [OF assms(2)])
  have "sc\<lparr>conn_in := arm_deadline False (conn_in sc)\<rparr> = sc" using assms(1) by simp
  with s prep assms show ?thesis
    by (intro that [of s]) (simp_all add: gateway_online_def tls_client_exporter)
qed

definition asking_app :: conn where
  "asking_app = sample_conn [Data (encode_greeting [0]), Data (encode_request (HostDomain (bytes_of_string ''example.com'')) 80), Data [1, 2], Data [3]]"

definition sample_client :: Client where
  "sample_client = New ''gw:443'' ''gw'' (map of_nat [0..<16])"

text \<open>The application asks for \<^verbatim>\<open>example.com:80\<close> and sends the bytes 1, 2 and 3.\<close>

lemma sample_request:
  defines "host \<equiv> HostDomain (bytes_of_string ''example.com'')"
  shows "crypto_lib_ok (ce_crypto sample_client_env)" "env_crypto (sample_gateway_env None) = ce_crypto sample_client_env"
    "client_online sample_client_env sample_client sample_tls_conn (replicate 32 6)" "rng_fail sample_rng = None" "rng_fail sample_rng = None"
    "conn_in (tls_inner sample_tls_conn) = NetConn [Data (frame_packet success_frame)] False EOF"
    "net_stream [Data (frame_packet success_frame)] True = frame_packet success_frame @ []"
    "conn_in asking_app = NetConn [Data (encode_greeting [0]), Data (encode_request host 80), Data [1, 2], Data [3]] False EOF"
    "conn_deadline_err asking_app = None" "wplan (conn_out asking_app) = []"
    "length [0 :: byte] \<le> 255" "0 \<in> set [0 :: byte]" "host_ok host" "(80 :: nat) < 65536"
    "net_stream [Data (encode_greeting [0]), Data (encode_request host 80), Data [1, 2], Data [3]] True = encode_greeting [0] @ encode_request host 80 @ [1, 2, 3]"
    "validateTarget (Address (request_of host 80)) = None"
    "ce_LocalAddr sample_client_env t = TCPAddr (Some [127, 0, 0, 1]) (int 4000)" "length [127, 0, 0, 1 :: byte] = 4" "(4000 :: nat) < 65536"
proof -
  show "client_online sample_client_env sample_client sample_tls_conn (replicate 32 6)"
    using sample_dial by (auto simp: client_online_def sample_client_env_def sample_client_def)
  show "validateTarget (Address (request_of host 80)) = None" unfolding host_def by code_simp
  show "crypto_lib_ok (ce_crypto sample_client_env)" using sample_lib_ok by (simp add: sample_client_env_def)
qed (use sample_dial in \<open>simp_all add: host_def asking_app_def sample_conn_def sample_writer_def bytes_of_string_def
    sample_gateway_env_def sample_client_env_def\<close>)

lemma sample_destination:
  assumes "AllowedDestinations (gs_options s) = []"
  shows "fst (dialPublicDestination (env_unifold (sample_gateway_env None)) (env_lookup (sample_gateway_env None)) (env_dial (sample_gateway_env None))
      (Address (request_of (HostDomain (bytes_of_string ''example.com'')) 80)) (AllowedDestinations (gs_options s))) = Inr (sample_conn [])"
    "wplan (conn_out (sample_conn [])) = []" "reader_ok (conn_in (sample_conn []))"
proof -
  have "Address (request_of (HostDomain (bytes_of_string ''example.com'')) 80) = ''example.com:80''"
    "SplitHostPort ''example.com:80'' = Inr (''example.com'', ''80'')" "\<not> prohibited [93, 184, 216, 34]" by code_simp+
  with assms show "fst (dialPublicDestination (env_unifold (sample_gateway_env None)) (env_lookup (sample_gateway_env None)) (env_dial (sample_gateway_env None))
      (Address (request_of (HostDomain (bytes_of_string ''example.com'')) 80)) (AllowedDestinations (gs_options s))) = Inr (sample_conn [])"
    by (simp add: dialPublicDestination_def sample_gateway_env_def)
qed (simp_all add: sample_conn_def sample_writer_def)

text \<open>A gateway with one connection whose tunnel runs until the upload loop has ended.\<close>

lemma sample_tunnel_process:
  assumes "\<And>gp. gateway_run E s (gateway_main (Inr s) [Incoming gc g]) gp \<Longrightarrow> 0 < length (gp_sessions gp) \<Longrightarrow>
      gp_sessions gp ! 0 = Arrived gc g \<or> (\<exists>st. gp_sessions gp ! 0 = Handled (OutTunnel (Inr st)) \<and> Q st)"
  obtains gp st where "gateway_run E s (gateway_main (Inr s) [Incoming gc g]) gp" "gp_sessions gp = [Handled (OutTunnel (Inr st))]" "ts_up_done st" "Q st"
proof -
  obtain q where q: "gateway_run E s (gateway_main (Inr s) [Incoming gc g]) q" "gp_sessions q = [Handled (outcome_of E s gc g)]" "gp_exit q = None"
    by (rule accept_and_handle)
  from assms [OF q(1)] q(2) obtain st0 where st0: "outcome_of E s gc g = OutTunnel (Inr st0)" by auto
  obtain st where st: "tunnel_run st0 st" "ts_up_done st" using up_finishes outcome_start [OF st0] by blast
  obtain gp where gp: "gateway_run E s (gateway_main (Inr s) [Incoming gc g]) gp" "gp_sessions gp = [Handled (OutTunnel (Inr st))]"
    by (rule tunnel_in_process [OF st(1) q(1,3) q(2) [unfolded st0]])
  from assms [OF gp(1)] gp(2) have "Q st" by auto
  with gp st(2) show ?thesis by (rule that)
qed

text \<open>The client's relay until its upload loop has ended, and a gateway for a connection on which \<open>up\<close> follows the two packets.\<close>

lemma sample_client_process:
  assumes "client_outcome sample_client_env sample_client asking_app sample_rng sample_rng = Relaying (relay_start conn tgt sample_rng)"
  obtains cp rs where "client_run sample_client_env (client_start sample_client [Connects asking_app sample_rng sample_rng]) cp"
    "cp_sessions cp = [Relaying rs]" "relay_run (relay_start conn tgt sample_rng) rs" "rl_up_done rs"
proof -
  obtain rs where rs: "relay_run (relay_start conn tgt sample_rng) rs" "rl_up_done rs" using relay_finishes by blast
  obtain cp where "client_run sample_client_env (client_start sample_client [Connects asking_app sample_rng sample_rng]) cp" "cp_sessions cp = [Relaying rs]"
    by (rule connect_and_ask [of sample_client_env sample_client asking_app sample_rng sample_rng]) (rule relay_in_process [OF rs(1)], unfold assms)
  with rs show ?thesis by (intro that)
qed

lemma sample_gateway:
  obtains s sc where "decoy_setup (Some sc) = Inr s" "gateway_online s (sample_conn [Data [0x16]]) sc (PSK sample_client) (replicate 32 6)"
    "conn_in sc = NetConn ([Data p1] @ [Data (p2 @ up)]) False EOF" "AllowedDestinations (gs_options s) = []"
proof -
  let ?sc = "sample_conn [Data p1, Data (p2 @ up)]"
  have sc: "conn_in ?sc = NetConn [Data p1, Data (p2 @ up)] False EOF" "conn_deadline_err ?sc = None" "wplan (conn_out ?sc) = []"
    by (simp_all add: sample_conn_def sample_writer_def)
  have psk: "PSK sample_client = map of_nat [0..<16]" by (simp add: sample_client_def New_def)
  show ?thesis by (rule decoy_setup_online [OF sc], rule that, assumption) (use sc(1) psk in simp_all)
qed

theorem connection_proxied_witness:
  "\<exists>cp rs sc s gp st. client_run sample_client_env (client_start sample_client [Connects asking_app sample_rng sample_rng]) cp \<and>
     cp_sessions cp = [Relaying rs] \<and> decoy_setup (Some sc) = Inr s \<and>
     gateway_run (sample_gateway_env None) s (gateway_main (Inr s) [Incoming (sample_conn [Data [0x16]]) sample_rng]) gp \<and>
     gp_sessions gp = [Handled (OutTunnel (Inr st))] \<and> written (ts_dest_out st) = [1, 2, 3]"
  using connection_proxied [OF sample_request]
proof (elim exE conjE, goal_cases)
  case (1 conn tgt p1 p2)
  note asked = 1(1,3) and snt = 1(4) and ready = 1(5) and served = 1(6) [rule_format]
  have up: "reader_stream (conn_in conn) = [1, 2, 3]" using asked(2) by (simp add: bytes_of_string_def)
  obtain cp rs where cp: "client_run sample_client_env (client_start sample_client [Connects asking_app sample_rng sample_rng]) cp"
    "cp_sessions cp = [Relaying rs]" and rs: "relay_run (relay_start conn tgt sample_rng) rs" "rl_up_done rs"
    by (rule sample_client_process [OF asked(1)])
  have "client_run sample_client_env (client_start sample_client [Connects asking_app sample_rng sample_rng]) cp \<and> 0 < length (cp_sessions cp) \<and>
      connections [Connects asking_app sample_rng sample_rng] ! 0 = Asked asking_app sample_rng sample_rng" using cp by simp
  note all = served [OF this, unfolded cp(2) nth_Cons_0 relay_of.simps, simplified]
  let ?up = "sent_since (conn_out (dc_conn tgt)) (conn_out (rl_conn rs))"
  obtain s sc where s: "decoy_setup (Some sc) = Inr s" "gateway_online s (sample_conn [Data [0x16]]) sc (PSK sample_client) (replicate 32 6)"
    "conn_in sc = NetConn ([Data p1] @ [Data (p2 @ ?up)]) False EOF" "AllowedDestinations (gs_options s) = []" by (rule sample_gateway)
  have wire: "net_stream ([Data p1] @ [Data (p2 @ ?up)]) False = sent_since (conn_out (tls_inner sample_tls_conn)) (conn_out (rl_conn rs))"
    unfolding sent_since_def by (subst (2) relay_run_sends [OF ready rs(1)]) (simp add: snt)
  have at: "gp_sessions gp ! 0 = Arrived (sample_conn [Data [0x16]]) sample_rng \<or>
      (\<exists>st. gp_sessions gp ! 0 = Handled (OutTunnel (Inr st)) \<and> passes_on (conn_out (sample_conn [])) (ts_dest_out st) [1, 2, 3] (rl_up_done rs \<and> ts_up_done st))"
    if "gateway_run (sample_gateway_env None) s (gateway_main (Inr s) [Incoming (sample_conn [Data [0x16]]) sample_rng]) gp" "0 < length (gp_sessions gp)" for gp
    using all [rule_format, of s "sample_conn [Data [0x16]]" sc sample_rng "[Data p1]" "[Data (p2 @ ?up)]" False EOF "sample_conn []"
        "[Incoming (sample_conn [Data [0x16]]) sample_rng]" gp 0] s(2,3) sample_request(4) wire sample_destination [OF s(4)] up that
    by auto
  obtain gp st where gp: "gateway_run (sample_gateway_env None) s (gateway_main (Inr s) [Incoming (sample_conn [Data [0x16]]) sample_rng]) gp"
    "gp_sessions gp = [Handled (OutTunnel (Inr st))]" "ts_up_done st" "passes_on (conn_out (sample_conn [])) (ts_dest_out st) [1, 2, 3] (rl_up_done rs \<and> ts_up_done st)"
    by (rule sample_tunnel_process [OF at])
  then have "written (ts_dest_out st) = [1, 2, 3]" using rs(2) by (auto simp: passes_on_def sample_conn_def sample_writer_def)
  with cp s(1) gp(1,2) show ?case by blast
qed

text \<open>A network that delivers everything twice.\<close>

theorem connection_protected_witness:
  "\<exists>cp rs sc s gp st. client_run sample_client_env (client_start sample_client [Connects asking_app sample_rng sample_rng]) cp \<and>
     cp_sessions cp = [Relaying rs] \<and> rl_up_done rs \<and> decoy_setup (Some sc) = Inr s \<and>
     gateway_run (sample_gateway_env None) s (gateway_main (Inr s) [Incoming (sample_conn [Data [0x16]]) sample_rng]) gp \<and>
     gp_sessions gp = [Handled (OutTunnel (Inr st))] \<and> ts_up_done st \<and> (\<exists>rest. [1, 2, 3] = written (ts_dest_out st) @ rest)"
  using connection_protected [OF sample_request]
proof (elim exE conjE, goal_cases)
  case (1 conn tgt p1 p2 arriving)
  note asked = 1(1,2) and served = 1(4) [rule_format]
  have up: "reader_stream (conn_in conn) = [1, 2, 3]" using asked(2) by (simp add: bytes_of_string_def)
  have ready: "relay_ready conn tgt sample_rng" by (rule connection_established [OF sample_request]) (use asked(1) in \<open>auto simp: relay_start_def relay_ready_def\<close>)
  obtain cp rs where cp: "client_run sample_client_env (client_start sample_client [Connects asking_app sample_rng sample_rng]) cp"
    "cp_sessions cp = [Relaying rs]" and rs: "relay_run (relay_start conn tgt sample_rng) rs" "rl_up_done rs"
    by (rule sample_client_process [OF asked(1)])
  let ?ps = "packets_since (conn_out (dc_conn tgt)) (conn_out (rl_conn rs))"
  obtain s sc where s: "decoy_setup (Some sc) = Inr s" "gateway_online s (sample_conn [Data [0x16]]) sc (PSK sample_client) (replicate 32 6)"
    "conn_in sc = NetConn ([Data p1] @ [Data (p2 @ concat (?ps @ ?ps))]) False EOF" "AllowedDestinations (gs_options s) = []" by (rule sample_gateway)
  have at: "gp_sessions gp ! 0 = Arrived (sample_conn [Data [0x16]]) sample_rng \<or>
      (\<exists>st. gp_sessions gp ! 0 = Handled (OutTunnel (Inr st)) \<and> passes_on (conn_out (sample_conn [])) (ts_dest_out st) [1, 2, 3] False)"
    if "gateway_run (sample_gateway_env None) s (gateway_main (Inr s) [Incoming (sample_conn [Data [0x16]]) sample_rng]) gp" "0 < length (gp_sessions gp)" for gp
    using served [of "[Connects asking_app sample_rng sample_rng]" cp 0 rs s "sample_conn [Data [0x16]]" sc sample_rng "[Data p1]" "[Data (p2 @ concat (?ps @ ?ps))]"
        False EOF "concat (?ps @ ?ps)" "sample_conn []" "[Incoming (sample_conn [Data [0x16]]) sample_rng]" gp 0]
      cp s(2,3) sample_request(4) sample_destination [OF s(4)] up that replay_unforged [OF ready rs(1)] by auto
  obtain gp st where "gateway_run (sample_gateway_env None) s (gateway_main (Inr s) [Incoming (sample_conn [Data [0x16]]) sample_rng]) gp"
    "gp_sessions gp = [Handled (OutTunnel (Inr st))]" "ts_up_done st" "passes_on (conn_out (sample_conn [])) (ts_dest_out st) [1, 2, 3] False"
    by (rule sample_tunnel_process [OF at])
  moreover from this(4) have "\<exists>rest. [1, 2, 3] = written (ts_dest_out st) @ rest" by (auto simp: passes_on_def sample_conn_def sample_writer_def)
  ultimately show ?case using cp rs(2) s(1) by blast
qed

section \<open>Destinations\<close>

lemma validators_agree: "validateTarget t = None \<longleftrightarrow> validateTunnelTarget t = None"
  by (auto simp: validateTarget_def validateTunnelTarget_def MaxTargetAddressLen_def maxTargetAddressLen_def
      split: sum.splits prod.splits option.splits)

lemma Itoa_octet_length: "n < 256 \<Longrightarrow> length (Itoa n) \<le> 3"
proof -
  have "list_all (\<lambda>n. length (Itoa n) \<le> 3) [0..<256]" by code_simp
  then show "n < 256 \<Longrightarrow> length (Itoa n) \<le> 3" by (simp add: list_all_iff)
qed

lemma IP4_String_host:
  assumes "length b = 4"
  shows "set (IP4_String b) \<inter> {CHR ''['', CHR '']''} = {}" "length (IP4_String b) \<le> 15" "\<not> TrimSpace_empty (IP4_String b)"
proof -
  obtain b0 b1 b2 b3 where b: "b = [b0, b1, b2, b3]" using assms by (auto simp: numeral_eq_Suc length_Suc_conv)
  have s: "IP4_String b = Itoa (unat b0) @ ''.'' @ Itoa (unat b1) @ ''.'' @ Itoa (unat b2) @ ''.'' @ Itoa (unat b3)"
    by (simp add: b IP4_String_def)
  have punct: "CHR ''['' \<notin> set (Itoa n)" "CHR '']'' \<notin> set (Itoa n)" for n
    using digit_not_punct [OF conjunct1 [OF Itoa_digits]] by simp_all
  show "set (IP4_String b) \<inter> {CHR ''['', CHR '']''} = {}" by (simp add: s punct)
  show "length (IP4_String b) \<le> 15"
    using Itoa_octet_length [of "unat b0"] Itoa_octet_length [of "unat b1"] Itoa_octet_length [of "unat b2"] Itoa_octet_length [of "unat b3"]
    by (simp add: s)
  obtain c cs where c: "Itoa (unat b0) = c # cs" "is_digit c"
    using Itoa_digits [of "unat b0"] by (cases "Itoa (unat b0)") auto
  then show "\<not> TrimSpace_empty (IP4_String b)"
    by (auto simp: s TrimSpace_empty_def is_digit_def ascii_spaces_def unicode_spaces_def)
qed

lemma Itoa_port_length:
  assumes "n < 65536"
  shows "length (Itoa n) \<le> 5"
proof -
  have step: "length (Itoa m) \<le> Suc (length (Itoa (m div 10)))" for m by (subst Itoa.simps) simp
  have "n div 10 div 10 div 10 div 10 < 10" using assms by (simp add: div_mult2_eq [symmetric] less_mult_imp_div_less)
  then have "length (Itoa (n div 10 div 10 div 10 div 10)) = 1" by (subst Itoa.simps) simp
  with step [of n] step [of "n div 10"] step [of "n div 10 div 10"] step [of "n div 10 div 10 div 10"] show ?thesis by linarith
qed

text \<open>
  C29.  Client and gateway accept the same destinations, so a destination that the client lets through is
  not refused for its form by the gateway; and every SOCKS5 request for an IPv4 address and a port
  other than 0 names such a destination.
\<close>

theorem destinations_agree:
  "(validateTarget t = None \<longleftrightarrow> validateTunnelTarget t = None) \<and>
   (length ip = 4 \<and> 1 \<le> port \<and> port < 65536 \<longrightarrow> validateTarget (Address (request_of (HostIPv4 ip) port)) = None)"
proof (intro conjI impI)
  show "validateTarget t = None \<longleftrightarrow> validateTunnelTarget t = None" by (rule validators_agree)
  assume h: "length ip = 4 \<and> 1 \<le> port \<and> port < 65536"
  let ?host = "IP4_String ip"
  have "set (Itoa port) \<inter> {CHR '':'', CHR ''['', CHR '']''} = {}"
    using digit_not_punct [OF conjunct1 [OF Itoa_digits]] by simp
  then have split: "SplitHostPort (JoinHostPort ?host (Itoa port)) = Inr (?host, Itoa port)"
    using IP4_String_host(1) h by (intro SplitHostPort_JoinHostPort) auto
  have "length (JoinHostPort ?host (Itoa port)) \<le> 1024" "JoinHostPort ?host (Itoa port) \<noteq> ''''"
    using IP4_String_host(2) [of ip] Itoa_port_length [of port] h by (simp_all add: JoinHostPort_def)
  moreover have "Atoi (Itoa port) = Some (int port)" using h by (intro Atoi_Itoa) simp
  ultimately show "validateTarget (Address (request_of (HostIPv4 ip) port)) = None"
    using split IP4_String_host(3) h by (simp add: validateTarget_def request_of_def MaxTargetAddressLen_def IP_String_v4)
qed

theorem destinations_agree_witness:
  "validateTarget ''1.2.3.4:80'' = None \<and> validateTunnelTarget ''1.2.3.4:80'' = None"
proof -
  have "Address (request_of (HostIPv4 [1, 2, 3, 4]) 80) = ''1.2.3.4:80''" by code_simp
  then show ?thesis using destinations_agree [of "''1.2.3.4:80''" "[1, 2, 3, 4]" 80] by auto
qed

end
